(* ===== verification/Prelude.thy ===== *)
theory Prelude
  imports Main "HOL-Library.Word"
begin

text \<open>
  The shared vocabulary of the development: the machine types of Go on a 64-bit platform, the
  value an execution of a Go call can have (it returns, it panics, it never returns), the error
  values the program compares with, and a small theory of transition systems with its locale
  for inductive invariants. The generic lemmas on words, lists and maps that several
  components use live here, in the simpset or in the collections declared below.
\<close>

named_theorems invs "definitions of the component invariants"

section \<open>Machine types\<close>

text \<open>
  \<open>int64\<close> and \<open>int\<close> are 64-bit words read with \<^const>\<open>sint\<close>; \<open>uint32\<close> and
  \<open>uint64\<close> are words read with \<^const>\<open>unat\<close>; arithmetic on them wraps as it does in Go.
  A Go string is a sequence of bytes, so \<^typ>\<open>string\<close> (a list of 8-bit characters) is its
  model and \<^const>\<open>length\<close> is \<open>len\<close>.
\<close>

type_synonym u8 = "8 word"
type_synonym u32 = "32 word"
type_synonym u64 = "64 word"
type_synonym i64 = "64 word"
type_synonym bytes = "u8 list"

definition bytes_of :: "string \<Rightarrow> bytes" where
  "bytes_of s = map of_char s"

definition string_of :: "bytes \<Rightarrow> string" where
  "string_of b = map (\<lambda>w. char_of (unat w)) b"

lemma unat_of_char [simp]: "unat (of_char c :: u8) = of_char c"
proof -
  have "unat (of_nat (of_char c) :: u8) = of_char c"
    by (simp add: unsigned_of_nat take_bit_eq_mod)
  then show ?thesis by (simp only: of_nat_of_char)
qed

lemma of_char_char_of_unat [simp]: "of_char (char_of (unat w)) = (w :: u8)"
proof -
  have "unat w < 256" using unsigned_less [of w] by simp
  then have "(of_nat (of_char (char_of (unat w))) :: u8) = w" by simp
  then show ?thesis by (simp only: of_nat_of_char)
qed

lemma string_of_bytes_of [simp]: "string_of (bytes_of s) = s"
  by (simp add: string_of_def bytes_of_def comp_def)

lemma bytes_of_string_of [simp]: "bytes_of (string_of b) = b"
  by (simp add: string_of_def bytes_of_def comp_def)

lemma length_bytes_of [simp]: "length (bytes_of s) = length s"
  by (simp add: bytes_of_def)

lemma length_string_of [simp]: "length (string_of b) = length b"
  by (simp add: string_of_def)

lemma bytes_of_inject [simp]: "bytes_of s = bytes_of t \<longleftrightarrow> s = t"
  by (metis string_of_bytes_of)

text \<open>An \<open>int64\<close> built from an integer in range reads back as that integer.\<close>

definition in_i64 :: "int \<Rightarrow> bool" where
  "in_i64 x \<longleftrightarrow> - (2 ^ 63) \<le> x \<and> x < 2 ^ 63"

lemma sint_i64_of_int: "in_i64 x \<Longrightarrow> sint (of_int x :: i64) = x"
  by (simp add: in_i64_def signed_of_int signed_take_bit_int_eq_self)

lemma sint_zero_iff: "sint (x :: i64) = 0 \<longleftrightarrow> x = 0"
  by (metis signed_0 signed_word_eqI)

section \<open>Lists\<close>

text \<open>A sum over a list whose element is replaced.\<close>

lemma sum_list_map_update:
  fixes f :: "'a \<Rightarrow> 'b :: comm_monoid_add"
  shows "i < length xs \<Longrightarrow> f (xs ! i) + sum_list (map f (xs[i := x])) = f x + sum_list (map f xs)"
proof (induction xs arbitrary: i)
  case (Cons y ys)
  show ?case
  proof (cases i)
    case 0
    then show ?thesis by (simp add: ac_simps)
  next
    case (Suc j)
    with Cons.prems Cons.IH [of j] show ?thesis by simp (metis add.left_commute)
  qed
qed simp

lemma sum_list_map_0: "\<forall>x \<in> set xs. f x = (0 :: 'b :: monoid_add) \<Longrightarrow> sum_list (map f xs) = 0"
  by (induction xs) auto

lemma in_set_updateD: "x \<in> set (xs[i := y]) \<Longrightarrow> x = y \<or> x \<in> set xs"
  using set_update_subset_insert [of xs i y] by auto

lemma ball_set_update: "\<forall>x \<in> set xs. P x \<Longrightarrow> P y \<Longrightarrow> \<forall>x \<in> set (xs[i := y]). P x"
  using set_update_subset_insert [of xs i y] by auto

section \<open>Errors and outcomes\<close>

text \<open>
  An \<open>error\<close> value: the sentinels \<open>io.EOF\<close> and \<open>io.ErrUnexpectedEOF\<close>, which the code
  compares with, and any other error by its text.
\<close>

datatype error = Errorf string | EOF | ErrUnexpectedEOF

fun Error :: "error \<Rightarrow> string" where
  "Error (Errorf s) = s"
| "Error EOF = ''EOF''"
| "Error ErrUnexpectedEOF = ''unexpected EOF''"

text \<open>
  A call returns a value, panics, or never returns (an endless loop or a wait nothing ends).
\<close>

datatype 'a exec = Ret 'a | Panic string | Hang

fun bind_exec :: "'a exec \<Rightarrow> ('a \<Rightarrow> 'b exec) \<Rightarrow> 'b exec" where
  "bind_exec (Ret x) f = f x"
| "bind_exec (Panic s) f = Panic s"
| "bind_exec Hang f = Hang"

fun exec_of_option :: "'a option \<Rightarrow> 'a exec" where
  "exec_of_option None = Hang"
| "exec_of_option (Some x) = Ret x"

lemma bind_exec_Ret_iff:
  "bind_exec m f = Ret y \<longleftrightarrow> (\<exists>x. m = Ret x \<and> f x = Ret y)"
  by (cases m) auto

lemma bind_exec_Hang_iff:
  "bind_exec m f = Hang \<longleftrightarrow> m = Hang \<or> (\<exists>x. m = Ret x \<and> f x = Hang)"
  by (cases m) auto

lemma exec_of_option_Ret [simp]: "exec_of_option m = Ret x \<longleftrightarrow> m = Some x"
  by (cases m) auto

section \<open>Transition systems\<close>

inductive reach :: "('s \<Rightarrow> bool) \<Rightarrow> ('s \<Rightarrow> 's \<Rightarrow> bool) \<Rightarrow> 's \<Rightarrow> bool"
  for init :: "'s \<Rightarrow> bool" and step :: "'s \<Rightarrow> 's \<Rightarrow> bool" where
  reach_init: "init s \<Longrightarrow> reach init step s"
| reach_step: "reach init step s \<Longrightarrow> step s t \<Longrightarrow> reach init step t"

text \<open>
  The contract of an inductive invariant. Each concurrent component proves it once for its own
  step relation and gets the invariant in every reachable state.
\<close>

locale inductive_invariant =
  fixes init :: "'s \<Rightarrow> bool"
    and step :: "'s \<Rightarrow> 's \<Rightarrow> bool"
    and Inv :: "'s \<Rightarrow> bool"
  assumes Inv_init: "init s \<Longrightarrow> Inv s"
    and Inv_step: "Inv s \<Longrightarrow> step s t \<Longrightarrow> Inv t"
begin

lemma reach_Inv: "reach init step s \<Longrightarrow> Inv s"
  by (induction rule: reach.induct) (auto intro: Inv_init Inv_step)

lemma rtranclp_Inv: "step\<^sup>*\<^sup>* s t \<Longrightarrow> Inv s \<Longrightarrow> Inv t"
  by (induction rule: rtranclp_induct) (auto intro: Inv_step)

end

lemma reach_from: "reach (\<lambda>s. s = s0) step s \<Longrightarrow> step\<^sup>*\<^sup>* s0 s"
  by (induction rule: reach.induct) (auto intro: rtranclp.rtrancl_into_rtrancl)

lemma reach_rtranclp: "reach init step s \<Longrightarrow> step\<^sup>*\<^sup>* s t \<Longrightarrow> reach init step t"
  by (rotate_tac 1, induction rule: rtranclp_induct) (auto intro: reach_step)

text \<open>A relation that cannot go on for ever stops somewhere.\<close>

lemma wfp_stops:
  assumes "wfp (\<lambda>t s. P s \<and> R s t)" "P s" "\<And>s t. P s \<Longrightarrow> R s t \<Longrightarrow> P t"
  shows "\<exists>t. P t \<and> (\<nexists>u. R t u)"
  using assms(2) by (induction s rule: wfp_induct_rule [OF assms(1)]) (use assms(3) in blast)

end
