(* ===== verification/Lru.thy ===== *)
theory Lru
  imports Prelude
begin

text \<open>
  \<^verbatim>\<open>geecache/lru/lru.go\<close>: the least-recently-used cache. The state keeps what the Go
  struct keeps: the doubly linked list \<open>ll\<close> as the sequence of its element addresses (front
  first), the heap cells of those elements, and the map \<open>catche\<close> from keys to element
  addresses, so that the agreement of list, heap and map is something to prove. Sizes are
  \<open>int64\<close> words that wrap. The eviction loop of \<open>Add\<close> is a partial function: its value is
  \<^const>\<open>None\<close> when the loop never ends. Below the operations are the invariant, the abstract
  cache (a list of pairs, most recent first) and the refinement between the two.
\<close>

section \<open>State\<close>

text \<open>
  \<open>Value\<close> is the interface with the one method \<open>Len() int\<close>: the model is generic in the type
  of values and every operation that calls \<open>Len\<close> takes it as an argument. The callback
  \<open>OneEvicted\<close> is caller code: a function on the caller's own state \<open>'w\<close>, or nil.
\<close>

record 'v entry =
  key :: string
  val :: 'v

record ('v, 'w) Cache =
  maxBytes :: i64
  nbytes :: i64
  ll :: "nat list"
  cells :: "nat \<Rightarrow> 'v entry"
  fresh :: nat
  catche :: "string \<Rightarrow> nat option"
  OneEvicted :: "(string \<Rightarrow> 'v \<Rightarrow> 'w \<Rightarrow> 'w) option"

text \<open>The operations of \<open>container/list\<close> the cache uses, on the sequence of addresses.\<close>

definition MoveToFront :: "nat \<Rightarrow> nat list \<Rightarrow> nat list" where
  "MoveToFront e l = (if e \<in> set l then e # remove1 e l else l)"

definition Back :: "nat list \<Rightarrow> nat option" where
  "Back l = (if l = [] then None else Some (last l))"

section \<open>Operations\<close>

definition lru_New :: "i64 \<Rightarrow> (string \<Rightarrow> 'v \<Rightarrow> 'w \<Rightarrow> 'w) option \<Rightarrow> ('v, 'w) Cache" where
  "lru_New maxB onEvicted =
     \<lparr>maxBytes = maxB, nbytes = 0, ll = [], cells = (\<lambda>_. undefined), fresh = 0,
      catche = Map.empty, OneEvicted = onEvicted\<rparr>"

definition lru_Get :: "('v, 'w) Cache \<Rightarrow> string \<Rightarrow> ('v, 'w) Cache \<times> 'v option" where
  "lru_Get c k =
     (case catche c k of
        Some ele \<Rightarrow> (c\<lparr>ll := MoveToFront ele (ll c)\<rparr>, Some (val (cells c ele)))
      | None \<Rightarrow> (c, None))"

definition entry_bytes :: "('v \<Rightarrow> i64) \<Rightarrow> 'v entry \<Rightarrow> i64" where
  "entry_bytes Len kv = of_nat (length (key kv)) + Len (val kv)"

definition lru_RemoveOldest ::
  "('v \<Rightarrow> i64) \<Rightarrow> ('v, 'w) Cache \<times> 'w \<Rightarrow> ('v, 'w) Cache \<times> 'w" where
  "lru_RemoveOldest Len = (\<lambda>(c, w).
     (case Back (ll c) of
        None \<Rightarrow> (c, w)
      | Some ele \<Rightarrow>
          (let kv = cells c ele in
           (c\<lparr>ll := remove1 ele (ll c),
              catche := (catche c)(key kv := None),
              nbytes := nbytes c - entry_bytes Len kv\<rparr>,
            (case OneEvicted c of None \<Rightarrow> w | Some f \<Rightarrow> f (key kv) (val kv) w)))))"

definition over_budget :: "('v, 'w) Cache \<Rightarrow> bool" where
  "over_budget c \<longleftrightarrow> maxBytes c \<noteq> 0 \<and> sint (maxBytes c) < sint (nbytes c)"

partial_function (option) lru_evict ::
  "('v \<Rightarrow> i64) \<Rightarrow> ('v, 'w) Cache \<times> 'w \<Rightarrow> (('v, 'w) Cache \<times> 'w) option" where
  "lru_evict Len s =
     (if over_budget (fst s) then lru_evict Len (lru_RemoveOldest Len s) else Some s)"

definition lru_store :: "('v \<Rightarrow> i64) \<Rightarrow> ('v, 'w) Cache \<Rightarrow> string \<Rightarrow> 'v \<Rightarrow> ('v, 'w) Cache" where
  "lru_store Len c k v =
     (case catche c k of
        Some ele \<Rightarrow>
          (let kv = cells c ele in
           c\<lparr>ll := MoveToFront ele (ll c),
             nbytes := nbytes c + (Len v - Len (val kv)),
             cells := (cells c)(ele := kv\<lparr>val := v\<rparr>)\<rparr>)
      | None \<Rightarrow>
          (let ele = fresh c in
           c\<lparr>ll := ele # ll c,
             cells := (cells c)(ele := \<lparr>key = k, val = v\<rparr>),
             fresh := Suc ele,
             catche := (catche c)(k \<mapsto> ele),
             nbytes := nbytes c + (of_nat (length k) + Len v)\<rparr>))"

definition lru_Add ::
  "('v \<Rightarrow> i64) \<Rightarrow> ('v, 'w) Cache \<Rightarrow> string \<Rightarrow> 'v \<Rightarrow> 'w \<Rightarrow> (('v, 'w) Cache \<times> 'w) option" where
  "lru_Add Len c k v w = lru_evict Len (lru_store Len c k v, w)"

definition lru_Len :: "('v, 'w) Cache \<Rightarrow> nat" where
  "lru_Len c = length (ll c)"

text \<open>The branches of the operations as equations.\<close>

lemma lru_Get_hit:
  "catche c k = Some e \<Longrightarrow> lru_Get c k = (c\<lparr>ll := MoveToFront e (ll c)\<rparr>, Some (val (cells c e)))"
  by (simp add: lru_Get_def)

lemma lru_Get_miss: "catche c k = None \<Longrightarrow> lru_Get c k = (c, None)"
  by (simp add: lru_Get_def)

lemma lru_store_hit:
  "catche c k = Some e \<Longrightarrow> lru_store Len c k v =
     c\<lparr>ll := MoveToFront e (ll c), nbytes := nbytes c + (Len v - Len (val (cells c e))),
       cells := (cells c)(e := (cells c e)\<lparr>val := v\<rparr>)\<rparr>"
  by (simp add: lru_store_def Let_def)

lemma lru_store_miss:
  "catche c k = None \<Longrightarrow> lru_store Len c k v =
     c\<lparr>ll := fresh c # ll c, cells := (cells c)(fresh c := \<lparr>key = k, val = v\<rparr>),
       fresh := Suc (fresh c), catche := (catche c)(k \<mapsto> fresh c),
       nbytes := nbytes c + (of_nat (length k) + Len v)\<rparr>"
  by (simp add: lru_store_def Let_def)

section \<open>Invariant\<close>

text \<open>
  The addresses on the list are distinct and allocated, the map holds exactly the keys of the
  elements on the list, each at its own element, and \<open>nbytes\<close> is the sum of the sizes of the
  entries (modulo \<open>2^64\<close>, as the code computes it).
\<close>

definition lru_inv :: "('v \<Rightarrow> i64) \<Rightarrow> ('v, 'w) Cache \<Rightarrow> bool" where
  [invs]: "lru_inv Len c \<longleftrightarrow>
     distinct (ll c) \<and> (\<forall>e \<in> set (ll c). e < fresh c) \<and>
     (\<forall>k e. catche c k = Some e \<longleftrightarrow> e \<in> set (ll c) \<and> key (cells c e) = k) \<and>
     nbytes c = sum_list (map (\<lambda>e. entry_bytes Len (cells c e)) (ll c))"

lemma lru_invD:
  assumes "lru_inv Len c"
  shows "distinct (ll c)" and "e \<in> set (ll c) \<Longrightarrow> e < fresh c"
    and "catche c k = Some e \<longleftrightarrow> e \<in> set (ll c) \<and> key (cells c e) = k"
    and "nbytes c = sum_list (map (\<lambda>e. entry_bytes Len (cells c e)) (ll c))"
  using assms by (auto simp: lru_inv_def)

lemma lru_key_unique:
  assumes "lru_inv Len c" "e \<in> set (ll c)" "e' \<in> set (ll c)" "key (cells c e) = key (cells c e')"
  shows "e = e'"
  using assms(2-4) lru_invD(3) [OF assms(1), of "key (cells c e')"] by (metis option.inject)

lemma lru_missD:
  assumes "lru_inv Len c" "catche c k = None" "x \<in> set (ll c)"
  shows "key (cells c x) \<noteq> k" "x \<noteq> fresh c"
  using assms(2,3) lru_invD(2) [OF assms(1), of x] lru_invD(3) [OF assms(1), of k x] by auto

lemma sum_list_remove1:
  fixes f :: "nat \<Rightarrow> 'a :: ab_group_add"
  assumes "e \<in> set l"
  shows "sum_list (map f (remove1 e l)) = sum_list (map f l) - f e"
  using assms by (induction l) (auto simp: algebra_simps)

lemma MoveToFront_props:
  assumes "e \<in> set l" "distinct l"
  shows "distinct (MoveToFront e l)" "set (MoveToFront e l) = set l"
    "sum_list (map f (MoveToFront e l)) = (sum_list (map f l) :: i64)"
  using assms by (auto simp: MoveToFront_def sum_list_remove1)

lemma lru_inv_New: "lru_inv Len (lru_New m f)"
  by (simp add: lru_inv_def lru_New_def)

lemma lru_inv_Get: "lru_inv Len c \<Longrightarrow> lru_inv Len (fst (lru_Get c k))"
proof (cases "catche c k")
  case (Some e)
  assume inv: "lru_inv Len c"
  with Some have "e \<in> set (ll c)" by (simp add: lru_invD)
  with inv show ?thesis
    unfolding lru_Get_hit [OF Some] by (simp add: lru_inv_def MoveToFront_props)
qed (simp add: lru_Get_def)

lemma lru_inv_RemoveOldest:
  assumes "lru_inv Len (fst s)"
  shows "lru_inv Len (fst (lru_RemoveOldest Len s))"
proof (cases "ll (fst s) = []")
  case True
  with assms show ?thesis by (cases s) (simp add: lru_RemoveOldest_def Back_def)
next
  case False
  obtain c w where s: "s = (c, w)" by (cases s)
  have "last (ll c) \<in> set (ll c)" using False s by simp
  with assms False s lru_key_unique [of Len c _ "last (ll c)"] show ?thesis
    by (auto simp: lru_inv_def lru_RemoveOldest_def Back_def Let_def sum_list_remove1)
qed

lemma lru_inv_store_hit:
  assumes inv: "lru_inv Len c" and e: "catche c k = Some e"
  shows "lru_inv Len (lru_store Len c k v)"
proof -
  from inv e have el: "e \<in> set (ll c)" "key (cells c e) = k" by (simp_all add: lru_invD)
  note eq = lru_store_hit [OF e, of Len v]
  let ?c = "lru_store Len c k v"
  have "sum_list (map (\<lambda>x. entry_bytes Len (cells ?c x)) (remove1 e (ll c))) =
        sum_list (map (\<lambda>x. entry_bytes Len (cells c x)) (remove1 e (ll c)))"
    using lru_invD(1) [OF inv]
    by (intro arg_cong [where f = sum_list] map_cong) (auto simp: eq)
  then have "nbytes ?c = sum_list (map (\<lambda>x. entry_bytes Len (cells ?c x)) (ll ?c))"
    using el lru_invD(4) [OF inv]
    by (simp add: eq MoveToFront_def sum_list_remove1 entry_bytes_def)
  moreover have "distinct (ll ?c)" "set (ll ?c) = set (ll c)"
    using el lru_invD(1) [OF inv] by (simp_all add: eq MoveToFront_props)
  ultimately show ?thesis
    using inv unfolding lru_inv_def eq by simp
qed

lemma lru_inv_store_miss:
  assumes inv: "lru_inv Len c" and e: "catche c k = None"
  shows "lru_inv Len (lru_store Len c k v)"
proof -
  note nk = lru_missD(1) [OF inv e]
  have f: "fresh c \<notin> set (ll c)" using lru_missD(2) [OF inv e] by blast
  let ?c = "lru_store Len c k v"
  have "sum_list (map (\<lambda>x. entry_bytes Len (cells ?c x)) (ll c)) =
        sum_list (map (\<lambda>x. entry_bytes Len (cells c x)) (ll c))"
    using f by (intro arg_cong [where f = sum_list] map_cong) (auto simp: lru_store_miss [OF e])
  then have "nbytes ?c = sum_list (map (\<lambda>x. entry_bytes Len (cells ?c x)) (ll ?c))"
    using lru_invD(4) [OF inv] by (simp add: lru_store_miss [OF e] entry_bytes_def)
  moreover have "\<forall>x \<in> set (ll ?c). x < fresh ?c"
    using lru_invD(2) [OF inv] by (auto simp: lru_store_miss [OF e] less_Suc_eq)
  moreover have "distinct (ll ?c)"
    using f lru_invD(1) [OF inv] by (simp add: lru_store_miss [OF e])
  moreover have "catche ?c k' = Some x \<longleftrightarrow> x \<in> set (ll ?c) \<and> key (cells ?c x) = k'" for k' x
    using f nk lru_invD(3) [OF inv, of k' x] by (auto simp: lru_store_miss [OF e])
  ultimately show ?thesis unfolding lru_inv_def by blast
qed

lemma lru_inv_store: "lru_inv Len c \<Longrightarrow> lru_inv Len (lru_store Len c k v)"
  by (cases "catche c k") (auto intro: lru_inv_store_hit lru_inv_store_miss)

section \<open>The abstract cache\<close>

text \<open>
  What a client sees: the pairs in the cache, most recently used first. \<open>bytes_in\<close> is the byte
  count of a list of pairs, \<open>within\<close> the budget test (a budget of 0 means no limit), and
  \<open>lru_keep\<close> the longest prefix of the pairs that is within the budget.
\<close>

definition entries :: "('v, 'w) Cache \<Rightarrow> (string \<times> 'v) list" where
  "entries c = map (\<lambda>e. (key (cells c e), val (cells c e))) (ll c)"

definition bytes_in :: "('v \<Rightarrow> i64) \<Rightarrow> (string \<times> 'v) list \<Rightarrow> i64" where
  "bytes_in Len xs = sum_list (map (\<lambda>(k, v). of_nat (length k) + Len v) xs)"

definition within :: "('v \<Rightarrow> i64) \<Rightarrow> i64 \<Rightarrow> (string \<times> 'v) list \<Rightarrow> bool" where
  "within Len m xs \<longleftrightarrow> m = 0 \<or> sint (bytes_in Len xs) \<le> sint m"

fun lru_keep :: "('v \<Rightarrow> i64) \<Rightarrow> i64 \<Rightarrow> nat \<Rightarrow> (string \<times> 'v) list \<Rightarrow> (string \<times> 'v) list" where
  "lru_keep Len m 0 xs = []"
| "lru_keep Len m (Suc n) xs =
     (if within Len m (take (Suc n) xs) then take (Suc n) xs else lru_keep Len m n xs)"

definition touch :: "string \<Rightarrow> 'v \<Rightarrow> (string \<times> 'v) list \<Rightarrow> (string \<times> 'v) list" where
  "touch k v xs = (k, v) # filter (\<lambda>p. fst p \<noteq> k) xs"

definition spec_Add ::
  "('v \<Rightarrow> i64) \<Rightarrow> i64 \<Rightarrow> string \<Rightarrow> 'v \<Rightarrow> (string \<times> 'v) list \<Rightarrow> (string \<times> 'v) list" where
  "spec_Add Len m k v xs = lru_keep Len m (length (touch k v xs)) (touch k v xs)"

definition spec_Get :: "string \<Rightarrow> (string \<times> 'v) list \<Rightarrow> (string \<times> 'v) list \<times> 'v option" where
  "spec_Get k xs = (case map_of xs k of None \<Rightarrow> (xs, None) | Some v \<Rightarrow> (touch k v xs, Some v))"

text \<open>The calls of the eviction callback for a list of pairs, in that order.\<close>

fun notify :: "(string \<Rightarrow> 'v \<Rightarrow> 'w \<Rightarrow> 'w) option \<Rightarrow> (string \<times> 'v) list \<Rightarrow> 'w \<Rightarrow> 'w" where
  "notify None xs w = w"
| "notify (Some f) xs w = fold (\<lambda>(k, v). f k v) xs w"

lemma notify_Nil [simp]: "notify f [] w = w"
  by (cases f) auto

lemma notify_append: "notify f (xs @ ys) w = notify f ys (notify f xs w)"
  by (cases f) auto

lemma nbytes_entries: "lru_inv Len c \<Longrightarrow> nbytes c = bytes_in Len (entries c)"
  by (simp add: lru_inv_def bytes_in_def entries_def comp_def entry_bytes_def)

lemma over_budget_iff: "lru_inv Len c \<Longrightarrow> over_budget c \<longleftrightarrow> \<not> within Len (maxBytes c) (entries c)"
  by (auto simp: over_budget_def within_def nbytes_entries)

lemma entries_keys_distinct: "lru_inv Len c \<Longrightarrow> distinct (map fst (entries c))"
  using lru_key_unique [of Len c]
  by (auto simp: entries_def comp_def distinct_map inj_on_def lru_invD(1))

lemma lookup_entries:
  assumes "lru_inv Len c"
  shows "map_of (entries c) k = map_option (\<lambda>e. val (cells c e)) (catche c k)"
proof (cases "catche c k")
  case None
  then have "k \<notin> fst ` set (entries c)"
    by (auto simp: entries_def dest: lru_missD(1) [OF assms None])
  with None show ?thesis by (simp add: map_of_eq_None_iff)
next
  case (Some e)
  then have "(k, val (cells c e)) \<in> set (entries c)"
    using lru_invD(3) [OF assms, of k e] by (force simp: entries_def)
  with Some entries_keys_distinct [OF assms] show ?thesis by simp
qed

lemma entries_others:
  assumes "lru_inv Len c" "e \<in> set (ll c)" "key (cells c e) = k"
  shows "filter (\<lambda>p. fst p \<noteq> k) (entries c) =
    map (\<lambda>e. (key (cells c e), val (cells c e))) (remove1 e (ll c))"
proof -
  have "filter (\<lambda>x. key (cells c x) \<noteq> k) (ll c) = filter (\<lambda>x. x \<noteq> e) (ll c)"
    using assms lru_key_unique [OF assms(1)] by (intro filter_cong) auto
  then show ?thesis
    using lru_invD(1) [OF assms(1)]
    by (simp add: entries_def filter_map comp_def distinct_remove1_removeAll removeAll_filter_not_eq
        eq_commute)
qed

lemma entries_store:
  assumes inv: "lru_inv Len c"
  shows "entries (lru_store Len c k v) = touch k v (entries c)"
proof (cases "catche c k")
  case None
  then show ?thesis
    using lru_missD [OF inv None]
    by (auto simp: lru_store_miss [OF None] entries_def touch_def filter_map comp_def intro!: filter_True [symmetric])
next
  case (Some e)
  then have e: "e \<in> set (ll c)" "key (cells c e) = k" by (simp_all add: lru_invD(3) [OF inv])
  then show ?thesis
    using lru_invD(1) [OF inv]
    by (auto simp: touch_def entries_others [OF inv e] lru_store_hit [OF Some] MoveToFront_def
        entries_def [of "Cache.cells_update _ _"])
qed

lemma remove1_last: "distinct xs \<Longrightarrow> xs \<noteq> [] \<Longrightarrow> remove1 (last xs) xs = butlast xs"
  by (induction xs rule: rev_induct) (auto simp: remove1_append)

lemma entries_Get:
  assumes inv: "lru_inv Len c"
  shows "(entries (fst (lru_Get c k)), snd (lru_Get c k)) = spec_Get k (entries c)"
proof (cases "catche c k")
  case None
  with inv show ?thesis by (simp add: lru_Get_miss spec_Get_def lookup_entries)
next
  case (Some e)
  then have e: "e \<in> set (ll c)" "key (cells c e) = k" by (simp_all add: lru_invD(3) [OF inv])
  show ?thesis
    using e by (simp add: lru_Get_hit [OF Some] spec_Get_def lookup_entries [OF inv] Some touch_def
      entries_others [OF inv e] entries_def [of "ll_update _ _"] MoveToFront_def)
qed

lemma RemoveOldest_Nil: "entries c = [] \<Longrightarrow> lru_RemoveOldest Len (c, w) = (c, w)"
  by (simp add: entries_def lru_RemoveOldest_def Back_def)

lemma RemoveOldest_step:
  assumes inv: "lru_inv Len c" and ne: "entries c = xs @ [(k, v)]"
  obtains c' where "lru_RemoveOldest Len (c, w) = (c', notify (OneEvicted c) [(k, v)] w)"
    "entries c' = xs" "lru_inv Len c'" "maxBytes c' = maxBytes c" "OneEvicted c' = OneEvicted c"
proof -
  have l: "ll c \<noteq> []" using ne by (auto simp: entries_def)
  have last: "last (entries c) = (key (cells c (last (ll c))), val (cells c (last (ll c))))"
    using l by (simp add: entries_def last_map)
  let ?c = "fst (lru_RemoveOldest Len (c, w))"
  have "lru_RemoveOldest Len (c, w) = (?c, notify (OneEvicted c) [(k, v)] w)"
    using l last ne by (cases "OneEvicted c") (auto simp: lru_RemoveOldest_def Back_def Let_def)
  moreover have "entries ?c = butlast (entries c)"
    using l lru_invD(1) [OF inv]
    by (simp add: lru_RemoveOldest_def Back_def Let_def entries_def remove1_last map_butlast)
  moreover have "lru_inv Len ?c" by (rule lru_inv_RemoveOldest) (simp add: inv)
  moreover have "maxBytes ?c = maxBytes c" "OneEvicted ?c = OneEvicted c"
    by (auto simp: lru_RemoveOldest_def Let_def split: option.splits)
  ultimately show ?thesis using ne by (intro that [of ?c]) auto
qed

section \<open>The eviction loop\<close>

lemma within_Nil: "0 \<le> sint m \<Longrightarrow> within Len m []"
  by (simp add: within_def bytes_in_def)

text \<open>
  With a budget that is not negative the loop ends; it keeps the longest prefix within the budget
  and calls back for the others, the oldest first.
\<close>

lemma lru_keep_append:
  "lru_keep Len m n (xs @ ys) = lru_keep Len m n xs" if "n \<le> length xs"
  using that by (induction n) auto

lemma length_lru_keep: "length (lru_keep Len m n xs) \<le> n"
  by (induction n) auto

lemma lru_evict_spec:
  assumes "lru_inv Len c" "0 \<le> sint (maxBytes c)"
  shows "\<exists>c' w'. lru_evict Len (c, w) = Some (c', w') \<and> lru_inv Len c' \<and>
    entries c' = lru_keep Len (maxBytes c) (length (entries c)) (entries c) \<and>
    w' = notify (OneEvicted c) (rev (drop (length (entries c')) (entries c))) w \<and>
    maxBytes c' = maxBytes c \<and> OneEvicted c' = OneEvicted c \<and> \<not> over_budget c'"
  using assms
proof (induction "entries c" arbitrary: c w rule: rev_induct)
  case Nil
  then have "\<not> over_budget c" by (simp add: over_budget_iff within_Nil flip: Nil.hyps)
  with Nil show ?case by (subst lru_evict.simps) (simp flip: Nil.hyps)
next
  case (snoc p xs)
  obtain k v where p: "p = (k, v)" by (cases p)
  have len: "length (entries c) = Suc (length xs)" by (simp flip: snoc.hyps(2))
  show ?case
  proof (cases "over_budget c")
    case False
    then have "within Len (maxBytes c) (entries c)" using snoc.prems by (simp add: over_budget_iff)
    with False snoc.prems len show ?thesis
      by (subst lru_evict.simps) (simp add: len)
  next
    case True
    obtain c1 where c1: "lru_RemoveOldest Len (c, w) = (c1, notify (OneEvicted c) [(k, v)] w)"
      "entries c1 = xs" "lru_inv Len c1" "maxBytes c1 = maxBytes c" "OneEvicted c1 = OneEvicted c"
      using RemoveOldest_step [OF snoc.prems(1), of xs k v w] snoc.hyps(2) p by auto
    from snoc.hyps(1) [of c1 "notify (OneEvicted c) [(k, v)] w"] c1 snoc.prems
    obtain c' w' where IH: "lru_evict Len (c1, notify (OneEvicted c) [(k, v)] w) = Some (c', w')"
      "lru_inv Len c'" "entries c' = lru_keep Len (maxBytes c) (length xs) xs"
      "w' = notify (OneEvicted c) (rev (drop (length (entries c')) xs))
              (notify (OneEvicted c) [(k, v)] w)"
      "maxBytes c' = maxBytes c" "OneEvicted c' = OneEvicted c" "\<not> over_budget c'"
      by auto
    have ev: "lru_evict Len (c, w) = Some (c', w')"
      using True IH(1) c1(1) by (subst lru_evict.simps) simp
    have le: "length (entries c') \<le> length xs" by (simp add: IH(3) length_lru_keep)
    have "\<not> within Len (maxBytes c) (entries c)" using True snoc.prems by (simp add: over_budget_iff)
    then have keep: "lru_keep Len (maxBytes c) (length (entries c)) (entries c) =
        lru_keep Len (maxBytes c) (length xs) xs"
      by (simp add: len lru_keep_append flip: snoc.hyps(2))
    have dr: "rev (drop (length (entries c')) (entries c)) =
        [(k, v)] @ rev (drop (length (entries c')) xs)"
      using le p by (simp flip: snoc.hyps(2))
    have "w' = notify (OneEvicted c) (rev (drop (length (entries c')) (entries c))) w"
      by (simp only: dr notify_append IH(4))
    with ev keep IH show ?thesis by auto
  qed
qed

lemma lru_Add_spec:
  assumes "lru_inv Len c" "0 \<le> sint (maxBytes c)"
  shows "\<exists>c' w'. lru_Add Len c k v w = Some (c', w') \<and> lru_inv Len c' \<and>
    entries c' = spec_Add Len (maxBytes c) k v (entries c) \<and>
    w' = notify (OneEvicted c) (rev (drop (length (entries c')) (touch k v (entries c)))) w \<and>
    maxBytes c' = maxBytes c \<and> OneEvicted c' = OneEvicted c \<and> \<not> over_budget c'"
proof -
  let ?s = "lru_store Len c k v"
  have "maxBytes ?s = maxBytes c" "OneEvicted ?s = OneEvicted c"
    by (auto simp: lru_store_def Let_def split: option.splits)
  with lru_evict_spec [OF lru_inv_store [OF assms(1), of k v], of w] assms(2)
  show ?thesis by (simp add: lru_Add_def entries_store [OF assms(1)] spec_Add_def)
qed

lemma lru_keep_take: "\<exists>m \<le> n. lru_keep Len b n xs = take m xs"
  by (induction n) (use le_Suc_eq in auto)

lemma spec_Add_prefix: "\<exists>n. spec_Add Len m k v xs = take n (touch k v xs)"
  using lru_keep_take unfolding spec_Add_def by blast

lemma lru_keep_maximal:
  assumes "n \<le> length xs"
  shows "\<exists>m \<le> n. lru_keep Len b n xs = take m xs \<and>
    (\<forall>j. m < j \<and> j \<le> n \<longrightarrow> \<not> within Len b (take j xs))"
  using assms
proof (induction n)
  case (Suc n)
  then obtain m where m: "m \<le> n" "lru_keep Len b n xs = take m xs"
      "\<forall>j. m < j \<and> j \<le> n \<longrightarrow> \<not> within Len b (take j xs)" by auto
  show ?case
  proof (cases "within Len b (take (Suc n) xs)")
    case False
    with m show ?thesis by (intro exI [of _ m]) (auto simp: le_Suc_eq)
  qed (auto intro: exI [of _ "Suc n"])
qed simp

lemma lru_keep_first: "within Len m [x] \<Longrightarrow> 0 < n \<Longrightarrow> \<exists>ys. lru_keep Len m n (x # xs) = x # ys"
proof (induction n)
  case (Suc n)
  then show ?case by (cases n) auto
qed simp

text \<open>A state from which the eviction loop cannot leave.\<close>

definition lru_stuck :: "('v \<Rightarrow> i64) \<Rightarrow> ('v, 'w) Cache \<times> 'w \<Rightarrow> bool" where
  "lru_stuck Len s \<longleftrightarrow> lru_inv Len (fst s) \<and> sint (maxBytes (fst s)) < 0 \<and>
     (\<forall>n. 0 \<le> sint (bytes_in Len (take n (entries (fst s)))))"

lemma lru_stuck_over:
  assumes "lru_stuck Len s"
  shows "over_budget (fst s)"
proof -
  have "0 \<le> sint (bytes_in Len (take (length (entries (fst s))) (entries (fst s))))"
    using assms unfolding lru_stuck_def by blast
  with assms show ?thesis by (auto simp: lru_stuck_def over_budget_iff within_def)
qed

lemma lru_stuck_RemoveOldest:
  assumes "lru_stuck Len s"
  shows "lru_stuck Len (lru_RemoveOldest Len s)"
proof -
  obtain c w where s: "s = (c, w)" by (cases s)
  with assms have inv: "lru_inv Len c" by (simp add: lru_stuck_def)
  show ?thesis
  proof (cases "entries c" rule: rev_cases)
    case Nil
    with assms s RemoveOldest_Nil [OF this, of Len w] show ?thesis by simp
  next
    case (snoc xs p)
    then have xs: "entries c = xs @ [(fst p, snd p)]" by simp
    obtain c' w' where c': "lru_RemoveOldest Len (c, w) = (c', w')" "entries c' = xs" "lru_inv Len c'"
        "maxBytes c' = maxBytes c"
      by (rule RemoveOldest_step [OF inv xs, of w])
    have "take n xs = take (min n (length xs)) (entries c)" for n by (simp add: snoc min_def)
    with assms s c' show ?thesis by (simp add: lru_stuck_def)
  qed
qed

lemma lru_stuck_hangs:
  assumes "lru_stuck Len s"
  shows "lru_evict Len s = None"
proof (rule ccontr)
  assume "lru_evict Len s \<noteq> None"
  then obtain r where "lru_evict Len s = Some r" by blast
  then have "\<not> lru_stuck Len s"
  proof (rule lru_evict.raw_induct [where P = "\<lambda>Len s r. \<not> lru_stuck Len s", rotated])
    fix f Len s r
    assume "\<And>Len s r. f Len s = Some r \<Longrightarrow> \<not> lru_stuck Len s"
      and "(if over_budget (fst s) then f Len (lru_RemoveOldest Len s) else Some s) = Some r"
    then show "\<not> lru_stuck Len s"
      using lru_stuck_over [of Len s] lru_stuck_RemoveOldest [of Len s] by (metis (full_types))
  qed
  with assms show False by simp
qed

section \<open>The interface of a key-value cache\<close>

text \<open>
  What \<^verbatim>\<open>cache.go\<close> relies on: \<open>Add\<close> returns and leaves nothing in the cache but
  the new pair and pairs that were there; \<open>Get\<close> answers from the contents and changes no pair.
  A property of pairs that holds for everything added holds for everything answered.
\<close>

locale kv_cache =
  fixes ok :: "'c \<Rightarrow> bool"
    and contents :: "'c \<Rightarrow> (string \<times> 'v) list"
    and add :: "'c \<Rightarrow> string \<Rightarrow> 'v \<Rightarrow> 'c option"
    and get :: "'c \<Rightarrow> string \<Rightarrow> 'c \<times> 'v option"
  assumes add_ok: "ok c \<Longrightarrow> \<exists>c'. add c k v = Some c' \<and> ok c' \<and>
      set (contents c') \<subseteq> insert (k, v) {p \<in> set (contents c). fst p \<noteq> k}"
    and get_ok: "ok c \<Longrightarrow> get c k = (c', r) \<Longrightarrow> ok c' \<and> r = map_of (contents c) k \<and>
      set (contents c') = set (contents c)"
begin

definition coherent :: "(string \<Rightarrow> 'v \<Rightarrow> bool) \<Rightarrow> 'c \<Rightarrow> bool" where
  "coherent P c \<longleftrightarrow> ok c \<and> (\<forall>(k, v) \<in> set (contents c). P k v)"

lemma coherent_add: "coherent P c \<Longrightarrow> P k v \<Longrightarrow> \<exists>c'. add c k v = Some c' \<and> coherent P c'"
  using add_ok [of c k v] by (fastforce simp: coherent_def)

lemma coherent_get:
  assumes "coherent P c" "get c k = (c', r)"
  shows "coherent P c'" and "r = Some v \<Longrightarrow> P k v"
proof -
  have g: "ok c' \<and> r = map_of (contents c) k \<and> set (contents c') = set (contents c)"
    using assms get_ok by (auto simp: coherent_def)
  with assms(1) show "coherent P c'" by (simp add: coherent_def)
  show "P k v" if "r = Some v"
    using that g assms(1) map_of_SomeD [of "contents c" k v] by (auto simp: coherent_def)
qed

end

definition lru_ok :: "('v \<Rightarrow> i64) \<Rightarrow> ('v, 'w) Cache \<times> 'w \<Rightarrow> bool" where
  "lru_ok Len s \<longleftrightarrow> lru_inv Len (fst s) \<and> 0 \<le> sint (maxBytes (fst s))"

interpretation lru: kv_cache "lru_ok Len" "\<lambda>s. entries (fst s)"
  "\<lambda>s k v. lru_Add Len (fst s) k v (snd s)" "\<lambda>s k. (let r = lru_Get (fst s) k in ((fst r, snd s), snd r))"
  for Len :: "'v \<Rightarrow> i64"
proof (unfold_locales, goal_cases)
  case (1 s k v)
  then obtain c' w' where c': "lru_Add Len (fst s) k v (snd s) = Some (c', w')" "lru_inv Len c'"
    "entries c' = spec_Add Len (maxBytes (fst s)) k v (entries (fst s))" "maxBytes c' = maxBytes (fst s)"
    using lru_Add_spec [of Len "fst s" k v "snd s"] by (auto simp: lru_ok_def)
  obtain n where "entries c' = take n (touch k v (entries (fst s)))"
    using spec_Add_prefix c'(3) by metis
  then have "set (entries c') \<subseteq> insert (k, v) {p \<in> set (entries (fst s)). fst p \<noteq> k}"
    using set_take_subset [of n "touch k v (entries (fst s))"] by (auto simp: touch_def)
  with 1 c' show ?case by (auto simp: lru_ok_def)
next
  case (2 s k s' r)
  then obtain c' where g: "lru_Get (fst s) k = (c', r)" and s': "s' = (c', snd s)"
    by (cases "lru_Get (fst s) k") (simp add: Let_def)
  have inv: "lru_inv Len (fst s)" "0 \<le> sint (maxBytes (fst s))" using 2 by (simp_all add: lru_ok_def)
  have m: "maxBytes c' = maxBytes (fst s)" using g by (auto simp: lru_Get_def split: option.splits)
  have c': "(entries c', r) = spec_Get k (entries (fst s))" using entries_Get [OF inv(1), of k] g by simp
  have "set (touch k v (entries (fst s))) = set (entries (fst s))"
    if "map_of (entries (fst s)) k = Some v" for v
    using that entries_keys_distinct [OF inv(1)]
    by (auto simp: touch_def dest: map_of_SomeD eq_key_imp_eq_value)
  with c' have "r = map_of (entries (fst s)) k" "set (entries c') = set (entries (fst s))"
    by (auto simp: spec_Get_def split: option.splits)
  with inv m lru_inv_Get [OF inv(1), of k] g s' show ?case by (simp add: lru_ok_def)
qed

section \<open>Sequences of calls\<close>

text \<open>
  A client's calls on one cache, with the order of last use of the keys (most recent first) kept
  beside the cache: a hit and an \<open>Add\<close> use a key, a miss and \<open>RemoveOldest\<close> do not.
\<close>

datatype 'v lru_req = CallGet string | CallAdd string 'v | CallRemoveOldest

definition use :: "string \<Rightarrow> string list \<Rightarrow> string list" where
  "use k h = k # removeAll k h"

fun lru_call :: "('v \<Rightarrow> i64) \<Rightarrow> 'v lru_req \<Rightarrow> (('v, 'w) Cache \<times> 'w) \<times> string list \<Rightarrow>
    ((('v, 'w) Cache \<times> 'w) \<times> string list) option" where
  "lru_call Len (CallGet k) ((c, w), h) =
     (case lru_Get c k of (c', r) \<Rightarrow> Some ((c', w), if r = None then h else use k h))"
| "lru_call Len (CallAdd k v) ((c, w), h) =
     map_option (\<lambda>s'. (s', use k h)) (lru_Add Len c k v w)"
| "lru_call Len CallRemoveOldest (s, h) = Some (lru_RemoveOldest Len s, h)"

fun lru_calls :: "('v \<Rightarrow> i64) \<Rightarrow> 'v lru_req list \<Rightarrow> (('v, 'w) Cache \<times> 'w) \<times> string list \<Rightarrow>
    ((('v, 'w) Cache \<times> 'w) \<times> string list) option" where
  "lru_calls Len [] x = Some x"
| "lru_calls Len (a # as) x = Option.bind (lru_call Len a x) (lru_calls Len as)"

text \<open>What every call keeps: the invariant, the budget, and that the cache holds a prefix of
  the order of last use.\<close>

definition lru_good :: "('v \<Rightarrow> i64) \<Rightarrow> (('v, 'w) Cache \<times> 'w) \<times> string list \<Rightarrow> bool" where
  "lru_good Len x \<longleftrightarrow> lru_ok Len (fst x) \<and>
     (\<exists>n. map fst (entries (fst (fst x))) = take n (snd x))"

lemma map_fst_touch: "map fst (touch k v xs) = use k (map fst xs)"
  by (induction xs) (auto simp: touch_def use_def)

lemma use_take: "\<exists>m. use k (take n h) = take m (use k h)"
proof (induction h arbitrary: n)
  case (Cons a h)
  show ?case
  proof (cases n)
    case (Suc i)
    from Cons.IH [of i] obtain m where m: "removeAll k (take i h) = take m (removeAll k h)"
      by (auto simp: use_def take_Cons' split: if_splits)
    then show ?thesis
      using Suc by (cases "a = k") (auto simp: use_def intro: exI [of _ "Suc m"] exI [of _ "Suc (Suc m)"])
  qed (auto simp: use_def intro: exI [of _ "Suc 0"])
qed (auto simp: use_def intro: exI [of _ "Suc 0"])

lemma lru_call_good:
  assumes "lru_good Len x"
  shows "\<exists>x'. lru_call Len a x = Some x' \<and> lru_good Len x'"
proof -
  obtain c w h where x: "x = ((c, w), h)" by (metis surj_pair)
  with assms obtain n where ok: "lru_ok Len (c, w)" and n: "map fst (entries c) = take n h"
    by (auto simp: lru_good_def)
  then have inv: "lru_inv Len c" "0 \<le> sint (maxBytes c)" by (auto simp: lru_ok_def)
  have touched: "\<exists>m. take j (map fst (touch k v (entries c))) = take m (use k h)" for j k v
    using use_take [of k n h] n by (auto simp: map_fst_touch)
  show ?thesis
  proof (cases a)
    case (CallGet k)
    obtain c' r where g: "lru_Get c k = (c', r)" by (cases "lru_Get c k")
    have "lru_ok Len (c', w)" using lru.get_ok [OF ok, of k "(c', w)" r] g by simp
    moreover have "\<exists>m. map fst (entries c') = take m (if r = None then h else use k h)"
      using entries_Get [OF inv(1), of k] g n touched [of "length (touch k (the r) (entries c))" k "the r"]
      by (auto simp: spec_Get_def split: option.splits)
    ultimately show ?thesis using CallGet g x by (auto simp: lru_good_def)
  next
    case (CallAdd k v)
    obtain c' w' where c': "lru_Add Len c k v w = Some (c', w')"
      "entries c' = spec_Add Len (maxBytes c) k v (entries c)" "lru_ok Len (c', w')"
      using lru_Add_spec [OF inv, of k v w] inv by (auto simp: lru_ok_def)
    obtain j where "entries c' = take j (touch k v (entries c))" using spec_Add_prefix c'(2) by metis
    then have "\<exists>m. map fst (entries c') = take m (use k h)" using touched [of j k v] by (simp add: take_map)
    with c' CallAdd x show ?thesis by (auto simp: lru_good_def)
  next
    case CallRemoveOldest
    obtain c' w' where r: "lru_RemoveOldest Len (c, w) = (c', w')" by (cases "lru_RemoveOldest Len (c, w)")
    have "entries c' = butlast (entries c) \<and> maxBytes c' = maxBytes c"
    proof (cases "entries c" rule: rev_cases)
      case Nil
      with RemoveOldest_Nil [OF this, of Len w] r show ?thesis by simp
    next
      case (snoc xs p)
      then have "entries c = xs @ [(fst p, snd p)]" by simp
      from RemoveOldest_step [OF inv(1) this, of w] snoc r show ?thesis by (metis butlast_snoc fst_conv)
    qed
    moreover have "lru_inv Len c'" using lru_inv_RemoveOldest [of Len "(c, w)"] inv r by simp
    moreover have "\<exists>m. map fst (butlast (entries c)) = take m h"
      using n by (metis butlast_conv_take map_butlast take_take)
    ultimately show ?thesis
      using CallRemoveOldest x r inv by (auto simp: lru_good_def lru_ok_def)
  qed
qed

lemma lru_calls_good:
  "lru_good Len x \<Longrightarrow> \<exists>x'. lru_calls Len as x = Some x' \<and> lru_good Len x'"
proof (induction as arbitrary: x)
  case (Cons a as)
  from lru_call_good [OF Cons.prems, of a] obtain y where "lru_call Len a x = Some y" "lru_good Len y"
    by blast
  with Cons.IH [of y] show ?case by auto
qed simp

section \<open>Properties\<close>

text \<open>
  C6. \<open>Add\<close> on a cache in a consistent state whose budget is not negative returns; the new pair
  becomes the most recent, the pairs that stay are the longest prefix (in order of recency) whose
  byte count is within the budget, the callback is called for exactly the evicted pairs, oldest
  first, and list, heap, map and byte counter agree again.
\<close>

theorem lru_Add_evicts_least_recent:
  assumes "lru_inv Len c" "0 \<le> sint (maxBytes c)"
  shows "\<exists>n c' w'. lru_Add Len c k v w = Some (c', w') \<and> lru_inv Len c' \<and>
    entries c' = take n (touch k v (entries c)) \<and>
    within Len (maxBytes c) (entries c') \<and>
    (\<forall>j. n < j \<and> j \<le> length (touch k v (entries c)) \<longrightarrow>
       \<not> within Len (maxBytes c) (take j (touch k v (entries c)))) \<and>
    w' = notify (OneEvicted c) (rev (drop n (touch k v (entries c)))) w"
proof -
  let ?t = "touch k v (entries c)"
  obtain c' w' where c': "lru_Add Len c k v w = Some (c', w')" "lru_inv Len c'"
    "entries c' = spec_Add Len (maxBytes c) k v (entries c)" "maxBytes c' = maxBytes c"
    "w' = notify (OneEvicted c) (rev (drop (length (entries c')) ?t)) w" "\<not> over_budget c'"
    using lru_Add_spec [OF assms, of k v w] by auto
  obtain n where n: "n \<le> length ?t" "entries c' = take n ?t"
      "\<forall>j. n < j \<and> j \<le> length ?t \<longrightarrow> \<not> within Len (maxBytes c) (take j ?t)"
    using lru_keep_maximal [of "length ?t" ?t Len "maxBytes c"] c'(3) by (auto simp: spec_Add_def)
  moreover have "within Len (maxBytes c) (entries c')"
    using c'(2,4,6) by (simp add: over_budget_iff)
  ultimately show ?thesis using c'(1,2,5) by (intro exI [of _ n] exI [of _ c'] exI [of _ w']) simp
qed

theorem lru_Add_evicts_least_recent_witness:
  "\<exists>n c' w'. lru_Add (\<lambda>s. of_nat (length s)) (lru_New 20 None) ''key1'' ''value1'' () =
      Some (c', w') \<and> entries c' = take n [(''key1'', ''value1'')]"
  using lru_Add_evicts_least_recent [OF lru_inv_New, of 20 None "\<lambda>s. of_nat (length s)" "''key1''" "''value1''" "()"]
  by (auto simp: lru_New_def entries_def touch_def)

text \<open>
  C20. The cache is least-recently-used: whatever a client calls on a new cache with a budget that
  is not negative, every call returns, the invariant holds, and the keys in the cache are exactly
  the most recently used ones, a prefix of the order of last use.
\<close>

theorem lru_holds_most_recent:
  assumes "0 \<le> sint m"
  shows "\<exists>c w' h n. lru_calls Len as ((lru_New m f, w), []) = Some ((c, w'), h) \<and>
    lru_inv Len c \<and> map fst (entries c) = take n h"
proof -
  have "lru_good Len ((lru_New m f, w), [])"
    using assms lru_inv_New [of Len m f]
    by (simp add: lru_good_def lru_ok_def entries_def) (simp add: lru_New_def)
  from lru_calls_good [OF this, of as] show ?thesis by (auto simp: lru_good_def lru_ok_def)
qed

theorem lru_holds_most_recent_witness:
  "\<exists>c w' h n. lru_calls (\<lambda>s. of_nat (length s))
      [CallAdd ''key1'' ''value1'', CallAdd ''key2'' ''value2'', CallAdd ''k3'' ''v3'', CallGet ''key1'']
      ((lru_New 20 None, ()), []) = Some ((c, w'), h) \<and>
    lru_inv (\<lambda>s. of_nat (length s)) c \<and> map fst (entries c) = take n h"
  by (rule lru_holds_most_recent) simp



text \<open>
  Insert and lookup: if the pair alone fits the budget, a \<open>Get\<close> right after the \<open>Add\<close>
  finds the value.
\<close>

lemma lru_Get_after_Add:
  assumes "lru_inv Len c" "0 \<le> sint (maxBytes c)" "within Len (maxBytes c) [(k, v)]"
  shows "\<exists>c' w'. lru_Add Len c k v w = Some (c', w') \<and> snd (lru_Get c' k) = Some v"
proof -
  obtain c' w' where c': "lru_Add Len c k v w = Some (c', w')" "lru_inv Len c'"
    "entries c' = spec_Add Len (maxBytes c) k v (entries c)"
    using lru_Add_spec [OF assms(1,2), of k v w] by auto
  obtain ys where "entries c' = (k, v) # ys"
    using lru_keep_first [OF assms(3), of "length (touch k v (entries c))"] c'(3)
    by (force simp: spec_Add_def touch_def simp del: lru_keep.simps)
  then have "snd (lru_Get c' k) = Some v"
    using entries_Get [OF c'(2), of k] by (auto simp: spec_Get_def)
  with c'(1) show ?thesis by blast
qed

text \<open>
  A negative budget makes \<open>Add\<close> loop forever: the guard of the eviction loop stays true
  even when the list is empty and \<open>RemoveOldest\<close> does nothing.
\<close>

lemma lru_Add_negative_budget_hangs:
  assumes "lru_inv Len c" "sint (maxBytes c) < 0"
    and "\<And>n. 0 \<le> sint (bytes_in Len (take n (touch k v (entries c))))"
  shows "lru_Add Len c k v w = None"
proof -
  have "lru_stuck Len (lru_store Len c k v, w)"
    using assms lru_inv_store [OF assms(1)] entries_store [OF assms(1)]
    by (auto simp: lru_stuck_def lru_store_def Let_def split: option.splits)
  then show ?thesis unfolding lru_Add_def by (rule lru_stuck_hangs)
qed

end
