(* ===== verification/GeeGroup.thy ===== *)
theory GeeGroup
  imports Lru
begin

text \<open>
  The single-node core of geecache: \<^verbatim>\<open>byteview.go\<close>, \<^verbatim>\<open>cache.go\<close>,
  \<^verbatim>\<open>peers.go\<close>, the message types of \<^verbatim>\<open>geecachepb.pb.go\<close> and
  \<^verbatim>\<open>geecatche.go\<close>. The source of the data (\<open>Getter\<close>) and the other nodes
  (\<open>PeerGetter\<close>) are caller code: functions on the caller's own state \<open>'w\<close> that return, panic
  or hang. A call of a group is one sequential execution here; many callers at once are the subject
  of \<open>GeeConcurrent\<close>.
\<close>

section \<open>Byte views\<close>

datatype ByteView = ByteView (b: bytes)

definition ByteView_Len :: "ByteView \<Rightarrow> i64" where
  "ByteView_Len v = of_nat (length (b v))"

text \<open>\<open>copy(dst, src)\<close> overwrites the first \<open>min(len(dst), len(src))\<close> bytes of \<open>dst\<close>.\<close>

definition copy_bytes :: "bytes \<Rightarrow> bytes \<Rightarrow> bytes" where
  "copy_bytes dst src = take (length dst) src @ drop (length src) dst"

definition cloneBytes :: "bytes \<Rightarrow> bytes" where
  "cloneBytes bs = copy_bytes (replicate (length bs) 0) bs"

definition Byteslice :: "ByteView \<Rightarrow> bytes" where
  "Byteslice v = cloneBytes (b v)"

definition ByteView_String :: "ByteView \<Rightarrow> string" where
  "ByteView_String v = string_of (b v)"

lemma cloneBytes_id [simp]: "cloneBytes bs = bs"
  by (simp add: cloneBytes_def copy_bytes_def)

section \<open>The synchronized cache\<close>

text \<open>
  Every operation holds the mutex from its first line to its return, so it is one atomic
  function. \<open>lru\<close> is nil until the first \<open>add\<close>.
\<close>

record cache =
  cache_lru :: "(ByteView, unit) Cache option"
  cacheBytes :: i64

definition cache_add :: "cache \<Rightarrow> string \<Rightarrow> ByteView \<Rightarrow> cache option" where
  "cache_add c k v =
     (let l = (case cache_lru c of None \<Rightarrow> lru_New (cacheBytes c) None | Some l \<Rightarrow> l)
      in map_option (\<lambda>(l', w). c\<lparr>cache_lru := Some l'\<rparr>) (lru_Add ByteView_Len l k v ()))"

definition cache_get :: "cache \<Rightarrow> string \<Rightarrow> cache \<times> ByteView option" where
  "cache_get c k =
     (case cache_lru c of
        None \<Rightarrow> (c, None)
      | Some l \<Rightarrow> (case lru_Get l k of (l', r) \<Rightarrow> (c\<lparr>cache_lru := Some l'\<rparr>, r)))"

definition cache_contents :: "cache \<Rightarrow> (string \<times> ByteView) list" where
  "cache_contents c = (case cache_lru c of None \<Rightarrow> [] | Some l \<Rightarrow> entries l)"

definition cache_ok :: "cache \<Rightarrow> bool" where
  "cache_ok c \<longleftrightarrow> 0 \<le> sint (cacheBytes c) \<and>
     (case cache_lru c of None \<Rightarrow> True
      | Some l \<Rightarrow> lru_inv ByteView_Len l \<and> maxBytes l = cacheBytes c)"

lemma cache_add_spec:
  assumes "cache_ok c"
  shows "\<exists>c'. cache_add c k v = Some c' \<and> cache_ok c' \<and> cacheBytes c' = cacheBytes c \<and>
    cache_contents c' = spec_Add ByteView_Len (cacheBytes c) k v (cache_contents c)"
proof -
  define l :: "(ByteView, unit) Cache" where
    "l = (case cache_lru c of None \<Rightarrow> lru_New (cacheBytes c) None | Some l \<Rightarrow> l)"
  have l: "lru_inv ByteView_Len l" "maxBytes l = cacheBytes c" "entries l = cache_contents c"
    using assms lru_inv_New [of ByteView_Len "cacheBytes c" "None :: (string \<Rightarrow> ByteView \<Rightarrow> unit \<Rightarrow> unit) option"]
    by (auto simp: l_def cache_ok_def cache_contents_def lru_New_def entries_def split: option.splits)
  have "0 \<le> sint (maxBytes l)" using assms l(2) by (simp add: cache_ok_def)
  from lru_Add_spec [OF l(1) this, of k v "()"] obtain l' where
    "lru_Add ByteView_Len l k v () = Some (l', ())" "lru_inv ByteView_Len l'" "maxBytes l' = cacheBytes c"
    "entries l' = spec_Add ByteView_Len (cacheBytes c) k v (cache_contents c)"
    using l by auto
  with assms show ?thesis
    by (auto simp: cache_add_def Let_def l_def [symmetric] cache_ok_def cache_contents_def)
qed

lemma cache_get_spec:
  assumes "cache_ok c" "cache_get c k = (c', r)"
  shows "cache_ok c' \<and> cacheBytes c' = cacheBytes c \<and> (cache_contents c', r) = spec_Get k (cache_contents c)"
proof (cases "cache_lru c")
  case None
  with assms show ?thesis by (auto simp: cache_get_def cache_contents_def spec_Get_def)
next
  case (Some l)
  then have inv: "lru_inv ByteView_Len l" using assms(1) by (simp add: cache_ok_def)
  obtain l' r' where g: "lru_Get l k = (l', r')" by (cases "lru_Get l k")
  then have "maxBytes l' = maxBytes l" by (auto simp: lru_Get_def split: option.splits)
  with Some assms g entries_Get [OF inv, of k] lru_inv_Get [OF inv, of k] show ?thesis
    by (auto simp: cache_get_def cache_ok_def cache_contents_def)
qed

lemma cache_keys_distinct: "cache_ok c \<Longrightarrow> distinct (map fst (cache_contents c))"
  by (auto simp: cache_ok_def cache_contents_def entries_keys_distinct split: option.splits)

interpretation gee: kv_cache cache_ok cache_contents cache_add cache_get
proof (unfold_locales, goal_cases)
  case (1 c k v)
  then obtain c' where c': "cache_add c k v = Some c'" "cache_ok c'"
    "cache_contents c' = spec_Add ByteView_Len (cacheBytes c) k v (cache_contents c)"
    using cache_add_spec by blast
  obtain n where "cache_contents c' = take n (touch k v (cache_contents c))"
    using spec_Add_prefix c'(3) by metis
  then have "set (cache_contents c') \<subseteq> insert (k, v) {p \<in> set (cache_contents c). fst p \<noteq> k}"
    using set_take_subset [of n "touch k v (cache_contents c)"] by (auto simp: touch_def)
  with c' show ?case by blast
next
  case (2 c k c' r)
  then have "cache_ok c'" "(cache_contents c', r) = spec_Get k (cache_contents c)"
    using cache_get_spec by blast+
  moreover have "set (touch k v (cache_contents c)) = set (cache_contents c)"
    if "map_of (cache_contents c) k = Some v" for v
    using that cache_keys_distinct [OF 2(1)]
    by (auto simp: touch_def dest: map_of_SomeD eq_key_imp_eq_value)
  ultimately show ?case by (auto simp: spec_Get_def split: option.splits)
qed

section \<open>Messages and interfaces\<close>

record Request =
  req_Group :: string
  req_Key :: string

record Response =
  Value :: bytes

definition GetGroup_field :: "Request option \<Rightarrow> string" where
  "GetGroup_field x = (case x of Some r \<Rightarrow> req_Group r | None \<Rightarrow> '''')"

definition GetKey :: "Request option \<Rightarrow> string" where
  "GetKey x = (case x of Some r \<Rightarrow> req_Key r | None \<Rightarrow> '''')"

definition GetValue :: "Response option \<Rightarrow> bytes" where
  "GetValue x = (case x of Some r \<Rightarrow> Value r | None \<Rightarrow> [])"

type_synonym 'w Getter = "string \<Rightarrow> 'w \<Rightarrow> ((error + bytes) \<times> 'w) exec"
type_synonym 'w PeerGetter = "Request \<Rightarrow> Response \<Rightarrow> 'w \<Rightarrow> ((error option \<times> Response) \<times> 'w) exec"
type_synonym 'w PerrPicker = "string \<Rightarrow> ('w PeerGetter option \<times> bool) exec"

section \<open>Groups\<close>

text \<open>\<open>loader\<close> is the set of keys with a call in flight in the group's \<open>singleflight.Group\<close>.\<close>

record 'w Group =
  name :: string
  getter :: "'w Getter"
  mainCache :: cache
  peers :: "'w PerrPicker option"
  loader :: "string set"

definition NewGroup ::
  "string \<Rightarrow> i64 \<Rightarrow> 'w Getter option \<Rightarrow> (string \<Rightarrow> 'w Group option) \<Rightarrow>
   ('w Group \<times> (string \<Rightarrow> 'w Group option)) exec" where
  "NewGroup n bytes get groups =
     (case get of
        None \<Rightarrow> Panic ''nil Getter''
      | Some f \<Rightarrow>
          (let g = \<lparr>name = n, getter = f, mainCache = \<lparr>cache_lru = None, cacheBytes = bytes\<rparr>,
                    peers = None, loader = {}\<rparr>
           in Ret (g, groups(n \<mapsto> g))))"

definition GetGroup :: "string \<Rightarrow> (string \<Rightarrow> 'w Group option) \<Rightarrow> 'w Group option" where
  "GetGroup n groups = groups n"

definition populateCache :: "'w Group \<Rightarrow> string \<Rightarrow> ByteView \<Rightarrow> 'w Group exec" where
  "populateCache g k v =
     (case cache_add (mainCache g) k v of None \<Rightarrow> Hang | Some c \<Rightarrow> Ret (g\<lparr>mainCache := c\<rparr>))"

definition getLocally ::
  "'w Group \<Rightarrow> string \<Rightarrow> 'w \<Rightarrow> ('w Group \<times> (error + ByteView) \<times> 'w) exec" where
  "getLocally g k w =
     bind_exec (getter g k w) (\<lambda>(r, w').
       case r of
         Inl e \<Rightarrow> Ret (g, Inl e, w')
       | Inr bs \<Rightarrow>
           (let v = ByteView (cloneBytes bs)
            in bind_exec (populateCache g k v) (\<lambda>g'. Ret (g', Inr v, w'))))"

definition getFromPeer ::
  "'w Group \<Rightarrow> 'w PeerGetter \<Rightarrow> string \<Rightarrow> 'w \<Rightarrow> ((error + ByteView) \<times> 'w) exec" where
  "getFromPeer g peer k w =
     bind_exec (peer \<lparr>req_Group = name g, req_Key = k\<rparr> \<lparr>Value = []\<rparr> w) (\<lambda>((e, res), w').
       Ret (case e of Some x \<Rightarrow> Inl x | None \<Rightarrow> Inr (ByteView (Value res)), w'))"

text \<open>The function \<open>load\<close> passes to \<open>loader.Do\<close>.\<close>

definition load_fn ::
  "'w Group \<Rightarrow> string \<Rightarrow> 'w \<Rightarrow> ('w Group \<times> (error + ByteView) \<times> 'w) exec" where
  "load_fn g k w =
     (case peers g of
        None \<Rightarrow> getLocally g k w
      | Some PickPeer \<Rightarrow>
          bind_exec (PickPeer k) (\<lambda>(peer, ok).
            if ok then
              (case peer of
                 None \<Rightarrow> Panic ''nil pointer dereference''
               | Some p \<Rightarrow>
                   bind_exec (getFromPeer g p k w) (\<lambda>(r, w').
                     case r of Inr v \<Rightarrow> Ret (g, Inr v, w') | Inl e \<Rightarrow> getLocally g k w'))
            else getLocally g k w))"

definition group_load ::
  "'w Group \<Rightarrow> string \<Rightarrow> 'w \<Rightarrow> ('w Group \<times> (error + ByteView) \<times> 'w) exec" where
  "group_load g k w =
     (if k \<in> loader g then Hang
      else bind_exec (load_fn (g\<lparr>loader := insert k (loader g)\<rparr>) k w) (\<lambda>(g', r, w').
        Ret (g'\<lparr>loader := loader g' - {k}\<rparr>, r, w')))"

definition group_Get ::
  "'w Group \<Rightarrow> string \<Rightarrow> 'w \<Rightarrow> ('w Group \<times> (error + ByteView) \<times> 'w) exec" where
  "group_Get g k w =
     (if k = '''' then Ret (g, Inl (Errorf ''key is required''), w)
      else
        (case cache_get (mainCache g) k of
           (c, Some v) \<Rightarrow> Ret (g\<lparr>mainCache := c\<rparr>, Inr v, w)
         | (c, None) \<Rightarrow> group_load (g\<lparr>mainCache := c\<rparr>) k w))"

definition RegisterPeers :: "'w Group \<Rightarrow> 'w PerrPicker option \<Rightarrow> 'w Group exec" where
  "RegisterPeers g ps =
     (if peers g \<noteq> None then Panic ''RegisterPeerPicker called more than once''
      else Ret (g\<lparr>peers := ps\<rparr>))"

lemmas group_defs = populateCache_def getLocally_def getFromPeer_def load_fn_def group_load_def
  group_Get_def Let_def

section \<open>A group serves its source\<close>

text \<open>
  The environment of the read-through property, for the keys of a set \<open>K\<close>: the getter answers
  from a fixed source \<open>src\<close> (whatever it does to the caller's state), and a peer either fails or
  answers what the source has. \<open>group_ok\<close> is the invariant: what is cached agrees with the
  source and no call is in flight.
\<close>

definition honest_peer ::
  "(string \<Rightarrow> error + bytes) \<Rightarrow> string \<Rightarrow> string \<Rightarrow> 'w PeerGetter \<Rightarrow> bool" where
  "honest_peer src n k f \<longleftrightarrow>
     (\<forall>w. \<exists>e res w'. f \<lparr>req_Group = n, req_Key = k\<rparr> \<lparr>Value = []\<rparr> w = Ret ((e, res), w') \<and>
        (e = None \<longrightarrow> src k = Inr (Value res)))"

definition serves :: "string set \<Rightarrow> (string \<Rightarrow> error + bytes) \<Rightarrow> 'w Group \<Rightarrow> bool" where
  "serves K src g \<longleftrightarrow> (\<forall>k \<in> K. \<forall>w. \<exists>w'. getter g k w = Ret (src k, w')) \<and>
     (\<forall>pick. peers g = Some pick \<longrightarrow> (\<forall>k \<in> K. \<exists>p ok. pick k = Ret (p, ok) \<and>
        (ok \<longrightarrow> (\<exists>f. p = Some f \<and> honest_peer src (name g) k f))))"

definition answer :: "(string \<Rightarrow> error + bytes) \<Rightarrow> string \<Rightarrow> error + ByteView" where
  "answer src k = (if k = '''' then Inl (Errorf ''key is required'') else map_sum id ByteView (src k))"

definition agrees :: "(string \<Rightarrow> error + bytes) \<Rightarrow> cache \<Rightarrow> bool" where
  "agrees src = gee.coherent (\<lambda>k v. src k = Inr (b v))"

definition group_ok :: "(string \<Rightarrow> error + bytes) \<Rightarrow> 'w Group \<Rightarrow> bool" where
  [invs]: "group_ok src g \<longleftrightarrow> agrees src (mainCache g) \<and> loader g = {}"

text \<open>What no call of \<open>Get\<close> changes.\<close>

definition same_config :: "'w Group \<Rightarrow> 'w Group \<Rightarrow> bool" where
  "same_config g g' \<longleftrightarrow> name g' = name g \<and> getter g' = getter g \<and> peers g' = peers g"

lemma serves_config: "same_config g g' \<Longrightarrow> serves K src g \<Longrightarrow> serves K src g'"
  by (simp add: same_config_def serves_def)

lemma getLocally_serves:
  assumes "serves K src g" "k \<in> K" "agrees src (mainCache g)"
  shows "\<exists>g' w'. getLocally g k w = Ret (g', map_sum id ByteView (src k), w') \<and>
    agrees src (mainCache g') \<and> loader g' = loader g \<and> same_config g g'"
proof -
  obtain w' where w': "getter g k w = Ret (src k, w')" using assms(1,2) unfolding serves_def by blast
  show ?thesis
  proof (cases "src k")
    case (Inl e)
    with w' assms show ?thesis by (simp add: getLocally_def same_config_def)
  next
    case (Inr bs)
    from gee.coherent_add [OF assms(3) [unfolded agrees_def], of k "ByteView bs"] Inr
    obtain c where "cache_add (mainCache g) k (ByteView bs) = Some c" "agrees src c"
      by (auto simp: agrees_def)
    with w' Inr show ?thesis by (simp add: getLocally_def populateCache_def same_config_def Let_def)
  qed
qed

lemma getLocally_cached:
  assumes "getLocally g k w = Ret (g1, Inr v, w1)"
  shows "\<exists>c. cache_add (mainCache g) k v = Some c \<and> g1 = g\<lparr>mainCache := c\<rparr>"
proof -
  obtain r w' where r: "getter g k w = Ret (r, w')"
    using assms by (auto simp: getLocally_def bind_exec_Ret_iff)
  then obtain bs where "r = Inr bs" using assms by (cases r) (auto simp: getLocally_def)
  with assms r show ?thesis
    by (auto simp: getLocally_def populateCache_def Let_def split: option.splits)
qed

lemma load_fn_serves:
  assumes "serves K src g" "k \<in> K" "agrees src (mainCache g)"
  shows "\<exists>g' w'. load_fn g k w = Ret (g', map_sum id ByteView (src k), w') \<and>
    agrees src (mainCache g') \<and> loader g' = loader g \<and> same_config g g'"
proof (cases "peers g")
  case None
  then show ?thesis using getLocally_serves [OF assms] by (simp add: load_fn_def)
next
  case (Some pick)
  then obtain p ok where p: "pick k = Ret (p, ok)"
      "ok \<longrightarrow> (\<exists>f. p = Some f \<and> honest_peer src (name g) k f)"
    using assms(1,2) unfolding serves_def by blast
  show ?thesis
  proof (cases ok)
    case False
    then show ?thesis using getLocally_serves [OF assms] Some p by (simp add: load_fn_def)
  next
    case True
    then obtain f e res w1 where f: "p = Some f"
        "f \<lparr>req_Group = name g, req_Key = k\<rparr> \<lparr>Value = []\<rparr> w = Ret ((e, res), w1)"
        "e = None \<longrightarrow> src k = Inr (Value res)"
      using p(2) unfolding honest_peer_def by blast
    show ?thesis
    proof (cases e)
      case None
      with Some p True f assms show ?thesis by (simp add: load_fn_def getFromPeer_def same_config_def)
    next
      case (Some x)
      then show ?thesis
        using getLocally_serves [OF assms, of w1] \<open>peers g = Some pick\<close> p True f
        by (simp add: load_fn_def getFromPeer_def)
    qed
  qed
qed

lemma group_Get_serves:
  assumes "serves K src g" "group_ok src g" "k \<in> insert '''' K"
  shows "\<exists>g' w'. group_Get g k w = Ret (g', answer src k, w') \<and> group_ok src g' \<and> same_config g g'"
proof (cases "k = ''''")
  case True
  with assms show ?thesis by (simp add: group_Get_def answer_def same_config_def)
next
  case False
  obtain c r where c: "cache_get (mainCache g) k = (c, r)" by fastforce
  have co: "agrees src c" and hit: "\<And>v. r = Some v \<Longrightarrow> src k = Inr (b v)"
    using gee.coherent_get [OF _ c, of "\<lambda>k v. src k = Inr (b v)"] assms(2)
    by (auto simp: group_ok_def agrees_def)
  show ?thesis
  proof (cases r)
    case (Some v)
    with False c co hit [OF this] assms(2) show ?thesis
      by (simp add: group_Get_def answer_def group_ok_def same_config_def)
  next
    case None
    let ?g = "g\<lparr>mainCache := c, loader := {k}\<rparr>"
    have "serves K src ?g" using assms(1) by (simp add: serves_def)
    from load_fn_serves [OF this, of k w] co None False c assms(2,3)
    show ?thesis
      by (fastforce simp: group_Get_def group_load_def answer_def group_ok_def same_config_def)
  qed
qed

text \<open>A sequence of \<open>Get\<close> calls on one group.\<close>

fun group_Gets ::
  "'w Group \<Rightarrow> string list \<Rightarrow> 'w \<Rightarrow> ('w Group \<times> (error + ByteView) list \<times> 'w) exec" where
  "group_Gets g [] w = Ret (g, [], w)"
| "group_Gets g (k # ks) w =
     bind_exec (group_Get g k w) (\<lambda>(g1, r, w1).
       bind_exec (group_Gets g1 ks w1) (\<lambda>(g2, rs, w2). Ret (g2, r # rs, w2)))"

lemma group_Gets_serves:
  "serves K src g \<Longrightarrow> group_ok src g \<Longrightarrow> set ks \<subseteq> insert '''' K \<Longrightarrow>
     \<exists>g' w'. group_Gets g ks w = Ret (g', map (answer src) ks, w') \<and> group_ok src g'"
proof (induction ks arbitrary: g w)
  case (Cons k ks)
  from group_Get_serves [OF Cons.prems(1,2), of k w] Cons.prems(3) obtain g1 w1 where
    1: "group_Get g k w = Ret (g1, answer src k, w1)" "group_ok src g1" "same_config g g1" by auto
  from Cons.IH [OF serves_config [OF 1(3) Cons.prems(1)] 1(2), of w1] Cons.prems(3) obtain g2 w2 where
    "group_Gets g1 ks w1 = Ret (g2, map (answer src) ks, w2)" "group_ok src g2" by auto
  with 1 show ?case by simp
qed simp

lemma new_group_ok:
  assumes "NewGroup n bytes (Some f) groups = Ret (g0, groups')" "RegisterPeers g0 ps = Ret g" "0 \<le> sint bytes"
  shows "group_ok src g"
proof -
  have "mainCache g = \<lparr>cache_lru = None, cacheBytes = bytes\<rparr>" "loader g = {}"
    using assms(1,2) by (auto simp: NewGroup_def RegisterPeers_def Let_def split: if_splits)
  then show ?thesis
    using assms(3) by (simp add: group_ok_def agrees_def gee.coherent_def cache_ok_def cache_contents_def)
qed

section \<open>Properties\<close>

text \<open>
  A group is a transparent cache of its source: on a new group with a budget that is not
  negative, every \<open>Get\<close> of any sequence of calls for the keys the source serves returns exactly what the source has for the key (the
  error of an unknown key and of the empty key included), whether it is answered from the cache,
  by a peer or locally, and whatever is evicted on the way.
\<close>

lemma group_serves_source:
  assumes "NewGroup n bytes (Some f) groups = Ret (g0, groups')" "RegisterPeers g0 ps = Ret g"
    and "0 \<le> sint bytes" "serves K src g" "set ks \<subseteq> insert '''' K"
  shows "\<exists>g' w'. group_Gets g ks w = Ret (g', map (answer src) ks, w')"
  using group_Gets_serves [OF assms(4) new_group_ok [OF assms(1-3)] assms(5)] by blast

definition db :: "string \<Rightarrow> error + bytes" where
  "db k = (if k = ''Tom'' then Inr (bytes_of ''630'') else if k = ''Jack'' then Inr (bytes_of ''589'')
     else Inl (Errorf (k @ '' not exist'')))"

text \<open>
  A cached key is answered from the cache alone: neither the getter nor a peer is called, the
  caller's state is unchanged and so is the set of cached pairs.
\<close>

lemma group_Get_hit_calls_nobody:
  assumes "cache_ok (mainCache g)" "k \<noteq> ''''" "map_of (cache_contents (mainCache g)) k = Some v"
  shows "\<exists>g'. group_Get g k w = Ret (g', Inr v, w) \<and>
    set (cache_contents (mainCache g')) = set (cache_contents (mainCache g))"
proof -
  obtain c r where c: "cache_get (mainCache g) k = (c, r)" by fastforce
  with gee.get_ok [OF assms(1) c] assms(2,3) show ?thesis by (simp add: group_Get_def)
qed

text \<open>
  C26. The source is asked at most once for a key that fits the cache: after a \<open>Get\<close> of a node
  without peers has loaded a value that fits the budget, the next \<open>Get\<close> of that key returns the
  same value and leaves the caller's state alone, whatever it is by then.
\<close>

theorem group_Get_loads_once:
  assumes "cache_ok (mainCache g)" "peers g = None" "k \<noteq> ''''"
    and "group_Get g k w = Ret (g1, Inr v, w1)"
    and "within ByteView_Len (cacheBytes (mainCache g)) [(k, v)]"
  shows "\<exists>g2. group_Get g1 k w2 = Ret (g2, Inr v, w2)"
proof -
  obtain c r where c: "cache_get (mainCache g) k = (c, r)" by fastforce
  note spec = cache_get_spec [OF assms(1) c]
  have "cache_ok (mainCache g1) \<and> map_of (cache_contents (mainCache g1)) k = Some v"
  proof (cases r)
    case (Some v')
    with assms(3,4) c spec show ?thesis
      by (auto simp: group_Get_def spec_Get_def touch_def split: option.splits)
  next
    case None
    let ?g = "g\<lparr>mainCache := c, loader := insert k (loader g)\<rparr>"
    from None assms(2-4) c obtain g' where
      g': "getLocally ?g k w = Ret (g', Inr v, w1)" "g1 = g'\<lparr>loader := loader g' - {k}\<rparr>"
      by (auto simp: group_Get_def group_load_def load_fn_def bind_exec_Ret_iff split: if_splits)
    then obtain c' where "cache_add c k v = Some c'" "mainCache g1 = c'"
      using getLocally_cached [OF g'(1)] by auto
    moreover have "cache_ok c" "cacheBytes c = cacheBytes (mainCache g)" using spec by auto
    moreover obtain ys where "spec_Add ByteView_Len (cacheBytes c) k v (cache_contents c) = (k, v) # ys"
      using lru_keep_first [of ByteView_Len "cacheBytes c" "(k, v)" "length (touch k v (cache_contents c))"]
        assms(5) \<open>cacheBytes c = cacheBytes (mainCache g)\<close>
      by (force simp: spec_Add_def touch_def simp del: lru_keep.simps)
    ultimately show ?thesis using cache_add_spec [of c k v] by auto
  qed
  moreover obtain c1 r1 where "cache_get (mainCache g1) k = (c1, r1)" by fastforce
  ultimately show ?thesis using gee.get_ok [of "mainCache g1" k c1 r1] assms(3) by (simp add: group_Get_def)
qed

theorem group_Get_loads_once_witness:
  "\<exists>g g1 g2. group_Get g ''Tom'' (0 :: nat) = Ret (g1, Inr (ByteView [6, 3, 0]), 1) \<and>
     group_Get g1 ''Tom'' 7 = Ret (g2, Inr (ByteView [6, 3, 0]), 7)"
proof -
  let ?g = "\<lparr>name = ''scores'', getter = (\<lambda>k w. Ret (Inr [6, 3, 0], w + 1)),
    mainCache = \<lparr>cache_lru = None, cacheBytes = 0\<rparr>, peers = None, loader = {}\<rparr> :: nat Group"
  have ok: "cache_ok (mainCache ?g)" by (simp add: cache_ok_def)
  obtain c where "cache_add (mainCache ?g) ''Tom'' (ByteView [6, 3, 0]) = Some c"
    using cache_add_spec [OF ok] by blast
  then have g1: "group_Get ?g ''Tom'' 0 = Ret (?g\<lparr>mainCache := c\<rparr>, Inr (ByteView [6, 3, 0]), 1)"
    by (simp add: group_defs cache_get_def)
  from group_Get_loads_once [OF ok _ _ this, of 7] show ?thesis
    using g1 by (fastforce simp: within_def)
qed

text \<open>
  A value that came from a peer is not cached here: a successful load from a peer leaves the
  node's cache as the lookup left it.
\<close>

lemma group_peer_value_not_cached:
  assumes "peers g = Some pick" "pick k = Ret (Some f, True)" "k \<notin> loader g" "k \<noteq> ''''"
    and "cache_get (mainCache g) k = (c, None)"
    and "f \<lparr>req_Group = name g, req_Key = k\<rparr> \<lparr>Value = []\<rparr> w = Ret ((None, res), w')"
  shows "group_Get g k w = Ret (g\<lparr>mainCache := c\<rparr>, Inr (ByteView (Value res)), w')"
  using assms by (auto simp: group_defs)

end
