(* ===== verification/GoLib.thy ===== *)
theory GoLib
  imports Prelude "HOL-Library.Char_ord" "HOL-Library.List_Lexorder" "HOL-Library.Sublist"
begin

text \<open>
  The parts of Go's standard library the program calls, each as a function that computes what
  the documented one returns: \<open>sort.Search\<close>, \<open>strconv.Itoa\<close>, \<open>hash/crc32\<close>, and the
  functions of \<open>strings\<close> and \<open>net/url\<close>. With each comes the lemma its callers need.
\<close>

unbundle bit_operations_syntax

section \<open>\<open>sort.Search\<close>\<close>

text \<open>The binary search of the library: \<open>i, j\<close> delimit the range, \<open>h\<close> is its midpoint.\<close>

function search_loop :: "(nat \<Rightarrow> bool) \<Rightarrow> nat \<Rightarrow> nat \<Rightarrow> nat" where
  "search_loop f i j =
     (if i < j then (let h = (i + j) div 2 in if \<not> f h then search_loop f (h + 1) j else search_loop f i h)
      else i)"
  by pat_completeness auto
termination
  by (relation "measure (\<lambda>(f, i, j). j - i)") auto

declare search_loop.simps [simp del]

definition sort_Search :: "nat \<Rightarrow> (nat \<Rightarrow> bool) \<Rightarrow> nat" where
  "sort_Search n f = search_loop f 0 n"

lemma midpoint: "i < j \<Longrightarrow> i \<le> (i + j) div 2 \<and> (i + j) div 2 < (j :: nat)"
  by auto

lemma search_loop_unfold:
  "i < j \<Longrightarrow> f ((i + j) div 2) \<Longrightarrow> search_loop f i j = search_loop f i ((i + j) div 2)"
  "i < j \<Longrightarrow> \<not> f ((i + j) div 2) \<Longrightarrow> search_loop f i j = search_loop f ((i + j) div 2 + 1) j"
  "\<not> i < j \<Longrightarrow> search_loop f i j = i"
  by (simp_all add: search_loop.simps [of f i j] Let_def)

lemma search_loop_bounds: "i \<le> j \<Longrightarrow> i \<le> search_loop f i j \<and> search_loop f i j \<le> j"
proof (induction f i j rule: search_loop.induct)
  case (1 f i j)
  show ?case
  proof (cases "i < j")
    case True
    note m = midpoint [OF this]
    show ?thesis
    proof (cases "f ((i + j) div 2)")
      case f: True
      from "1.IH"(2) [OF True refl] f m show ?thesis
        unfolding search_loop_unfold(1) [of i j f, OF True f] by auto
    next
      case f: False
      from "1.IH"(1) [OF True refl f] m show ?thesis
        unfolding search_loop_unfold(2) [of i j f, OF True f] by auto
    qed
  qed (use "1.prems" in \<open>simp add: search_loop_unfold(3)\<close>)
qed

lemma search_loop_least:
  assumes "i \<le> j" "j \<le> n" "\<And>x y. x \<le> y \<Longrightarrow> y < n \<Longrightarrow> f x \<Longrightarrow> f y"
  shows "(\<forall>x. i \<le> x \<and> x < search_loop f i j \<longrightarrow> \<not> f x) \<and>
    (search_loop f i j < j \<longrightarrow> f (search_loop f i j))"
  using assms
proof (induction f i j rule: search_loop.induct)
  case (1 f i j)
  let ?h = "(i + j) div 2"
  show ?case
  proof (cases "i < j")
    case T: True
    note m = midpoint [OF this]
    show ?thesis
    proof (cases "f ?h")
      case True
      have "(\<forall>x. i \<le> x \<and> x < search_loop f i ?h \<longrightarrow> \<not> f x) \<and>
          (search_loop f i ?h < ?h \<longrightarrow> f (search_loop f i ?h))"
        using "1.IH"(2) [OF T refl] True m "1.prems"(2,3) by (meson le_trans less_imp_le)
      moreover have "search_loop f i ?h \<le> ?h" using search_loop_bounds m by blast
      ultimately show ?thesis
        using True by (metis search_loop_unfold(1) [of i j f, OF T True] le_neq_implies_less)
    next
      case False
      have "\<not> f x" if "x < ?h + 1" for x
        using that False "1.prems"(2) "1.prems"(3) [of x ?h] m by fastforce
      moreover have "(\<forall>x. ?h + 1 \<le> x \<and> x < search_loop f (?h + 1) j \<longrightarrow> \<not> f x) \<and>
          (search_loop f (?h + 1) j < j \<longrightarrow> f (search_loop f (?h + 1) j))"
        using "1.IH"(1) [OF T refl False] m "1.prems"(2,3) by (metis Suc_eq_plus1 Suc_leI)
      ultimately show ?thesis by (metis search_loop_unfold(2) [of i j f, OF T False] not_le)
    qed
  qed (use "1.prems"(1) in \<open>auto simp: search_loop_unfold(3)\<close>)
qed

text \<open>For a predicate that stays true once true, the search finds the least index, or \<open>n\<close>.\<close>

lemma sort_Search_least:
  assumes "\<And>x y. x \<le> y \<Longrightarrow> y < n \<Longrightarrow> f x \<Longrightarrow> f y"
  shows "sort_Search n f \<le> n" and "x < sort_Search n f \<Longrightarrow> \<not> f x"
    and "sort_Search n f < n \<Longrightarrow> f (sort_Search n f)"
  using search_loop_bounds [of 0 n f] search_loop_least [of 0 n n f] assms
  by (auto simp: sort_Search_def)

section \<open>\<open>strconv.Itoa\<close>\<close>

definition digit :: "nat \<Rightarrow> char" where
  "digit n = ''0123456789'' ! n"

fun Itoa :: "nat \<Rightarrow> string" where
  "Itoa n = (if n < 10 then [digit n] else Itoa (n div 10) @ [digit (n mod 10)])"

declare Itoa.simps [simp del]

section \<open>\<open>hash/crc32\<close>\<close>

text \<open>
  \<open>crc32.ChecksumIEEE\<close>: the reflected CRC-32 with polynomial \<open>0xEDB88320\<close>, initial value and
  final complement as in the library (which computes the same function by table).
\<close>

definition crc32_bit :: "u32 \<Rightarrow> u32" where
  "crc32_bit c = (if bit c 0 then drop_bit 1 c XOR 0xEDB88320 else drop_bit 1 c)"

definition crc32_byte :: "u32 \<Rightarrow> u8 \<Rightarrow> u32" where
  "crc32_byte c b = (crc32_bit ^^ 8) (c XOR ucast b)"

definition ChecksumIEEE :: "bytes \<Rightarrow> u32" where
  "ChecksumIEEE bs = NOT (foldl crc32_byte 0xFFFFFFFF bs)"

section \<open>\<open>strings\<close>\<close>

definition HasPrefix :: "string \<Rightarrow> string \<Rightarrow> bool" where
  "HasPrefix s p \<longleftrightarrow> take (length p) s = p"

text \<open>\<open>strings.Cut\<close>: the text before and after the first occurrence of a separator.\<close>

fun Cut :: "string \<Rightarrow> string \<Rightarrow> (string \<times> string) option" where
  "Cut [] sep = (if sep = [] then Some ([], []) else None)"
| "Cut (c # s) sep =
     (if HasPrefix (c # s) sep then Some ([], drop (length sep) (c # s))
      else map_option (\<lambda>(x, y). (c # x, y)) (Cut s sep))"

text \<open>\<open>strings.SplitN\<close> for a count \<open>n \<ge> 0\<close> and a separator that is not empty; \<open>Split\<close> has no limit, and
  a string of length \<open>l\<close> has at most \<open>l\<close> occurrences of such a separator.\<close>

fun SplitN :: "string \<Rightarrow> string \<Rightarrow> nat \<Rightarrow> string list" where
  "SplitN s sep 0 = []"
| "SplitN s sep (Suc 0) = [s]"
| "SplitN s sep (Suc (Suc n)) =
     (case Cut s sep of None \<Rightarrow> [s] | Some (x, y) \<Rightarrow> x # SplitN y sep (Suc n))"

definition Split :: "string \<Rightarrow> string \<Rightarrow> string list" where
  "Split s sep = SplitN s sep (length s + 1)"

fun Join :: "string list \<Rightarrow> string \<Rightarrow> string" where
  "Join [] sep = ''''"
| "Join [x] sep = x"
| "Join (x # y # xs) sep = x @ sep @ Join (y # xs) sep"

definition LastIndex :: "string \<Rightarrow> string \<Rightarrow> int" where
  "LastIndex s sep =
     (let is = filter (\<lambda>i. HasPrefix (drop i s) sep) [0..<length s + 1]
      in if is = [] then -1 else int (last is))"

text \<open>White space at the ends of a string, for the ASCII white space of the library's test.\<close>

definition is_space :: "char \<Rightarrow> bool" where
  "is_space c \<longleftrightarrow> c \<in> {CHR '' '', CHR 0x09, CHR 0x0A, CHR 0x0B, CHR 0x0C, CHR 0x0D}"

definition TrimSpace :: "string \<Rightarrow> string" where
  "TrimSpace s = rev (dropWhile is_space (rev (dropWhile is_space s)))"

lemma HasPrefix_single [simp]: "HasPrefix (c # s) [x] \<longleftrightarrow> c = x" "\<not> HasPrefix [] [x]"
  by (auto simp: HasPrefix_def)

lemma HasPrefix_append [simp]: "HasPrefix (p @ s) p"
  by (simp add: HasPrefix_def)

lemma Cut_append: "x \<notin> set s \<Longrightarrow> Cut (s @ x # t) [x] = Some (s, t)"
  by (induction s) auto

lemma Cut_None: "x \<notin> set s \<Longrightarrow> Cut s [x] = None"
  by (induction s) auto

lemma SplitN_Join:
  "xs \<noteq> [] \<Longrightarrow> \<forall>s \<in> set xs. x \<notin> set s \<Longrightarrow> length xs \<le> n \<Longrightarrow> SplitN (Join xs [x]) [x] n = xs"
proof (induction xs arbitrary: n rule: induct_list012)
  case (2 s)
  then obtain m where "n = Suc m" by (cases n) auto
  with 2 show ?case by (cases m) (auto simp: Cut_None)
next
  case (3 s t xs)
  then obtain m where n: "n = Suc (Suc m)" by (cases n; cases "n - 1") auto
  from 3 have "Cut (s @ x # Join (t # xs) [x]) [x] = Some (s, Join (t # xs) [x])" by (auto intro: Cut_append)
  with 3 n show ?case by simp
qed simp

lemma length_Join: "length xs \<le> length (Join xs [x]) + 1"
  by (induction xs "[x]" rule: Join.induct) auto

text \<open>\<open>Split\<close> undoes \<open>Join\<close> for parts that do not contain the separator.\<close>

lemma Split_Join: "xs \<noteq> [] \<Longrightarrow> \<forall>s \<in> set xs. x \<notin> set s \<Longrightarrow> Split (Join xs [x]) [x] = xs"
  unfolding Split_def by (rule SplitN_Join) (use length_Join in auto)

lemma TrimSpace_id:
  assumes "s \<noteq> []" "\<not> is_space (hd s)" "\<not> is_space (last s)"
  shows "TrimSpace s = s"
proof -
  have "dropWhile is_space s = s" using assms(1,2) by (cases s) auto
  moreover have "dropWhile is_space (rev s) = rev s"
    using assms(1,3) by (cases "rev s") (auto simp: last_rev hd_rev dest: arg_cong [of _ _ rev])
  ultimately show ?thesis by (simp add: TrimSpace_def)
qed

lemma TrimSpace_Nil [simp]: "TrimSpace [] = []"
  by (simp add: TrimSpace_def)

text \<open>A last separator is found in front of a suffix that has none.\<close>

lemma LastIndex_append:
  assumes "x \<notin> set t"
  shows "LastIndex (s @ x # t) [x] = int (length s)"
proof -
  have t: "\<not> HasPrefix (drop i t) [x]" for i
    using assms in_set_dropD [of x i t] by (cases "drop i t") auto
  let ?P = "\<lambda>i. HasPrefix (drop i (s @ x # t)) [x]"
  have "[0..<length (s @ x # t) + 1] = [0..<length s] @ length s # [length s + 1..<length s + length t + 2]"
    using upt_add_eq_append [of 0 "length s" "length t + 2"] upt_conv_Cons [of "length s" "length s + length t + 2"]
    by (simp add: add.assoc del: upt_Suc)
  moreover have "filter ?P [length s + 1..<length s + length t + 2] = []"
    using t by (auto simp: filter_empty_conv drop_Cons split: nat.split)
  ultimately have "filter ?P [0..<length (s @ x # t) + 1] = filter ?P [0..<length s] @ [length s]"
    by (simp del: upt_Suc)
  then show ?thesis by (simp add: LastIndex_def Let_def del: upt_Suc)
qed

lemma LastIndex_none:
  assumes "x \<notin> set s"
  shows "LastIndex s [x] = -1"
proof -
  have "\<not> HasPrefix (drop i s) [x]" for i
    using assms in_set_dropD [of x i s] by (cases "drop i s") auto
  then show ?thesis by (simp add: LastIndex_def Let_def filter_empty_conv del: upt_Suc)
qed

section \<open>\<open>net/url\<close>\<close>

definition unreserved :: "char \<Rightarrow> bool" where
  "unreserved c \<longleftrightarrow> (let n = (of_char c :: nat) in
     n \<in> {97..122} \<or> n \<in> {65..90} \<or> n \<in> {48..57}) \<or> c \<in> set ''-_.~''"

definition hex_digit :: "nat \<Rightarrow> char" where
  "hex_digit n = ''0123456789ABCDEF'' ! n"

definition unhex :: "char \<Rightarrow> nat option" where
  "unhex c = (let n = (of_char c :: nat) in
     if 48 \<le> n \<and> n \<le> 57 then Some (n - 48)
     else if 97 \<le> n \<and> n \<le> 102 then Some (n - 87)
     else if 65 \<le> n \<and> n \<le> 70 then Some (n - 55) else None)"

definition query_escape_char :: "char \<Rightarrow> string" where
  "query_escape_char c =
     (if unreserved c then [c] else if c = CHR '' '' then ''+''
      else [CHR ''%'', hex_digit (of_char c div 16), hex_digit (of_char c mod 16)])"

definition QueryEscape :: "string \<Rightarrow> string" where
  "QueryEscape s = concat (map query_escape_char s)"

text \<open>
  The decoding of the path of a request URL: \<open>%XX\<close> stands for a byte, every other character for
  itself (a \<open>+\<close> too, which stands for a space in a query only). A malformed escape is an error.
\<close>

fun unescape_path :: "string \<Rightarrow> string option" where
  "unescape_path [] = Some []"
| "unescape_path (c # s) =
     (if c = CHR ''%'' then
        (case s of
           a # d # s' \<Rightarrow>
             (case (unhex a, unhex d) of
                (Some x, Some y) \<Rightarrow> map_option ((#) (char_of (16 * x + y))) (unescape_path s')
              | _ \<Rightarrow> None)
         | _ \<Rightarrow> None)
      else map_option ((#) c) (unescape_path s))"

lemma unhex_hex_digit:
  assumes "n < 16"
  shows "unhex (hex_digit n) = Some n"
proof -
  have "n \<in> set [0..<16]" using assms by simp
  then show ?thesis unfolding unhex_def hex_digit_def by (simp add: upt_rec) fastforce
qed

text \<open>What a path decoder makes of a byte that \<open>QueryEscape\<close> encoded: a space comes back as \<open>+\<close>.\<close>

definition plus_for_space :: "char \<Rightarrow> char" where
  "plus_for_space c = (if c = CHR '' '' then CHR ''+'' else c)"

lemma unescape_query_escape_char:
  "unescape_path (query_escape_char c @ s) = map_option ((#) (plus_for_space c)) (unescape_path s)"
proof -
  have "of_char c < (256 :: nat)" using unsigned_less [of "of_char c :: u8"] by simp
  then have "of_char c div 16 < (16 :: nat)" by (simp add: less_mult_imp_div_less)
  moreover have "\<not> unreserved (CHR ''%'')" "\<not> unreserved (CHR '' '')" by code_simp+
  ultimately show ?thesis
    by (auto simp: query_escape_char_def plus_for_space_def unhex_hex_digit)
qed

lemma unescape_QueryEscape_append:
  "unescape_path (QueryEscape k @ s) = map_option (\<lambda>y. map plus_for_space k @ y) (unescape_path s)"
  by (induction k) (auto simp: QueryEscape_def unescape_query_escape_char option.map_comp comp_def
      option.map_ident intro!: option.map_cong0)

lemma unescape_QueryEscape: "unescape_path (QueryEscape k) = Some (map plus_for_space k)"
  using unescape_QueryEscape_append [of k "[]"] by simp

lemma map_plus_for_space_id: "CHR '' '' \<notin> set k \<Longrightarrow> map plus_for_space k = k"
  by (induction k) (auto simp: plus_for_space_def)

end
