(* ===== verification/ConsistentHash.thy ===== *)
theory ConsistentHash
  imports GoLib "HOL-Library.Multiset"
begin

text \<open>
  \<^verbatim>\<open>geecache/consistenthash/consistenthash.go\<close>: the hash ring. The state is the Go struct:
  the hash function, the number of virtual nodes per machine, the sorted slice of ring positions
  and the map from a position to the machine that owns it. \<open>Get\<close> searches the slice with the
  library's binary search; the lemmas show that this is the successor on the ring, that adding
  machines moves keys only to the added ones, and that the order in which machines are added
  does not matter when no two of them collide.
\<close>

section \<open>State and operations\<close>

record Map =
  hash :: "bytes \<Rightarrow> u32"
  replicas :: int
  keys :: "int list"
  hasMap :: "int \<Rightarrow> string option"

definition chash_New :: "int \<Rightarrow> (bytes \<Rightarrow> u32) option \<Rightarrow> Map" where
  "chash_New n fn =
     \<lparr>hash = (case fn of None \<Rightarrow> ChecksumIEEE | Some f \<Rightarrow> f), replicas = n, keys = [],
      hasMap = Map.empty\<rparr>"

definition chash_position :: "Map \<Rightarrow> string \<Rightarrow> nat \<Rightarrow> int" where
  "chash_position m k i = uint (hash m (bytes_of (Itoa i @ k)))"

definition add_replica :: "string \<Rightarrow> nat \<Rightarrow> Map \<Rightarrow> Map" where
  "add_replica k i m =
     m\<lparr>keys := keys m @ [chash_position m k i], hasMap := (hasMap m)(chash_position m k i \<mapsto> k)\<rparr>"

definition add_machine :: "string \<Rightarrow> Map \<Rightarrow> Map" where
  "add_machine k m = fold (add_replica k) [0..<nat (replicas m)] m"

definition chash_Add :: "Map \<Rightarrow> string list \<Rightarrow> Map" where
  "chash_Add m ks = (let m' = fold add_machine ks m in m'\<lparr>keys := sort (keys m')\<rparr>)"

definition chash_Get :: "Map \<Rightarrow> string \<Rightarrow> string" where
  "chash_Get m k =
     (if length (keys m) = 0 then ''''
      else
        let h = uint (hash m (bytes_of k));
            idx = sort_Search (length (keys m)) (\<lambda>i. keys m ! i \<ge> h)
        in (case hasMap m (keys m ! (idx mod length (keys m))) of None \<Rightarrow> '''' | Some node \<Rightarrow> node))"

section \<open>The ring\<close>

text \<open>
  The invariant: the slice is sorted and holds exactly the positions the map knows. On top of it,
  the owner of a position: the machine at the first ring position at or after it, wrapping round
  to the smallest one.
\<close>

definition ring_inv :: "Map \<Rightarrow> bool" where
  [invs]: "ring_inv m \<longleftrightarrow> sorted (keys m) \<and> set (keys m) = dom (hasMap m)"

definition successor :: "int \<Rightarrow> int set \<Rightarrow> int" where
  "successor h S = (if \<exists>p \<in> S. h \<le> p then Min {p \<in> S. h \<le> p} else Min S)"

definition positions :: "Map \<Rightarrow> string \<Rightarrow> int set" where
  "positions m k = chash_position m k ` {0..<nat (replicas m)}"

text \<open>What a fold of insertions does to the slice and to the map.\<close>

lemma add_replica_frame [simp]:
  "hash (add_replica k i m) = hash m" "replicas (add_replica k i m) = replicas m"
  "chash_position (add_replica k i m) = chash_position m"
  by (simp_all add: add_replica_def chash_position_def fun_eq_iff)

lemma add_replica_keys:
  "keys (add_replica k i m) = keys m @ [chash_position m k i]"
  "hasMap (add_replica k i m) = (hasMap m)(chash_position m k i \<mapsto> k)"
  by (simp_all add: add_replica_def)

lemma fold_add_replica:
  "hash (fold (add_replica k) is m) = hash m"
  "replicas (fold (add_replica k) is m) = replicas m"
  "keys (fold (add_replica k) is m) = keys m @ map (chash_position m k) is"
  "hasMap (fold (add_replica k) is m) =
     (\<lambda>p. if p \<in> chash_position m k ` set is then Some k else hasMap m p)"
  by (induction "is" arbitrary: m) (auto simp: fun_eq_iff add_replica_keys)

lemma add_machine_simps [simp]:
  "hash (add_machine k m) = hash m" "replicas (add_machine k m) = replicas m"
  "chash_position (add_machine k m) = chash_position m" "positions (add_machine k m) = positions m"
  by (simp_all add: add_machine_def fold_add_replica chash_position_def positions_def fun_eq_iff)

lemma add_machine_keys: "set (keys (add_machine k m)) = set (keys m) \<union> positions m k"
  and add_machine_hasMap:
    "hasMap (add_machine k m) = (\<lambda>p. if p \<in> positions m k then Some k else hasMap m p)"
  by (auto simp: add_machine_def fold_add_replica positions_def)

lemma fold_add_machine_frame [simp]:
  "hash (fold add_machine ks m) = hash m" "replicas (fold add_machine ks m) = replicas m"
  "positions (fold add_machine ks m) = positions m"
  by (induction ks arbitrary: m) simp_all

lemma chash_Add_frame [simp]:
  "hash (chash_Add m ks) = hash m" "replicas (chash_Add m ks) = replicas m"
  "hasMap (chash_Add m ks) = hasMap (fold add_machine ks m)"
  by (simp_all add: chash_Add_def Let_def)

lemma fold_add_machine_keys:
  "set (keys (fold add_machine ks m)) = set (keys m) \<union> (\<Union>k \<in> set ks. positions m k)"
  by (induction ks arbitrary: m) (auto simp: add_machine_keys)

lemma set_keys_Add: "set (keys (chash_Add m ks)) = set (keys m) \<union> (\<Union>k \<in> set ks. positions m k)"
  by (simp add: chash_Add_def Let_def fold_add_machine_keys)

lemma fold_add_machine_old:
  "p \<notin> (\<Union>k \<in> set ks. positions m k) \<Longrightarrow> hasMap (fold add_machine ks m) p = hasMap m p"
  by (induction ks arbitrary: m) (auto simp: add_machine_hasMap)

lemma fold_add_machine_new:
  "p \<in> (\<Union>k \<in> set ks. positions m k) \<Longrightarrow>
     \<exists>k \<in> set ks. hasMap (fold add_machine ks m) p = Some k \<and> p \<in> positions m k"
proof (induction ks arbitrary: m)
  case (Cons k ks)
  show ?case
  proof (cases "p \<in> (\<Union>k \<in> set ks. positions m k)")
    case True
    with Cons.IH [of "add_machine k m"] show ?thesis by auto
  next
    case False
    with Cons.prems fold_add_machine_old [of p "add_machine k m" ks] show ?thesis
      by (simp add: add_machine_hasMap)
  qed
qed simp

lemma ring_inv_New: "ring_inv (chash_New n fn)"
  by (simp add: ring_inv_def chash_New_def)

lemma ring_inv_Add:
  assumes "ring_inv m"
  shows "ring_inv (chash_Add m ks)"
proof -
  have "p \<in> dom (hasMap (fold add_machine ks m)) \<longleftrightarrow>
      p \<in> set (keys m) \<union> (\<Union>k \<in> set ks. positions m k)" for p
    using assms fold_add_machine_old [of p m ks] fold_add_machine_new [of p m ks]
    by (cases "p \<in> (\<Union>k \<in> set ks. positions m k)") (auto simp: ring_inv_def)
  moreover have "sorted (keys (chash_Add m ks))" by (simp add: chash_Add_def Let_def)
  ultimately show ?thesis unfolding ring_inv_def set_keys_Add by auto
qed

text \<open>The binary search finds the successor.\<close>

lemma sorted_successor:
  fixes h :: int
  assumes "sorted xs" "xs \<noteq> []"
  defines "idx \<equiv> sort_Search (length xs) (\<lambda>i. xs ! i \<ge> h)"
  shows "xs ! (idx mod length xs) = successor h (set xs)"
proof -
  have mono: "\<And>x y. x \<le> y \<Longrightarrow> y < length xs \<Longrightarrow> xs ! x \<ge> h \<Longrightarrow> xs ! y \<ge> h"
    using sorted_nth_mono [OF assms(1)] by fastforce
  have S: "idx \<le> length xs" "\<And>x. x < idx \<Longrightarrow> \<not> h \<le> xs ! x" "idx < length xs \<Longrightarrow> h \<le> xs ! idx"
    unfolding idx_def using sort_Search_least [of "length xs" "\<lambda>i. xs ! i \<ge> h"] mono by blast+
  show ?thesis
  proof (cases "idx < length xs")
    case True
    then have h: "h \<le> xs ! idx" using S(3) by blast
    have "xs ! idx \<le> p" if "p \<in> set xs" "h \<le> p" for p
    proof -
      obtain i where i: "i < length xs" "p = xs ! i" using \<open>p \<in> set xs\<close> by (metis in_set_conv_nth)
      then have "idx \<le> i" using S(2) [of i] \<open>h \<le> p\<close> by (meson not_le)
      then show ?thesis using sorted_nth_mono [OF assms(1)] i by simp
    qed
    then have "Min {p \<in> set xs. h \<le> p} = xs ! idx"
      using True h by (intro Min_eqI) auto
    then show ?thesis using True h by (auto simp: successor_def)
  next
    case False
    then have "idx = length xs" using S(1) by simp
    then have none: "\<not> h \<le> p" if "p \<in> set xs" for p
      using that S(2) by (metis in_set_conv_nth)
    have "Min (set xs) = xs ! 0"
      using assms(1,2) by (cases xs) (auto intro: Min_eqI)
    with \<open>idx = length xs\<close> none show ?thesis by (auto simp: successor_def)
  qed
qed

lemma successor_in: "finite S \<Longrightarrow> S \<noteq> {} \<Longrightarrow> successor h S \<in> S"
proof (cases "\<exists>p \<in> S. h \<le> p")
  case True
  assume "finite S"
  then have "Min {p \<in> S. h \<le> p} \<in> {p \<in> S. h \<le> p}" using True by (intro Min_in) auto
  with True show ?thesis by (simp add: successor_def)
qed (simp add: successor_def)

lemma successor_subset:
  assumes "finite T" "S \<subseteq> T" "successor h T \<in> S"
  shows "successor h T = successor h S"
proof (cases "\<exists>p \<in> T. h \<le> p")
  case True
  have fin: "finite S" using assms finite_subset by blast
  have T: "successor h T = Min {p \<in> T. h \<le> p}" using True by (simp add: successor_def)
  have m: "Min {p \<in> T. h \<le> p} \<in> {p \<in> T. h \<le> p}" using assms(1) True by (intro Min_in) auto
  then have h: "h \<le> successor h T" by (simp add: T)
  have "Min {p \<in> S. h \<le> p} = successor h T"
    using fin assms h by (intro Min_eqI) (auto simp: T)
  then show ?thesis using assms(3) h by (auto simp: successor_def)
next
  case False
  have "finite S" using assms finite_subset by blast
  moreover have "successor h T = Min T" using False by (simp add: successor_def)
  ultimately have "Min S = successor h T" using assms by (intro Min_eqI) auto
  with False assms(2) show ?thesis by (auto simp: successor_def)
qed

lemma chash_Get_owner:
  assumes "ring_inv m" "keys m \<noteq> []"
  shows "hasMap m (successor (uint (hash m (bytes_of k))) (set (keys m))) = Some (chash_Get m k)"
proof -
  let ?s = "successor (uint (hash m (bytes_of k))) (set (keys m))"
  have "?s \<in> set (keys m)" using assms(2) by (intro successor_in) auto
  then have "?s \<in> dom (hasMap m)" using assms(1) by (simp add: ring_inv_def)
  then show ?thesis
    using assms sorted_successor [of "keys m" "uint (hash m (bytes_of k))"]
    by (auto simp: chash_Get_def Let_def ring_inv_def)
qed

lemma chash_Get_empty: "keys m = [] \<Longrightarrow> chash_Get m k = ''''"
  by (simp add: chash_Get_def)

section \<open>The interface of a placement\<close>

text \<open>
  What a pool of peers relies on: a key is placed on one of the added machines (or nowhere, the
  empty name), and adding machines moves keys only to the added ones.
\<close>

locale placement =
  fixes ok :: "'m \<Rightarrow> bool"
    and machines :: "'m \<Rightarrow> string set"
    and add :: "'m \<Rightarrow> string list \<Rightarrow> 'm"
    and place :: "'m \<Rightarrow> string \<Rightarrow> string"
  assumes ok_add: "ok m \<Longrightarrow> ok (add m ks)"
    and machines_add: "ok m \<Longrightarrow> machines (add m ks) \<subseteq> machines m \<union> set ks"
    and place_in: "ok m \<Longrightarrow> place m k \<in> insert '''' (machines m)"
    and place_add: "ok m \<Longrightarrow> place (add m ks) k \<in> set ks \<or> place (add m ks) k = place m k"
begin

lemma ok_adds: "ok m \<Longrightarrow> ok (foldl add m kss)"
  by (induction kss arbitrary: m) (auto intro: ok_add)

lemma machines_adds: "ok m \<Longrightarrow> machines (foldl add m kss) \<subseteq> machines m \<union> set (concat kss)"
proof (induction kss arbitrary: m)
  case (Cons ks kss)
  from Cons.IH [OF ok_add [OF Cons.prems], of ks] machines_add [OF Cons.prems, of ks]
  show ?case by fastforce
qed simp

lemma place_adds: "ok m \<Longrightarrow> place (foldl add m kss) k \<in> insert '''' (machines m \<union> set (concat kss))"
  using place_in [OF ok_adds, of m kss k] machines_adds [of m kss] by blast

lemma place_adds_stable:
  "ok m \<Longrightarrow> place (foldl add m kss) k \<in> set (concat kss) \<or> place (foldl add m kss) k = place m k"
proof (induction kss arbitrary: m)
  case (Cons ks kss)
  from Cons.IH [OF ok_add [OF Cons.prems], of ks] place_add [OF Cons.prems, of ks k]
  show ?case by auto
qed simp

end

lemma chash_place_add:
  assumes "ring_inv m"
  shows "chash_Get (chash_Add m ks) k \<in> set ks \<or> chash_Get (chash_Add m ks) k = chash_Get m k"
proof (cases "keys (chash_Add m ks) = []")
  case True
  then have "keys m = []" using set_keys_Add [of m ks] by auto
  with True show ?thesis by (simp add: chash_Get_empty)
next
  case False
  let ?h = "uint (hash m (bytes_of k))" and ?m = "chash_Add m ks"
  let ?s = "successor ?h (set (keys ?m))"
  have own: "hasMap ?m ?s = Some (chash_Get ?m k)"
    using chash_Get_owner [OF ring_inv_Add [OF assms] False] by simp
  show ?thesis
  proof (cases "?s \<in> (\<Union>k \<in> set ks. positions m k)")
    case True
    from fold_add_machine_new [OF this] own show ?thesis by auto
  next
    case old: False
    have "?s \<in> set (keys ?m)" using False by (intro successor_in) auto
    with old have s: "?s \<in> set (keys m)" by (auto simp: set_keys_Add)
    have "set (keys m) \<subseteq> set (keys ?m)" by (simp add: set_keys_Add)
    with s have "?s = successor ?h (set (keys m))" by (intro successor_subset) auto
    moreover have "hasMap ?m ?s = hasMap m ?s" using fold_add_machine_old [OF old] by simp
    moreover have "keys m \<noteq> []" using s by auto
    ultimately show ?thesis using own chash_Get_owner [OF assms, of k] by (metis option.inject)
  qed
qed

interpretation ring: placement ring_inv "\<lambda>m. ran (hasMap m)" chash_Add chash_Get
proof (unfold_locales, goal_cases)
  case (1 m ks)
  then show ?case by (rule ring_inv_Add)
next
  case (2 m ks)
  show ?case
  proof
    fix x assume "x \<in> ran (hasMap (chash_Add m ks))"
    then obtain p where "hasMap (fold add_machine ks m) p = Some x" by (auto simp: ran_def)
    then show "x \<in> ran (hasMap m) \<union> set ks"
      using fold_add_machine_old [of p m ks] fold_add_machine_new [of p m ks]
      by (cases "p \<in> (\<Union>k \<in> set ks. positions m k)") (auto simp: ran_def)
  qed
next
  case (3 m k)
  then show ?case
    using chash_Get_owner [of m k] chash_Get_empty [of m k] by (cases "keys m = []") (auto simp: ran_def)
next
  case (4 m ks k)
  then show ?case by (rule chash_place_add)
qed

section \<open>Properties\<close>

lemma keys_adds_nonempty:
  assumes "0 < replicas m" "concat kss \<noteq> []"
  shows "keys (foldl chash_Add m kss) \<noteq> []"
  using assms
proof (induction kss rule: rev_induct)
  case (snoc ks kss)
  have r: "replicas (foldl chash_Add m kss) = replicas m" for kss
    by (induction kss rule: rev_induct) simp_all
  show ?case
  proof (cases "ks = []")
    case True
    with snoc show ?thesis using set_keys_Add [of "foldl chash_Add m kss" ks] by auto
  next
    case False
    then have "\<exists>k \<in> set ks. positions (foldl chash_Add m kss) k \<noteq> {}"
      using snoc.prems(1) by (cases ks) (auto simp: positions_def r)
    then show ?thesis using set_keys_Add [of "foldl chash_Add m kss" ks] by auto
  qed
qed simp

lemma hasMap_no_collision:
  assumes "\<And>a b. a \<in> set ks \<Longrightarrow> b \<in> set ks \<Longrightarrow> a \<noteq> b \<Longrightarrow> positions m a \<inter> positions m b = {}"
    and "set ks' = set ks"
  shows "hasMap (chash_Add m ks') = hasMap (chash_Add m ks)"
proof
  fix p
  show "hasMap (chash_Add m ks') p = hasMap (chash_Add m ks) p"
  proof (cases "p \<in> (\<Union>k \<in> set ks. positions m k)")
    case True
    from fold_add_machine_new [OF this] obtain a where a: "a \<in> set ks" "p \<in> positions m a"
      "hasMap (fold add_machine ks m) p = Some a" by blast
    from fold_add_machine_new [of p m ks'] True assms(2) obtain b where b: "b \<in> set ks"
      "p \<in> positions m b" "hasMap (fold add_machine ks' m) p = Some b" by auto
    from assms(1) [of a b] a b have "a = b" by blast
    with a b show ?thesis by simp
  next
    case False
    then show ?thesis using fold_add_machine_old [of p m] assms(2) by simp
  qed
qed

text \<open>
  C8. On a ring built by any calls of \<open>Add\<close>, \<open>Get\<close> answers the owner of the key's successor: the
  machine at the first ring position at or after the key's hash, and the smallest position when
  there is none. The binary search and the wrap-around by the modulus compute exactly this.
\<close>

theorem chash_Get_is_successor:
  assumes "m = foldl chash_Add (chash_New n fn) kss" "keys m \<noteq> []"
  shows "hasMap m (successor (uint (hash m (bytes_of k))) (set (keys m))) = Some (chash_Get m k)"
  using assms ring.ok_adds [OF ring_inv_New] by (auto intro: chash_Get_owner)

definition decimal_hash :: "bytes \<Rightarrow> u32" where
  "decimal_hash bs = foldl (\<lambda>a b. 10 * a + ucast b - 48) 0 bs"

theorem chash_Get_is_successor_witness:
  "hasMap (chash_Add (chash_New 1 (Some decimal_hash)) [''6'', ''4'', ''2''])
     (successor 3 {2, 4, 6}) = Some (chash_Get (chash_Add (chash_New 1 (Some decimal_hash)) [''6'', ''4'', ''2'']) ''3'')"
proof -
  let ?m = "chash_Add (chash_New 1 (Some decimal_hash)) [''6'', ''4'', ''2'']"
  have k: "keys ?m = [2, 4, 6]"
    by (simp add: chash_Add_def add_machine_def add_replica_def chash_position_def chash_New_def
        decimal_hash_def bytes_of_def Itoa.simps digit_def Let_def)
  have "uint (hash ?m (bytes_of ''3'')) = 3"
    by (simp add: chash_New_def decimal_hash_def bytes_of_def)
  with chash_Get_is_successor [of ?m 1 "Some decimal_hash" "[[''6'', ''4'', ''2'']]" "''3''"] k
  show ?thesis by simp
qed

text \<open>
  C19. Adding machines to a ring moves keys only to the added machines: after \<open>Add\<close> a key is on
  one of the new machines or where it was.
\<close>

theorem chash_Add_moves_only_to_added:
  "chash_Get (chash_Add (foldl chash_Add (chash_New n fn) kss) ks) k \<in> set ks \<or>
   chash_Get (chash_Add (foldl chash_Add (chash_New n fn) kss) ks) k =
     chash_Get (foldl chash_Add (chash_New n fn) kss) k"
  by (rule ring.place_add [OF ring.ok_adds [OF ring_inv_New]])

text \<open>
  Every key is placed on a machine that was added, once at least one machine was added to a
  ring with a positive number of virtual nodes.
\<close>

lemma chash_Get_added_machine:
  assumes "0 < n" "concat kss \<noteq> []"
  shows "chash_Get (foldl chash_Add (chash_New n fn) kss) k \<in> set (concat kss)"
proof -
  let ?m = "foldl chash_Add (chash_New n fn) kss"
  have ne: "keys ?m \<noteq> []" by (rule keys_adds_nonempty) (use assms in \<open>simp_all add: chash_New_def\<close>)
  have "Some (chash_Get ?m k) \<in> range (hasMap ?m)"
    using chash_Get_owner [OF ring.ok_adds [OF ring_inv_New] ne, of k] by (metis rangeI)
  then have "chash_Get ?m k \<in> ran (hasMap ?m)" by (auto simp: ran_def image_iff)
  then show ?thesis using ring.machines_adds [OF ring_inv_New, of n fn kss] by (auto simp: chash_New_def)
qed

lemma chash_Add_order:
  assumes "\<And>a b. a \<in> set ks \<Longrightarrow> b \<in> set ks \<Longrightarrow> a \<noteq> b \<Longrightarrow>
      positions (chash_New n fn) a \<inter> positions (chash_New n fn) b = {}"
    and "set ks' = set ks"
  shows "chash_Get (chash_Add (chash_New n fn) ks') k = chash_Get (chash_Add (chash_New n fn) ks) k"
proof -
  let ?m = "chash_New n fn"
  have keys: "set (keys (chash_Add ?m ks')) = set (keys (chash_Add ?m ks))"
    by (simp add: set_keys_Add assms(2))
  note own = chash_Get_owner [OF ring_inv_Add [OF ring_inv_New], of n fn _ k]
  show ?thesis
  proof (cases "keys (chash_Add ?m ks) = []")
    case True
    with keys show ?thesis by (simp add: chash_Get_empty)
  next
    case False
    with keys have "keys (chash_Add ?m ks') \<noteq> []" by auto
    with own [of ks'] own [OF False] keys hasMap_no_collision [OF assms(1) assms(2)]
    show ?thesis by (metis chash_Add_frame(1) option.inject)
  qed
qed

text \<open>
  C38. The order in which machines are passed to \<open>Add\<close> does not matter, and neither do
  repetitions, as long as no two machines share a ring position.
\<close>

theorem chash_order_independent:
  assumes "\<And>a b. a \<in> set ks \<Longrightarrow> b \<in> set ks \<Longrightarrow> a \<noteq> b \<Longrightarrow>
      positions (chash_New n fn) a \<inter> positions (chash_New n fn) b = {}"
    and "set ks' = set ks"
  shows "chash_Get (chash_Add (chash_New n fn) ks') k = chash_Get (chash_Add (chash_New n fn) ks) k"
  by (rule chash_Add_order [OF assms])

theorem chash_order_independent_witness:
  "chash_Get (chash_Add (chash_New 1 (Some decimal_hash)) [''2'', ''4'']) ''3'' =
   chash_Get (chash_Add (chash_New 1 (Some decimal_hash)) [''4'', ''2'']) ''3''"
  by (rule chash_order_independent)
    (auto simp: positions_def chash_position_def chash_New_def decimal_hash_def bytes_of_def
      Itoa.simps digit_def)

end
