(* ===== verification/HttpPool.thy ===== *)
theory HttpPool
  imports GeeGroup ConsistentHash
begin

text \<open>
  \<^verbatim>\<open>http.go\<close>: the HTTP side of geecache. A node is an \<open>HTTPPool\<close>: as a server it answers
  \<open>/_geecache/<group>/<key>\<close>, as a peer picker it maps a key to the node that owns it, and its
  \<open>httpGetter\<close> is the client of another node. The network (\<open>http.Get\<close>) and the protobuf library
  (\<open>proto.Marshal\<close>, \<open>proto.Unmarshal\<close>) are parameters.
\<close>

section \<open>The pool\<close>

definition defaultBasePath :: string where
  "defaultBasePath = ''/_geecache/''"

definition defaultReplicas :: int where
  "defaultReplicas = 50"

record httpGetter =
  baseURL :: string

record HTTPPool =
  self :: string
  basePath :: string
  pool_peers :: "Map option"
  httpGetters :: "string \<Rightarrow> httpGetter option"

definition NewHTTPPool :: "string \<Rightarrow> HTTPPool" where
  "NewHTTPPool s = \<lparr>self = s, basePath = defaultBasePath, pool_peers = None, httpGetters = Map.empty\<rparr>"

definition pool_Set :: "HTTPPool \<Rightarrow> string list \<Rightarrow> HTTPPool" where
  "pool_Set p ps =
     p\<lparr>pool_peers := Some (chash_Add (chash_New defaultReplicas None) ps),
       httpGetters := fold (\<lambda>peer m. m(peer \<mapsto> \<lparr>baseURL = peer @ basePath p\<rparr>)) ps Map.empty\<rparr>"

definition PickPeer :: "HTTPPool \<Rightarrow> string \<Rightarrow> (httpGetter option \<times> bool) exec" where
  "PickPeer p k =
     (case pool_peers p of
        None \<Rightarrow> Panic ''nil pointer dereference''
      | Some m \<Rightarrow>
          (let peer = chash_Get m k in
           if peer \<noteq> '''' \<and> peer \<noteq> self p then Ret (httpGetters p peer, True) else Ret (None, False)))"

section \<open>The server\<close>

text \<open>
  What a handler has written when it returns: the status, the header the code sets itself, the
  body. \<open>http.Error\<close> writes the message and a newline.
\<close>

record http_response =
  StatusCode :: nat
  Header :: "(string \<times> string) list"
  Body :: bytes

definition http_Error :: "string \<Rightarrow> nat \<Rightarrow> http_response" where
  "http_Error msg code = \<lparr>StatusCode = code, Header = [], Body = bytes_of (msg @ ''\<newline>'')\<rparr>"

text \<open>
  \<open>path\<close> is \<open>r.URL.Path\<close>, the decoded path of the request; \<open>groups\<close> is the package's table of groups,
  whose entry the call of \<open>Get\<close> updates.
\<close>

definition pool_ServeHTTP ::
  "(Response \<Rightarrow> error + bytes) \<Rightarrow> HTTPPool \<Rightarrow> string \<Rightarrow> (string \<Rightarrow> 'w Group option) \<Rightarrow> 'w \<Rightarrow>
   (http_response \<times> (string \<Rightarrow> 'w Group option) \<times> 'w) exec" where
  "pool_ServeHTTP Marshal p path groups w =
     (if \<not> HasPrefix path (basePath p) then Panic (''HTTPPool serving unexpected path: '' @ path)
      else
        (let parts = SplitN (drop (length (basePath p)) path) ''/'' 2 in
         if length parts \<noteq> 2 then Ret (http_Error ''bad request'' 400, groups, w)
         else
           (let groupName = parts ! 0; k = parts ! 1 in
            case GetGroup groupName groups of
              None \<Rightarrow> Ret (http_Error (''no such group: '' @ groupName) 404, groups, w)
            | Some g \<Rightarrow>
                bind_exec (group_Get g k w) (\<lambda>(g', r, w').
                  let groups' = groups(groupName \<mapsto> g') in
                  case r of
                    Inl e \<Rightarrow> Ret (http_Error (Error e) 500, groups', w')
                  | Inr view \<Rightarrow>
                      (case Marshal \<lparr>Value = Byteslice view\<rparr> of
                         Inl e \<Rightarrow> Ret (http_Error (Error e) 500, groups', w')
                       | Inr body \<Rightarrow>
                           Ret (\<lparr>StatusCode = 200, Header = [(''Count-Type'', ''application/octet-stream'')],
                                 Body = body\<rparr>, groups', w'))))))"

section \<open>The client\<close>

text \<open>
  What \<open>http.Get\<close> returns: the status code, the status line and the body, whose reading may fail.
\<close>

record http_result =
  res_StatusCode :: nat
  res_Status :: string
  res_Body :: "error + bytes"

type_synonym 'w http_get = "string \<Rightarrow> 'w \<Rightarrow> ((error + http_result) \<times> 'w) exec"

definition request_path :: "Request \<Rightarrow> string" where
  "request_path q = QueryEscape (GetGroup_field (Some q)) @ ''/'' @ QueryEscape (GetKey (Some q))"

definition httpGetter_Get ::
  "'w http_get \<Rightarrow> (bytes \<Rightarrow> Response \<Rightarrow> error option \<times> Response) \<Rightarrow> httpGetter \<Rightarrow> 'w PeerGetter" where
  "httpGetter_Get Get Unmarshal h q out w =
     bind_exec (Get (baseURL h @ request_path q) w) (\<lambda>(r, w').
       Ret (case r of
              Inl e \<Rightarrow> (Some e, out)
            | Inr res \<Rightarrow>
                if res_StatusCode res \<noteq> 200 then (Some (Errorf (''server returned: '' @ res_Status res)), out)
                else
                  (case res_Body res of
                     Inl e \<Rightarrow> (Some (Errorf (''reading response: '' @ Error e)), out)
                   | Inr bs \<Rightarrow>
                       (case Unmarshal bs out of
                          (Some e, out') \<Rightarrow> (Some (Errorf (''decoding response body: '' @ Error e)), out')
                        | (None, out') \<Rightarrow> (None, out'))),
            w'))"

text \<open>The pool as the \<open>PerrPicker\<close> of a group.\<close>

definition pool_picker ::
  "'w http_get \<Rightarrow> (bytes \<Rightarrow> Response \<Rightarrow> error option \<times> Response) \<Rightarrow> HTTPPool \<Rightarrow> 'w PerrPicker" where
  "pool_picker Get Unmarshal p k =
     bind_exec (PickPeer p k) (\<lambda>(h, ok). Ret (map_option (httpGetter_Get Get Unmarshal) h, ok))"

section \<open>Lemmas\<close>

lemma fold_getters:
  "fold (\<lambda>peer m. m(peer \<mapsto> \<lparr>baseURL = peer @ bp\<rparr>)) ps m x =
     (if x \<in> set ps then Some \<lparr>baseURL = x @ bp\<rparr> else m x)"
  by (induction ps arbitrary: m) auto

text \<open>The node a pool's ring places a key on.\<close>

definition owner :: "string list \<Rightarrow> string \<Rightarrow> string" where
  "owner ps k = chash_Get (chash_Add (chash_New defaultReplicas None) ps) k"

lemma owner_in: "owner ps k \<in> insert '''' (set ps)"
proof -
  let ?m = "chash_New defaultReplicas None"
  have "owner ps k \<in> insert '''' (ran (hasMap (chash_Add ?m ps)))"
    unfolding owner_def by (rule ring.place_in [OF ring.ok_add [OF ring_inv_New]])
  with ring.machines_add [OF ring_inv_New, of defaultReplicas None ps] show ?thesis
    by (auto simp: chash_New_def)
qed

lemma PickPeer_Set:
  "PickPeer (pool_Set p ps) k =
     (if owner ps k \<noteq> '''' \<and> owner ps k \<noteq> self p
      then Ret (Some \<lparr>baseURL = owner ps k @ basePath p\<rparr>, True) else Ret (None, False))"
  using owner_in [of ps k] by (auto simp: PickPeer_def pool_Set_def owner_def fold_getters Let_def)

text \<open>The path of a request, decoded by the server and split.\<close>

lemma unescape_base: "unescape_path (defaultBasePath @ s) = map_option ((@) defaultBasePath) (unescape_path s)"
  by (simp add: defaultBasePath_def option.map_comp comp_def) (rule option.map_cong0, simp)

lemma unescape_request_path:
  assumes "CHR '' '' \<notin> set n"
  shows "unescape_path (defaultBasePath @ request_path \<lparr>req_Group = n, req_Key = k\<rparr>) =
    Some (defaultBasePath @ n @ ''/'' @ map plus_for_space k)"
  using assms unfolding unescape_base request_path_def GetGroup_field_def GetKey_def
  by (simp add: unescape_QueryEscape_append unescape_QueryEscape map_plus_for_space_id)

lemma SplitN_path: "CHR ''/'' \<notin> set n \<Longrightarrow> SplitN (n @ CHR ''/'' # k) ''/'' 2 = [n, k]"
  by (simp add: numeral_2_eq_2 Cut_append)

definition response_of :: "(Response \<Rightarrow> error + bytes) \<Rightarrow> error + ByteView \<Rightarrow> http_response" where
  "response_of Marshal r =
     (case r of
        Inl e \<Rightarrow> http_Error (Error e) 500
      | Inr v \<Rightarrow>
          (case Marshal \<lparr>Value = b v\<rparr> of
             Inl e \<Rightarrow> http_Error (Error e) 500
           | Inr body \<Rightarrow> \<lparr>StatusCode = 200, Header = [(''Count-Type'', ''application/octet-stream'')],
                          Body = body\<rparr>))"

lemma ServeHTTP_path:
  assumes "basePath p = defaultBasePath" "CHR ''/'' \<notin> set n" "groups n = Some g"
  shows "pool_ServeHTTP Marshal p (defaultBasePath @ n @ ''/'' @ k) groups w =
    bind_exec (group_Get g k w) (\<lambda>(g', r, w'). Ret (response_of Marshal r, groups(n \<mapsto> g'), w'))"
  using assms
  by (cases "group_Get g k w")
    (auto simp: pool_ServeHTTP_def SplitN_path GetGroup_def Let_def response_of_def Byteslice_def split: sum.splits)

section \<open>A cluster\<close>

text \<open>
  What is assumed of the libraries. \<open>proto_ok\<close>: unmarshalling marshalled bytes into any message
  gives the message back. \<open>delivers\<close>: an HTTP request to a peer's address comes back with an error,
  or with the response that the handler of some node gives for the decoded path; that node has
  the group, and its group serves the same source. The body may fail to arrive.
\<close>

definition proto_ok ::
  "(Response \<Rightarrow> error + bytes) \<Rightarrow> (bytes \<Rightarrow> Response \<Rightarrow> error option \<times> Response) \<Rightarrow> bool" where
  "proto_ok Marshal Unmarshal \<longleftrightarrow> (\<forall>m bs out. Marshal m = Inr bs \<longrightarrow> Unmarshal bs out = (None, m))"

definition delivers ::
  "(Response \<Rightarrow> error + bytes) \<Rightarrow> string set \<Rightarrow> (string \<Rightarrow> error + bytes) \<Rightarrow> string \<Rightarrow> 'w http_get \<Rightarrow> string \<Rightarrow> bool" where
  "delivers Marshal K src n Get peer \<longleftrightarrow>
     (\<forall>rest w. \<exists>r w'. Get (peer @ defaultBasePath @ rest) w = Ret (r, w') \<and>
        (\<forall>res. r = Inr res \<longrightarrow>
          (\<exists>path p groups g groups' w1 w2 resp.
             unescape_path (defaultBasePath @ rest) = Some path \<and> basePath p = defaultBasePath \<and>
             groups n = Some g \<and> serves K src g \<and> group_ok src g \<and>
             pool_ServeHTTP Marshal p path groups (w1 :: 'w) = Ret (resp, groups', w2) \<and>
             res_StatusCode res = StatusCode resp \<and>
             res_Body res \<in> insert (Inr (Body resp)) (range Inl))))"

lemma map_sum_Inr: "map_sum id ByteView x = Inr v \<Longrightarrow> (x = Inr (b v) \<Longrightarrow> P) \<Longrightarrow> P"
  by (cases x) auto

lemma httpGetter_honest:
  assumes d: "delivers Marshal K src n Get peer" and pr: "proto_ok Marshal Unmarshal"
    and n: "CHR ''/'' \<notin> set n" "CHR '' '' \<notin> set n" and k: "k \<in> K" "CHR '' '' \<notin> set k"
  shows "honest_peer src n k (httpGetter_Get Get Unmarshal \<lparr>baseURL = peer @ defaultBasePath\<rparr>)"
  unfolding honest_peer_def
proof
  fix w
  let ?q = "\<lparr>req_Group = n, req_Key = k\<rparr>"
  obtain r w' where r: "Get (peer @ defaultBasePath @ request_path ?q) w = Ret (r, w')"
    and ok: "\<forall>res. r = Inr res \<longrightarrow> (\<exists>path p groups g groups' w1 w2 resp.
             unescape_path (defaultBasePath @ request_path ?q) = Some path \<and> basePath p = defaultBasePath \<and>
             groups n = Some g \<and> serves K src g \<and> group_ok src g \<and>
             pool_ServeHTTP Marshal p path groups (w1 :: 'a) = Ret (resp, groups', w2) \<and>
             res_StatusCode res = StatusCode resp \<and> res_Body res \<in> insert (Inr (Body resp)) (range Inl))"
    using d unfolding delivers_def by blast
  show "\<exists>e res w'. httpGetter_Get Get Unmarshal \<lparr>baseURL = peer @ defaultBasePath\<rparr> ?q \<lparr>Value = []\<rparr> w =
      Ret ((e, res), w') \<and> (e = None \<longrightarrow> src k = Inr (Value res))"
  proof (cases r)
    case (Inl e)
    with r show ?thesis by (simp add: httpGetter_Get_def)
  next
    case (Inr res)
    with ok obtain p groups g groups' w1 w2 resp where s: "basePath p = defaultBasePath" "groups n = Some g"
        "serves K src g" "group_ok src g"
        "pool_ServeHTTP Marshal p (defaultBasePath @ n @ ''/'' @ k) groups (w1 :: 'a) = Ret (resp, groups', w2)"
        "res_StatusCode res = StatusCode resp" "res_Body res \<in> insert (Inr (Body resp)) (range Inl)"
      using unescape_request_path [OF n(2), of k] k(2) by (auto simp: map_plus_for_space_id)
    from group_Get_serves [OF s(3,4), of k w1] k(1)
    have "resp = response_of Marshal (answer src k)"
      using s(5) [unfolded ServeHTTP_path [of p n groups g, OF s(1) n(1) s(2)]] by auto
    with s(6,7) Inr r pr show ?thesis
      by (auto simp: httpGetter_Get_def response_of_def answer_def http_Error_def proto_ok_def
          split: sum.splits if_splits elim!: map_sum_Inr)
  qed
qed

text \<open>A node whose pool reaches the other nodes.\<close>

lemma cluster_group_serves:
  assumes "NewGroup n bytes (Some f) groups = Ret (g0, groups')"
    and "RegisterPeers g0 (Some (pool_picker Get Unmarshal (pool_Set (NewHTTPPool s) ps))) = Ret g"
    and "proto_ok Marshal Unmarshal" "\<forall>peer \<in> set ps. peer \<noteq> s \<longrightarrow> delivers Marshal K src n Get peer"
    and "\<forall>k \<in> K. \<forall>w. \<exists>w'. f k w = Ret (src k, w')"
    and "CHR ''/'' \<notin> set n" "CHR '' '' \<notin> set n" "\<forall>k \<in> K. CHR '' '' \<notin> set k"
  shows "serves K src g"
proof -
  have g: "name g = n" "getter g = f" "peers g = Some (pool_picker Get Unmarshal (pool_Set (NewHTTPPool s) ps))"
    using assms(1,2) by (auto simp: NewGroup_def RegisterPeers_def Let_def split: if_splits)
  have "honest_peer src n k (httpGetter_Get Get Unmarshal \<lparr>baseURL = owner ps k @ defaultBasePath\<rparr>)"
    if "k \<in> K" "owner ps k \<noteq> ''''" "owner ps k \<noteq> s" for k
    using that owner_in [of ps k] assms(4,8) by (intro httpGetter_honest [OF _ assms(3,6,7)]) auto
  then show ?thesis
    using assms(5) g by (auto simp: serves_def pool_picker_def PickPeer_Set NewHTTPPool_def)
qed

text \<open>
  C1. The cluster serves its source: a node with its own pool of peers, each reached over HTTP,
  answers every \<open>Get\<close> with what the source has for the key, whichever node owns the key,
  whether the transport fails or not and whatever has been evicted, for the keys that contain no
  space and a group whose name contains neither a slash nor a space.
\<close>

theorem cluster_serves_source:
  assumes "NewGroup n bytes (Some f) groups = Ret (g0, groups')"
    and "RegisterPeers g0 (Some (pool_picker Get Unmarshal (pool_Set (NewHTTPPool s) ps))) = Ret g"
    and "0 \<le> sint bytes" "proto_ok Marshal Unmarshal"
    and "\<forall>peer \<in> set ps. peer \<noteq> s \<longrightarrow> delivers Marshal K src n Get peer"
    and "\<forall>k \<in> K. \<forall>w. \<exists>w'. f k w = Ret (src k, w')"
    and "CHR ''/'' \<notin> set n" "CHR '' '' \<notin> set n" "\<forall>k \<in> K. CHR '' '' \<notin> set k" "set ks \<subseteq> insert '''' K"
  shows "\<exists>g' w'. group_Gets g ks w = Ret (g', map (answer src) ks, w')"
  using group_Gets_serves [OF cluster_group_serves [OF assms(1,2,4-9)] new_group_ok [OF assms(1-3)] assms(10)] by blast

text \<open>A transport between nodes that reaches the handler of a node with the groups \<open>G\<close>.\<close>

definition loopback :: "string \<Rightarrow> (string \<Rightarrow> 'w Group option) \<Rightarrow> 'w http_get" where
  "loopback addr G url w = Ret (case unescape_path (drop (length addr) url) of
       None \<Rightarrow> Inl (Errorf ''invalid URL escape'')
     | Some path \<Rightarrow>
         (case pool_ServeHTTP (\<lambda>m. Inr (Value m)) (NewHTTPPool addr) path G w of
            Ret (resp, G', w') \<Rightarrow> Inr \<lparr>res_StatusCode = StatusCode resp, res_Status = [], res_Body = Inr (Body resp)\<rparr>
          | _ \<Rightarrow> Inl EOF), w)"

lemma loopback_delivers:
  assumes "G n = Some g" "serves K src g" "group_ok src g" "length peer = length addr"
  shows "delivers (\<lambda>m. Inr (Value m)) K src n (loopback addr G) peer"
  unfolding delivers_def
proof (intro allI)
  fix rest and w
  have b: "basePath (NewHTTPPool addr) = defaultBasePath" by (simp add: NewHTTPPool_def)
  show "\<exists>r w'. loopback addr G (peer @ defaultBasePath @ rest) w = Ret (r, w') \<and>
        (\<forall>res. r = Inr res \<longrightarrow>
          (\<exists>path p groups g groups' w1 w2 resp.
             unescape_path (defaultBasePath @ rest) = Some path \<and> basePath p = defaultBasePath \<and>
             groups n = Some g \<and> serves K src g \<and> group_ok src g \<and>
             pool_ServeHTTP (\<lambda>m. Inr (Value m)) p path groups (w1 :: 'a) = Ret (resp, groups', w2) \<and>
             res_StatusCode res = StatusCode resp \<and>
             res_Body res \<in> insert (Inr (Body resp)) (range Inl)))"
  proof (cases "unescape_path (defaultBasePath @ rest)")
    case (Some path)
    show ?thesis
    proof (cases "pool_ServeHTTP (\<lambda>m. Inr (Value m)) (NewHTTPPool addr) path G w")
      case (Ret x)
      obtain resp G' w' where "x = (resp, G', w')" by (cases x)
      with Ret Some assms b show ?thesis unfolding loopback_def by fastforce
    qed (use Some assms(4) in \<open>simp_all add: loopback_def\<close>)
  qed (use assms(4) in \<open>simp add: loopback_def\<close>)
qed

theorem cluster_serves_source_witness:
  "\<exists>g0 G g g' w'. NewGroup ''scores'' 2048 (Some (\<lambda>k w. Ret (db k, w + 1))) Map.empty = Ret (g0, G) \<and>
     RegisterPeers g0 (Some (pool_picker (loopback ''http://localhost:8002'' G) (\<lambda>bs m. (None, \<lparr>Value = bs\<rparr>))
       (pool_Set (NewHTTPPool ''http://localhost:8001'') [''http://localhost:8001'', ''http://localhost:8002'']))) = Ret g \<and>
     group_Gets g [''Tom'', ''kkk'', ''Tom''] (0 :: nat) =
       Ret (g', [Inr (ByteView (bytes_of ''630'')), Inl (Errorf ''kkk not exist''),
         Inr (ByteView (bytes_of ''630''))], w')"
proof -
  define f :: "nat Getter" where "f = (\<lambda>k w. Ret (db k, w + 1))"
  let ?K = "{''Tom'', ''kkk''}"
  obtain g0 G where g0: "NewGroup ''scores'' 2048 (Some f) Map.empty = Ret (g0, G)"
    by (auto simp: NewGroup_def Let_def)
  let ?pick = "pool_picker (loopback ''http://localhost:8002'' G) (\<lambda>bs m. (None, \<lparr>Value = bs\<rparr>))
    (pool_Set (NewHTTPPool ''http://localhost:8001'') [''http://localhost:8001'', ''http://localhost:8002''])"
  have 0: "RegisterPeers g0 None = Ret g0" and G: "G ''scores'' = Some g0" and p: "peers g0 = None"
    using g0 by (auto simp: NewGroup_def RegisterPeers_def Let_def)
  then obtain g where g: "RegisterPeers g0 (Some ?pick) = Ret g" by (auto simp: RegisterPeers_def)
  have "serves ?K db g0" using g0 by (auto simp: NewGroup_def serves_def f_def Let_def)
  from loopback_delivers [of G "''scores''" g0 ?K db "''http://localhost:8002''", OF G this] new_group_ok [OF g0 0, of db]
  have "\<forall>peer \<in> set [''http://localhost:8001'', ''http://localhost:8002'']. peer \<noteq> ''http://localhost:8001'' \<longrightarrow>
      delivers (\<lambda>m. Inr (Value m)) ?K db ''scores'' (loopback ''http://localhost:8002'' G) peer" by simp
  from cluster_serves_source [OF g0 g _ _ this, of "[''Tom'', ''kkk'', ''Tom'']" 0] g0 g show ?thesis
    by (auto simp: f_def answer_def db_def proto_ok_def)
qed

text \<open>
  C24. All nodes agree on one owner per key: if no two peers share a ring position, then for every
  key some peer of the list is its owner, and every node that was given the same peers, in any
  order and with any repetitions, sends the key to that owner, while the owner itself loads it.
\<close>

theorem pool_nodes_agree_on_owner:
  assumes "\<And>x y. x \<in> set ps \<Longrightarrow> y \<in> set ps \<Longrightarrow> x \<noteq> y \<Longrightarrow>
      positions (chash_New defaultReplicas None) x \<inter> positions (chash_New defaultReplicas None) y = {}"
    and "ps \<noteq> []" "'''' \<notin> set ps"
  shows "\<exists>own \<in> set ps. \<forall>s ps'. set ps' = set ps \<longrightarrow>
    PickPeer (pool_Set (NewHTTPPool s) ps') k =
      (if s = own then Ret (None, False) else Ret (Some \<lparr>baseURL = own @ defaultBasePath\<rparr>, True))"
proof -
  have same: "owner ps' k = owner ps k" if "set ps' = set ps" for ps'
    unfolding owner_def using that by (intro chash_Add_order assms(1)) auto
  have "keys (foldl chash_Add (chash_New defaultReplicas None) [ps]) \<noteq> []"
    by (rule keys_adds_nonempty) (use assms in \<open>simp_all add: chash_New_def defaultReplicas_def\<close>)
  then have "Some (owner ps k) \<in> range (hasMap (chash_Add (chash_New defaultReplicas None) ps))"
    using chash_Get_owner [OF ring_inv_Add [OF ring_inv_New], of defaultReplicas None ps k]
    unfolding owner_def by (metis foldl_Cons foldl_Nil rangeI)
  then have "owner ps k \<in> ran (hasMap (chash_Add (chash_New defaultReplicas None) ps))"
    by (auto simp: ran_def image_iff)
  then have "owner ps k \<in> set ps"
    using ring.machines_add [OF ring_inv_New, of defaultReplicas None ps] by (auto simp: chash_New_def)
  moreover from this have "owner ps k \<noteq> ''''" using assms(3) by auto
  then have "PickPeer (pool_Set (NewHTTPPool s) ps') k =
      (if s = owner ps k then Ret (None, False) else Ret (Some \<lparr>baseURL = owner ps k @ defaultBasePath\<rparr>, True))"
    if "set ps' = set ps" for s ps'
    unfolding PickPeer_Set same [OF that] by (simp add: NewHTTPPool_def)
  ultimately show ?thesis by blast
qed

theorem pool_nodes_agree_on_owner_witness:
  "PickPeer (pool_Set (NewHTTPPool ''http://localhost:8002'') [''http://localhost:8001'', ''http://localhost:8001'']) ''Tom'' =
     Ret (Some \<lparr>baseURL = ''http://localhost:8001/_geecache/''\<rparr>, True)"
  using pool_nodes_agree_on_owner [of "[''http://localhost:8001'']" "''Tom''"]
  by (auto simp: defaultBasePath_def)

text \<open>
  C37. What a peer is asked over HTTP: the URL that \<open>httpGetter.Get\<close> builds for a group and a key is
  decoded and split by \<open>ServeHTTP\<close> into that group and the key with every space replaced by
  \<open>+\<close>, and the response is the result of the group's \<open>Get\<close> for it (so a key with a space is
  answered with the value of another key).
\<close>

theorem http_request_key:
  assumes "basePath p = defaultBasePath" "CHR ''/'' \<notin> set n" "CHR '' '' \<notin> set n" "groups n = Some g"
  shows "\<exists>path. unescape_path (defaultBasePath @ request_path \<lparr>req_Group = n, req_Key = k\<rparr>) = Some path \<and>
    pool_ServeHTTP Marshal p path groups w =
      bind_exec (group_Get g (map plus_for_space k) w)
        (\<lambda>(g', r, w'). Ret (response_of Marshal r, groups(n \<mapsto> g'), w'))"
  using unescape_request_path [OF assms(3)] ServeHTTP_path [of p n groups g, OF assms(1,2,4)] by simp

theorem http_request_key_witness:
  "\<exists>path. unescape_path (defaultBasePath @ request_path \<lparr>req_Group = ''scores'', req_Key = ''a b''\<rparr>) = Some path \<and>
    (\<forall>g (w :: nat). pool_ServeHTTP (\<lambda>m. Inr (Value m)) (NewHTTPPool ''x'') path [''scores'' \<mapsto> g] w =
      bind_exec (group_Get g ''a+b'' w)
        (\<lambda>(g', r, w'). Ret (response_of (\<lambda>m. Inr (Value m)) r, [''scores'' \<mapsto> g'], w')))"
proof -
  have path: "unescape_path (defaultBasePath @ request_path \<lparr>req_Group = ''scores'', req_Key = ''a b''\<rparr>) =
      Some (defaultBasePath @ ''scores/a+b'')"
    by (subst unescape_request_path) (simp_all add: plus_for_space_def)
  have "pool_ServeHTTP (\<lambda>m. Inr (Value m)) (NewHTTPPool ''x'') (defaultBasePath @ ''scores/a+b'') [''scores'' \<mapsto> g] w =
      bind_exec (group_Get g ''a+b'' w)
        (\<lambda>(g', r, w'). Ret (response_of (\<lambda>m. Inr (Value m)) r, [''scores'' \<mapsto> g'], w'))" for g and w :: nat
    using http_request_key [of "NewHTTPPool ''x''" "''scores''" "[''scores'' \<mapsto> g]" g "''a b''"] path
    by (simp add: NewHTTPPool_def plus_for_space_def)
  with path show ?thesis by blast
qed

end
