(* ===== verification/GeeMain.thy ===== *)
theory GeeMain
  imports HttpPool
begin

text \<open>
  \<^verbatim>\<open>geecache/main/main.go\<close>: a node of the example cluster, with its group of scores, its cache
  server and its API server. The order in which \<open>main\<close> collects the addresses from a map, the
  transport between the nodes and the protobuf library are parameters.
\<close>

section \<open>A node\<close>

definition scores :: "string \<Rightarrow> string option" where
  "scores = [''Tom'' \<mapsto> ''630'', ''Jack'' \<mapsto> ''589'', ''Sam'' \<mapsto> ''567'']"

definition search_scores :: "string \<Rightarrow> error + bytes" where
  "search_scores k =
     (case scores k of Some v \<Rightarrow> Inr (bytes_of v) | None \<Rightarrow> Inl (Errorf (k @ '' not exist'')))"

text \<open>The group with a budget of \<open>2<<10\<close> bytes; its getter searches the map.\<close>

definition createGroup :: "(string \<Rightarrow> 'w Group option) \<Rightarrow> ('w Group \<times> (string \<Rightarrow> 'w Group option)) exec" where
  "createGroup groups = NewGroup ''scores'' (push_bit 10 2) (Some (\<lambda>k w. Ret (search_scores k, w))) groups"

text \<open>\<open>addr[7:]\<close>\<close>

definition slice7 :: "string \<Rightarrow> string exec" where
  "slice7 addr = (if length addr < 7 then Panic ''slice bounds out of range'' else Ret (drop 7 addr))"

text \<open>
  \<open>startCacheServer\<close> up to \<open>ListenAndServe\<close>: the group with its peers, the pool that serves, and the
  address it listens on.
\<close>

definition startCacheServer ::
  "'w http_get \<Rightarrow> (bytes \<Rightarrow> Response \<Rightarrow> error option \<times> Response) \<Rightarrow> string \<Rightarrow> string list \<Rightarrow> 'w Group \<Rightarrow>
   ('w Group \<times> HTTPPool \<times> string) exec" where
  "startCacheServer Get Unmarshal addr addrs gee =
     (let peers = pool_Set (NewHTTPPool addr) addrs in
      bind_exec (RegisterPeers gee (Some (pool_picker Get Unmarshal peers))) (\<lambda>gee.
        bind_exec (slice7 addr) (\<lambda>a. Ret (gee, peers, a))))"

text \<open>The handler of \<open>/api\<close>; \<open>k\<close> is the parameter \<open>key\<close> of the query.\<close>

definition api_handler :: "string \<Rightarrow> 'w Group \<Rightarrow> 'w \<Rightarrow> (http_response \<times> 'w Group \<times> 'w) exec" where
  "api_handler k gee w =
     bind_exec (group_Get gee k w) (\<lambda>(gee, r, w).
       Ret (case r of
              Inl e \<Rightarrow> http_Error (Error e) 500
            | Inr view \<Rightarrow> \<lparr>StatusCode = 200, Header = [(''Content-Type'', ''application/octet-stream'')], Body = Byteslice view\<rparr>,
            gee, w))"

definition addrMap :: "int \<Rightarrow> string option" where
  "addrMap = [8001 \<mapsto> ''http://localhost:8001'', 8002 \<mapsto> ''http://localhost:8002'', 8003 \<mapsto> ''http://localhost:8003'']"

text \<open>\<open>main\<close>: a port that is not in the map gives the empty address. \<open>addrs\<close> has the values of the map.\<close>

definition geecache_main ::
  "'w http_get \<Rightarrow> (bytes \<Rightarrow> Response \<Rightarrow> error option \<times> Response) \<Rightarrow> string list \<Rightarrow> int \<Rightarrow>
   ('w Group \<times> HTTPPool \<times> string) exec" where
  "geecache_main Get Unmarshal addrs port =
     bind_exec (createGroup Map.empty) (\<lambda>(gee, groups).
       startCacheServer Get Unmarshal (case addrMap port of None \<Rightarrow> '''' | Some a \<Rightarrow> a) addrs gee)"

text \<open>A sequence of requests to the API server of a node.\<close>

fun api_requests :: "string list \<Rightarrow> 'w Group \<Rightarrow> 'w \<Rightarrow> (http_response list \<times> 'w Group \<times> 'w) exec" where
  "api_requests [] gee w = Ret ([], gee, w)"
| "api_requests (k # ks) gee w =
     bind_exec (api_handler k gee w) (\<lambda>(r, gee, w).
       bind_exec (api_requests ks gee w) (\<lambda>(rs, gee, w). Ret (r # rs, gee, w)))"

section \<open>Lemmas\<close>

text \<open>What the API answers for a key.\<close>

definition api_answer :: "string \<Rightarrow> http_response" where
  "api_answer k =
     (if k = '''' then http_Error ''key is required'' 500
      else
        (case scores k of
           None \<Rightarrow> http_Error (k @ '' not exist'') 500
         | Some v \<Rightarrow> \<lparr>StatusCode = 200, Header = [(''Content-Type'', ''application/octet-stream'')], Body = bytes_of v\<rparr>))"

lemma api_requests_serves:
  "serves K search_scores g \<Longrightarrow> group_ok search_scores g \<Longrightarrow> set ks \<subseteq> insert '''' K \<Longrightarrow>
     \<exists>g' w'. api_requests ks g w = Ret (map api_answer ks, g', w')"
proof (induction ks arbitrary: g w)
  case (Cons k ks)
  from group_Get_serves [OF Cons.prems(1,2), of k w] Cons.prems(3) obtain g1 w1 where
    1: "group_Get g k w = Ret (g1, answer search_scores k, w1)" "group_ok search_scores g1" "same_config g g1" by auto
  from Cons.IH [OF serves_config [OF 1(3) Cons.prems(1)] 1(2), of w1] Cons.prems(3) obtain g2 w2 where
    "api_requests ks g1 w1 = Ret (map api_answer ks, g2, w2)" by auto
  with 1(1) show ?case
    by (auto simp: api_handler_def api_answer_def answer_def search_scores_def Byteslice_def split: option.split)
qed simp

lemma geecache_main_parts:
  assumes "geecache_main Get Unmarshal addrs port = Ret (g, p, a)"
  shows "\<exists>s g0 groups. addrMap port = Some s \<and> createGroup Map.empty = Ret (g0, groups) \<and>
    RegisterPeers g0 (Some (pool_picker Get Unmarshal (pool_Set (NewHTTPPool s) addrs))) = Ret g"
proof (cases "addrMap port")
  case None
  with assms show ?thesis by (auto simp: geecache_main_def startCacheServer_def slice7_def bind_exec_Ret_iff)
next
  case (Some s)
  with assms show ?thesis by (auto simp: geecache_main_def startCacheServer_def Let_def bind_exec_Ret_iff)
qed

text \<open>A port that is not in the table ends the program.\<close>

lemma unknown_port_panics:
  "addrMap port = None \<Longrightarrow> geecache_main Get Unmarshal addrs port = Panic ''slice bounds out of range''"
  by (simp add: geecache_main_def createGroup_def NewGroup_def startCacheServer_def RegisterPeers_def slice7_def Let_def)

section \<open>Properties\<close>

text \<open>
  C13. The API of the example cluster answers from the scores: on a node that \<open>main\<close> has started,
  with the addresses in any order, every request for a key without a space gets the
  score with status 200 if there is one, and status 500 with \<open>not exist\<close> (for the empty key: \<open>key is
  required\<close>) otherwise, whichever node owns the key and whether or not the nodes reach one another.
\<close>

theorem geecache_api_answers:
  assumes "geecache_main Get Unmarshal addrs port = Ret (g, p, a)" "proto_ok Marshal Unmarshal"
    and "\<forall>peer \<in> set addrs. delivers Marshal {k. CHR '' '' \<notin> set k} search_scores ''scores'' Get peer"
    and "\<forall>k \<in> set ks. CHR '' '' \<notin> set k"
  shows "\<exists>g' w'. api_requests ks g w = Ret (map api_answer ks, g', w')"
proof -
  obtain s g0 groups where m: "createGroup Map.empty = Ret (g0, groups)"
      "RegisterPeers g0 (Some (pool_picker Get Unmarshal (pool_Set (NewHTTPPool s) addrs))) = Ret g"
    using geecache_main_parts [OF assms(1)] by blast
  note c = m(1) [unfolded createGroup_def]
  have "serves {k. CHR '' '' \<notin> set k} search_scores g"
    by (rule cluster_group_serves [OF c m(2) assms(2)]) (use assms(3) in auto)
  moreover have "group_ok search_scores g" by (rule new_group_ok [OF c m(2)]) simp
  ultimately show ?thesis using assms(4) by (intro api_requests_serves) auto
qed

theorem geecache_api_answers_witness:
  "\<exists>g0 G g p a g' w'. createGroup Map.empty = Ret (g0 :: unit Group, G) \<and>
     geecache_main (loopback ''http://localhost:8002'' G) (\<lambda>bs m. (None, \<lparr>Value = bs\<rparr>))
       [''http://localhost:8003'', ''http://localhost:8001'', ''http://localhost:8002''] 8001 = Ret (g, p, a) \<and>
     api_requests [''Tom'', ''Bob'', ''Tom''] g () = Ret (map api_answer [''Tom'', ''Bob'', ''Tom''], g', w')"
proof -
  let ?U = "\<lambda>bs m. (None, \<lparr>Value = bs\<rparr>)" and ?K = "{k :: string. CHR '' '' \<notin> set k}"
  let ?as = "[''http://localhost:8003'', ''http://localhost:8001'', ''http://localhost:8002'']"
  obtain g0 :: "unit Group" and G where c: "createGroup Map.empty = Ret (g0, G)"
    by (auto simp: createGroup_def NewGroup_def Let_def)
  let ?Get = "loopback ''http://localhost:8002'' G"
  have g0: "RegisterPeers g0 None = Ret g0" "G ''scores'' = Some g0" "serves ?K search_scores g0"
    using c by (auto simp: createGroup_def NewGroup_def RegisterPeers_def serves_def Let_def)
  have "group_ok search_scores g0" by (rule new_group_ok [OF c [unfolded createGroup_def] g0(1)]) simp
  then have d: "\<forall>peer \<in> set ?as. delivers (\<lambda>m. Inr (Value m)) ?K search_scores ''scores'' ?Get peer"
    using loopback_delivers [of G "''scores''" g0 ?K search_scores, OF g0(2,3)] by simp
  obtain g p a where m: "geecache_main ?Get ?U ?as 8001 = Ret (g, p, a)"
    using c by (auto simp: geecache_main_def createGroup_def NewGroup_def startCacheServer_def RegisterPeers_def slice7_def Let_def addrMap_def)
  have "proto_ok (\<lambda>m. Inr (Value m)) ?U" by (auto simp: proto_ok_def)
  from geecache_api_answers [OF m this d, of "[''Tom'', ''Bob'', ''Tom'']" "()"] c m show ?thesis by auto
qed

end
