(* ===== verification/Singleflight.thy ===== *)
theory Singleflight
  imports Prelude
begin

text \<open>
  \<^verbatim>\<open>geecache/singleflight/singleflight.go\<close>: \<open>Group.Do\<close>, which many goroutines call at
  once. The model is a step relation: any number of goroutines, each at one point of the body of
  \<open>Do\<close>, the mutex, the map of calls in flight, and the heap of \<open>call\<close> structs with their wait
  groups. A step is what one goroutine does between two points where another can run; the parts
  of \<open>Do\<close> under the mutex are one step each. \<open>fn\<close> is caller code: it returns any result, or
  panics. The log records each invocation of \<open>fn\<close>.
\<close>

section \<open>State\<close>

text \<open>\<open>(interface{}, error)\<close>, with \<^const>\<open>None\<close> for nil.\<close>

type_synonym 'v result = "'v option \<times> error option"

record 'v call =
  wg :: nat
  Val :: "'v option"
  err :: "error option"

text \<open>
  The points of \<open>Do\<close>: before the first \<open>Lock\<close>; holding it, before the lookup; at \<open>Wait\<close>;
  in \<open>fn\<close>; after the results are stored; after \<open>wg.Done\<close>; holding the mutex again before
  \<open>delete\<close>; returned; and unwound by a panic of \<open>fn\<close>.
\<close>

datatype 'v pc = Entering | Checking | Waiting nat | Running nat | Stored nat | Signalled nat
  | Removing nat | Returned nat "'v result" | Panicked nat

record 'v flight =
  sf_mu :: "nat option"
  sf_m :: "(string \<Rightarrow> nat option) option"
  sf_calls :: "nat \<Rightarrow> 'v call"
  sf_next :: nat
  sf_procs :: "nat \<Rightarrow> (string \<times> 'v pc) option"
  sf_log :: "(string \<times> nat) list"

definition new_call :: "'v call" where
  "new_call = \<lparr>wg = 0, Val = None, err = None\<rparr>"

definition sf_init :: "'v flight \<Rightarrow> bool" where
  "sf_init s \<longleftrightarrow> s = \<lparr>sf_mu = None, sf_m = None, sf_calls = (\<lambda>_. new_call), sf_next = 0,
     sf_procs = Map.empty, sf_log = []\<rparr>"

abbreviation goto :: "nat \<Rightarrow> string \<Rightarrow> 'v pc \<Rightarrow> 'v flight \<Rightarrow> 'v flight" where
  "goto i k p s \<equiv> s\<lparr>sf_procs := (sf_procs s)(i \<mapsto> (k, p))\<rparr>"

section \<open>Steps\<close>

text \<open>\<open>if g.m == nil { g.m = make(...) }\<close>\<close>

definition made :: "(string \<Rightarrow> nat option) option \<Rightarrow> (string \<Rightarrow> nat option)" where
  "made m = (case m of None \<Rightarrow> Map.empty | Some f \<Rightarrow> f)"

inductive sf_step :: "'v flight \<Rightarrow> 'v flight \<Rightarrow> bool" where
  enter: "sf_procs s i = None \<Longrightarrow> sf_step s (goto i k Entering s)"
| lock: "sf_procs s i = Some (k, Entering) \<Longrightarrow> sf_mu s = None \<Longrightarrow>
    sf_step s (goto i k Checking (s\<lparr>sf_mu := Some i\<rparr>))"
| join: "sf_procs s i = Some (k, Checking) \<Longrightarrow> made (sf_m s) k = Some c \<Longrightarrow>
    sf_step s (goto i k (Waiting c) (s\<lparr>sf_m := Some (made (sf_m s)), sf_mu := None\<rparr>))"
| lead: "sf_procs s i = Some (k, Checking) \<Longrightarrow> made (sf_m s) k = None \<Longrightarrow> c = sf_next s \<Longrightarrow>
    sf_step s (goto i k (Running c)
      (s\<lparr>sf_calls := (sf_calls s)(c := new_call\<lparr>wg := 1\<rparr>), sf_next := Suc c,
         sf_m := Some ((made (sf_m s))(k \<mapsto> c)), sf_mu := None, sf_log := sf_log s @ [(k, c)]\<rparr>))"
| finish: "sf_procs s i = Some (k, Running c) \<Longrightarrow>
    sf_step s (goto i k (Stored c)
      (s\<lparr>sf_calls := (sf_calls s)(c := (sf_calls s c)\<lparr>Val := v, err := e\<rparr>)\<rparr>))"
| panic: "sf_procs s i = Some (k, Running c) \<Longrightarrow> sf_step s (goto i k (Panicked c) s)"
| signal: "sf_procs s i = Some (k, Stored c) \<Longrightarrow>
    sf_step s (goto i k (Signalled c)
      (s\<lparr>sf_calls := (sf_calls s)(c := (sf_calls s c)\<lparr>wg := wg (sf_calls s c) - 1\<rparr>)\<rparr>))"
| wake: "sf_procs s i = Some (k, Waiting c) \<Longrightarrow> wg (sf_calls s c) = 0 \<Longrightarrow>
    sf_step s (goto i k (Returned c (Val (sf_calls s c), err (sf_calls s c))) s)"
| relock: "sf_procs s i = Some (k, Signalled c) \<Longrightarrow> sf_mu s = None \<Longrightarrow>
    sf_step s (goto i k (Removing c) (s\<lparr>sf_mu := Some i\<rparr>))"
| remove: "sf_procs s i = Some (k, Removing c) \<Longrightarrow>
    sf_step s (goto i k (Returned c (Val (sf_calls s c), err (sf_calls s c)))
      (s\<lparr>sf_m := map_option (\<lambda>m. m(k := None)) (sf_m s), sf_mu := None\<rparr>))"

section \<open>Invariant\<close>

text \<open>
  The call a goroutine leads from its entry in the map to its removal, the call whose wait group
  it still holds up, and the call it has to do with at all.
\<close>

fun leads :: "'v pc \<Rightarrow> nat option" where
  "leads (Running c) = Some c"
| "leads (Stored c) = Some c"
| "leads (Signalled c) = Some c"
| "leads (Removing c) = Some c"
| "leads (Panicked c) = Some c"
| "leads _ = None"

fun holds_up :: "'v pc \<Rightarrow> nat option" where
  "holds_up (Running c) = Some c"
| "holds_up (Stored c) = Some c"
| "holds_up (Panicked c) = Some c"
| "holds_up _ = None"

fun call_of :: "'v pc \<Rightarrow> nat option" where
  "call_of (Waiting c) = Some c"
| "call_of (Returned c r) = Some c"
| "call_of p = leads p"

fun locked :: "'v pc \<Rightarrow> bool" where
  "locked Checking = True"
| "locked (Removing c) = True"
| "locked _ = False"

text \<open>The key and the call of every goroutine, seen through one of these functions.\<close>

definition view :: "('v pc \<Rightarrow> nat option) \<Rightarrow> (nat \<Rightarrow> (string \<times> 'v pc) option) \<Rightarrow>
    nat \<Rightarrow> (string \<times> nat) option" where
  "view f P i = (case P i of None \<Rightarrow> None | Some (k, p) \<Rightarrow> map_option (Pair k) (f p))"

definition mutex_inv :: "'v flight \<Rightarrow> bool" where
  "mutex_inv s \<longleftrightarrow>
     (\<forall>i k p. sf_procs s i = Some (k, p) \<longrightarrow> (locked p \<longleftrightarrow> sf_mu s = Some i)) \<and>
     (\<forall>i. sf_mu s = Some i \<longrightarrow> sf_procs s i \<noteq> None)"

definition map_inv :: "'v flight \<Rightarrow> bool" where
  "map_inv s \<longleftrightarrow>
     (\<forall>k c. made (sf_m s) k = Some c \<longleftrightarrow> (\<exists>i. view leads (sf_procs s) i = Some (k, c))) \<and>
     (\<forall>i j k k' c. view leads (sf_procs s) i = Some (k, c) \<longrightarrow> view leads (sf_procs s) j = Some (k', c) \<longrightarrow> i = j)"

definition log_inv :: "'v flight \<Rightarrow> bool" where
  "log_inv s \<longleftrightarrow> distinct (map snd (sf_log s)) \<and> (\<forall>k c. (k, c) \<in> set (sf_log s) \<longrightarrow> c < sf_next s) \<and>
     (\<forall>i x. view call_of (sf_procs s) i = Some x \<longrightarrow> x \<in> set (sf_log s))"

definition result_inv :: "'v flight \<Rightarrow> bool" where
  "result_inv s \<longleftrightarrow>
     (\<forall>c < sf_next s. wg (sf_calls s c) = (if \<exists>i k. view holds_up (sf_procs s) i = Some (k, c) then 1 else 0)) \<and>
     (\<forall>i k c r. sf_procs s i = Some (k, Returned c r) \<longrightarrow>
        wg (sf_calls s c) = 0 \<and> r = (Val (sf_calls s c), err (sf_calls s c)))"

definition sf_inv :: "'v flight \<Rightarrow> bool" where
  [invs]: "sf_inv s \<longleftrightarrow> mutex_inv s \<and> map_inv s \<and> log_inv s \<and> result_inv s"

lemma made_Some [simp]: "made (Some m) = m"
  by (simp add: made_def)

lemma made_removed [simp]: "made (map_option (\<lambda>m. m(k := None)) x) = (made x)(k := None)"
  by (cases x) (simp_all add: made_def fun_eq_iff)

lemma view_upd [simp]: "view f (P(i \<mapsto> (k, p))) = (view f P)(i := map_option (Pair k) (f p))"
  by (auto simp: view_def fun_eq_iff)

lemma view_at: "P i = Some (k, p) \<Longrightarrow> view f P i = map_option (Pair k) (f p)"
  by (simp add: view_def)

lemma view_absent: "P i = None \<Longrightarrow> view f P i = None"
  by (simp add: view_def)

lemma leads_call_of': "leads p = Some c \<Longrightarrow> call_of p = Some c"
  by (cases p) auto

lemma holds_up_leads': "holds_up p = Some c \<Longrightarrow> leads p = Some c"
  by (cases p) auto

lemma leads_call_of: "view leads P i = Some x \<Longrightarrow> view call_of P i = Some x"
  by (auto simp: view_def leads_call_of' split: option.splits)

lemma holds_up_leads: "view holds_up P i = Some x \<Longrightarrow> view leads P i = Some x"
  by (auto simp: view_def holds_up_leads' split: option.splits)

lemma fresh_call:
  assumes "log_inv s"
  shows "view call_of (sf_procs s) i \<noteq> Some (k, sf_next s)" "view leads (sf_procs s) i \<noteq> Some (k, sf_next s)"
    "view holds_up (sf_procs s) i \<noteq> Some (k, sf_next s)"
  using assms leads_call_of holds_up_leads by (fastforce simp: log_inv_def)+

lemma mutex_inv_step: "sf_step s t \<Longrightarrow> mutex_inv s \<Longrightarrow> mutex_inv t"
  by (induction rule: sf_step.induct) (fastforce simp: mutex_inv_def split: if_splits)+

text \<open>The map entry and the leader go together.\<close>

lemma unlead:
  assumes m: "\<And>k c. M k = Some c \<longleftrightarrow> (\<exists>i. V i = Some (k, c))"
    and u: "\<And>i j k k' c. V i = Some (k, c) \<Longrightarrow> V j = Some (k', c) \<Longrightarrow> i = j"
    and i: "V i = Some (k, c)"
  shows "(M(k := None)) k' = Some c' \<longleftrightarrow> (\<exists>j. (V(i := None)) j = Some (k', c'))"
proof (cases "k' = k")
  case True
  have "V j \<noteq> Some (k, c')" if "j \<noteq> i" for j
    using that i m u by (metis option.inject)
  with True show ?thesis by auto
next
  case False
  with i m [of k' c'] show ?thesis by simp (metis option.inject prod.inject)
qed

lemma map_inv_step: "sf_step s t \<Longrightarrow> log_inv s \<Longrightarrow> map_inv s \<Longrightarrow> map_inv t"
proof (induction rule: sf_step.induct)
  case (lead s i k c)
  have vi: "view leads (sf_procs s) i = None" using lead.hyps by (simp add: view_at)
  have nk: "view leads (sf_procs s) j \<noteq> Some (k, x)" for j x
    using lead.hyps(2) lead.prems(2) by (metis map_inv_def option.distinct(1))
  show ?case
    using lead fresh_call(2) [OF lead.prems(1)] nk vi
    by (auto simp: map_inv_def) (metis option.distinct(1))
next
  case (remove s i k c)
  let ?V = "view leads (sf_procs s)"
  have u: "?V a = Some (x, y) \<Longrightarrow> ?V b = Some (z, y) \<Longrightarrow> a = b" for a b x y z
    using remove.prems(2) unfolding map_inv_def by blast
  have m: "made (sf_m s) x = Some y \<longleftrightarrow> (\<exists>j. ?V j = Some (x, y))" for x y
    using remove.prems(2) unfolding map_inv_def by blast
  have "?V i = Some (k, c)" using remove.hyps by (simp add: view_at)
  note * = unlead [of "made (sf_m s)" ?V, OF m u this]
  show ?case unfolding map_inv_def using * u by (simp split: if_splits)
qed (simp_all add: map_inv_def view_at view_absent fun_upd_idem)

lemma log_inv_step: "sf_step s t \<Longrightarrow> map_inv s \<Longrightarrow> log_inv s \<Longrightarrow> log_inv t"
proof (induction rule: sf_step.induct)
  case (join s i k c)
  then obtain j where "view leads (sf_procs s) j = Some (k, c)" by (auto simp: map_inv_def)
  then have "(k, c) \<in> set (sf_log s)" using join.prems(2) leads_call_of by (fastforce simp: log_inv_def)
  with join show ?case by (auto simp: log_inv_def)
next
  case (lead s i k c)
  then show ?case by (fastforce simp: log_inv_def less_Suc_eq)
qed (simp_all add: log_inv_def view_at view_absent fun_upd_idem)

lemma call_lt: "log_inv s \<Longrightarrow> sf_procs s i = Some (k, p) \<Longrightarrow> call_of p = Some c \<Longrightarrow> c < sf_next s"
  by (fastforce simp: log_inv_def view_def split: option.splits)

lemma one_holder:
  "map_inv s \<Longrightarrow> view leads (sf_procs s) i = Some (x, c) \<Longrightarrow> view holds_up (sf_procs s) j = Some (y, c) \<Longrightarrow> j = i"
  unfolding map_inv_def by (metis holds_up_leads)

lemma wg_held:
  "result_inv s \<Longrightarrow> c < sf_next s \<Longrightarrow> view holds_up (sf_procs s) i = Some (k, c) \<Longrightarrow> wg (sf_calls s c) = 1"
  by (auto simp: result_inv_def)

lemma wg_free:
  "result_inv s \<Longrightarrow> c < sf_next s \<Longrightarrow> (\<And>i k. view holds_up (sf_procs s) i \<noteq> Some (k, c)) \<Longrightarrow>
     wg (sf_calls s c) = 0"
  by (auto simp: result_inv_def)

lemma returnedD:
  "result_inv s \<Longrightarrow> sf_procs s i = Some (k, Returned c r) \<Longrightarrow>
     wg (sf_calls s c) = 0 \<and> r = (Val (sf_calls s c), err (sf_calls s c))"
  unfolding result_inv_def by blast

lemma someone_upd:
  assumes "V i = None" "c' \<noteq> c"
  shows "(\<exists>j x. (V(i := Some (k, c))) j = Some (x, c')) \<longleftrightarrow> (\<exists>j x. V j = Some (x, c'))"
proof
  assume "\<exists>j x. V j = Some (x, c')"
  then obtain j x where "V j = Some (x, c')" by blast
  then have "(V(i := Some (k, c))) j = Some (x, c')" using assms(1) by auto
  then show "\<exists>j x. (V(i := Some (k, c))) j = Some (x, c')" by blast
qed (use assms in \<open>auto split: if_splits\<close>)

lemma someone_del:
  assumes "V i = Some (k, c)" "c' \<noteq> c"
  shows "(\<exists>j x. (V(i := None)) j = Some (x, c')) \<longleftrightarrow> (\<exists>j x. V j = Some (x, c'))"
proof
  assume "\<exists>j x. V j = Some (x, c')"
  then obtain j x where "V j = Some (x, c')" by blast
  then have "(V(i := None)) j = Some (x, c')" using assms by auto
  then show "\<exists>j x. (V(i := None)) j = Some (x, c')" by blast
qed (auto split: if_splits)

lemma result_inv_step:
  "sf_step s t \<Longrightarrow> map_inv s \<Longrightarrow> log_inv s \<Longrightarrow> result_inv s \<Longrightarrow> result_inv t"
proof (induction rule: sf_step.induct)
  case (lead s i k c)
  have vi: "view holds_up (sf_procs s) i = None" using lead.hyps by (simp add: view_at)
  have lt: "c' < sf_next s" if "sf_procs s j = Some (k', Returned c' r)" for j k' c' r
    using that call_lt [OF lead.prems(2)] by simp
  let ?calls = "(sf_calls s)(c := new_call\<lparr>wg := 1\<rparr>)"
  let ?H = "(view holds_up (sf_procs s))(i := Some (k, c))"
  have one: "wg (?calls c') = (if \<exists>j x. ?H j = Some (x, c') then 1 else 0)" if "c' < Suc c" for c'
  proof (cases "c' = c")
    case True
    then show ?thesis by (auto simp: new_call_def)
  next
    case False
    with that lead.hyps(3) have "c' < sf_next s" by simp
    with False lead.prems(3) show ?thesis
      unfolding someone_upd [of "view holds_up (sf_procs s)", OF vi False] by (auto simp: result_inv_def)
  qed
  have "wg (?calls c') = 0 \<and> r = (Val (?calls c'), err (?calls c'))"
    if "((sf_procs s)(i \<mapsto> (k, Running c))) j = Some (k', Returned c' r)" for j k' c' r
    using that returnedD [OF lead.prems(3), of j k' c' r] lt [of j k' c' r] lead.hyps(3)
    by (auto split: if_splits)
  with one show ?case unfolding result_inv_def using lead.hyps(3) by simp
next
  case (finish s i k c v e)
  have h: "view holds_up (sf_procs s) i = Some (k, c)" using finish.hyps by (simp add: view_at)
  have "wg (sf_calls s c) = 1"
    using call_lt [OF finish.prems(2) finish.hyps] by (intro wg_held [OF finish.prems(3) _ h]) simp
  with finish h show ?case by (auto simp: result_inv_def fun_upd_idem)
next
  case (signal s i k c)
  have h: "view holds_up (sf_procs s) i = Some (k, c)" "view leads (sf_procs s) i = Some (k, c)"
    using signal.hyps by (simp_all add: view_at)
  have w: "wg (sf_calls s c) = 1"
    using call_lt [OF signal.prems(2) signal.hyps] by (intro wg_held [OF signal.prems(3) _ h(1)]) simp
  have o: "j = i" if "view holds_up (sf_procs s) j = Some (x, c)" for j x
    using one_holder [OF signal.prems(1) h(2) that] .
  let ?calls = "(sf_calls s)(c := (sf_calls s c)\<lparr>wg := wg (sf_calls s c) - 1\<rparr>)"
  let ?H = "(view holds_up (sf_procs s))(i := None)"
  have one: "wg (?calls c') = (if \<exists>j x. ?H j = Some (x, c') then 1 else 0)" if "c' < sf_next s" for c'
  proof (cases "c' = c")
    case True
    then show ?thesis using w o by (auto split: if_splits)
  next
    case False
    with that signal.prems(3) show ?thesis
      unfolding someone_del [of "view holds_up (sf_procs s)", OF h(1) False] by (auto simp: result_inv_def)
  qed
  have "wg (?calls c') = 0 \<and> r = (Val (?calls c'), err (?calls c'))"
    if "((sf_procs s)(i \<mapsto> (k, Signalled c))) j = Some (k', Returned c' r)" for j k' c' r
    using that returnedD [OF signal.prems(3), of j k' c' r] by (auto split: if_splits)
  with one show ?case unfolding result_inv_def by simp
next
  case (wake s i k c)
  then show ?case by (auto simp: result_inv_def view_at fun_upd_idem)
next
  case (remove s i k c)
  have v: "view leads (sf_procs s) i = Some (k, c)" "view holds_up (sf_procs s) i = None"
    using remove.hyps by (simp_all add: view_at)
  have "wg (sf_calls s c) = 0"
    using one_holder [OF remove.prems(1) v(1)] v(2) call_lt [OF remove.prems(2) remove.hyps]
    by (intro wg_free [OF remove.prems(3)]) auto
  with remove v show ?case by (auto simp: result_inv_def fun_upd_idem)
qed (simp_all add: result_inv_def view_at view_absent fun_upd_idem)

interpretation sf: inductive_invariant sf_init sf_step sf_inv
proof (unfold_locales, goal_cases)
  case (1 s)
  then show ?case
    by (simp add: sf_init_def sf_inv_def mutex_inv_def map_inv_def log_inv_def result_inv_def view_def made_def)
next
  case (2 s t)
  then show ?case
    by (simp add: sf_inv_def mutex_inv_step map_inv_step log_inv_step result_inv_step)
qed

section \<open>Progress\<close>

fun rank :: "'v pc \<Rightarrow> nat" where
  "rank Entering = 7"
| "rank Checking = 6"
| "rank (Running c) = 5"
| "rank (Stored c) = 4"
| "rank (Signalled c) = 3"
| "rank (Removing c) = 2"
| "rank (Waiting c) = 1"
| "rank (Returned c r) = 0"
| "rank (Panicked c) = 0"

definition work :: "(nat \<Rightarrow> (string \<times> 'v pc) option) \<Rightarrow> nat" where
  "work P = (\<Sum>i \<in> dom P. rank (snd (the (P i))))"

definition calm :: "'v flight \<Rightarrow> bool" where
  "calm s \<longleftrightarrow> finite (dom (sf_procs s)) \<and> (\<forall>i k c. sf_procs s i \<noteq> Some (k, Panicked c))"

lemma work_less:
  assumes "finite (dom P)" "P i = Some (k, p)" "rank p' < rank p"
  shows "work (P(i \<mapsto> (k, p'))) < work P"
proof -
  have d: "dom (P(i \<mapsto> (k, p'))) = dom P" "i \<in> dom P" using assms(2) by auto
  show ?thesis
    unfolding work_def d(1)
    by (rule sum_strict_mono_ex1) (use assms d(2) in \<open>auto intro!: bexI [of _ i]\<close>)
qed

lemma step_moves:
  assumes "calm s" "sf_procs s i = Some (k, p)" "rank p' < rank p" "\<And>c. p' \<noteq> Panicked c"
    and "sf_step s t" "sf_procs t = (sf_procs s)(i \<mapsto> (k, p'))"
  shows "\<exists>t. sf_step s t \<and> calm t \<and> work (sf_procs t) < work (sf_procs s) \<and> dom (sf_procs t) = dom (sf_procs s)"
  using assms work_less [of "sf_procs s" i k p p']
  by (intro exI [of _ t]) (auto simp: calm_def split: if_splits)

text \<open>As long as no \<open>fn\<close> panicked and someone has not returned, someone can move.\<close>

lemma holder_moves:
  assumes "calm s" "mutex_inv s" "sf_mu s = Some j"
  shows "\<exists>t. sf_step s t \<and> calm t \<and> work (sf_procs t) < work (sf_procs s) \<and> dom (sf_procs t) = dom (sf_procs s)"
proof -
  obtain k p where j: "sf_procs s j = Some (k, p)" "locked p"
    using assms(2,3) by (fastforce simp: mutex_inv_def)
  show ?thesis
  proof (cases p)
    case Checking
    show ?thesis
    proof (cases "made (sf_m s) k")
      case None
      show ?thesis by (rule step_moves [OF assms(1) j(1) _ _ lead [OF j(1) [unfolded Checking] None refl]])
        (simp_all add: Checking)
    next
      case (Some c)
      show ?thesis by (rule step_moves [OF assms(1) j(1) _ _ join [OF j(1) [unfolded Checking] Some]])
        (simp_all add: Checking)
    qed
  next
    case (Removing c)
    show ?thesis by (rule step_moves [OF assms(1) j(1) _ _ remove [OF j(1) [unfolded Removing]]])
      (simp_all add: Removing)
  qed (use j(2) in simp_all)
qed

lemma someone_moves:
  assumes inv: "sf_inv s" and calm: "calm s" and i: "sf_procs s i = Some (k, p)" and "\<And>c r. p \<noteq> Returned c r"
  shows "\<exists>t. sf_step s t \<and> calm t \<and> work (sf_procs t) < work (sf_procs s) \<and> dom (sf_procs t) = dom (sf_procs s)"
proof (cases "sf_mu s")
  case (Some j)
  with holder_moves calm inv show ?thesis by (auto simp: sf_inv_def)
next
  case None
  have nl: "\<not> locked p" using None i inv by (auto simp: sf_inv_def mutex_inv_def)
  note move = step_moves [OF calm]
  show ?thesis
  proof (cases p)
    case Entering
    show ?thesis by (rule move [OF i _ _ lock [OF i [unfolded Entering] None]]) (simp_all add: Entering)
  next
    case (Running c)
    show ?thesis by (rule move [OF i _ _ finish [OF i [unfolded Running], of None None]]) (simp_all add: Running)
  next
    case (Stored c)
    show ?thesis by (rule move [OF i _ _ signal [OF i [unfolded Stored]]]) (simp_all add: Stored)
  next
    case (Signalled c)
    show ?thesis by (rule move [OF i _ _ relock [OF i [unfolded Signalled] None]]) (simp_all add: Signalled)
  next
    case (Waiting c)
    show ?thesis
    proof (cases "wg (sf_calls s c) = 0")
      case True
      show ?thesis by (rule move [OF i _ _ wake [OF i [unfolded Waiting] True]]) (simp_all add: Waiting)
    next
      case False
      have "c < sf_next s" using call_lt [of s i k p c] i inv Waiting by (simp add: sf_inv_def)
      then obtain j k' where "view holds_up (sf_procs s) j = Some (k', c)"
        using False inv wg_free [of s c] by (auto simp: sf_inv_def)
      then obtain q where j: "sf_procs s j = Some (k', q)" "holds_up q = Some c"
        by (auto simp: view_def split: option.splits)
      then have "q = Running c \<or> q = Stored c" using calm by (cases q) (auto simp: calm_def)
      then show ?thesis
      proof
        assume "q = Running c"
        with j(1) show ?thesis by (intro move [OF j(1) _ _ finish [of s j k' c None None], of "Stored c"]) simp_all
      next
        assume "q = Stored c"
        with j(1) show ?thesis by (intro move [OF j(1) _ _ signal [of s j k' c], of "Signalled c"]) simp_all
      qed
    qed
  qed (use nl i calm assms(4) in \<open>auto simp: calm_def\<close>)
qed

lemma all_return:
  assumes "sf_inv s" "calm s"
  shows "\<exists>t. sf_step\<^sup>*\<^sup>* s t \<and> dom (sf_procs t) = dom (sf_procs s) \<and>
    (\<forall>i k p. sf_procs t i = Some (k, p) \<longrightarrow> (\<exists>c r. p = Returned c r))"
  using assms
proof (induction "work (sf_procs s)" arbitrary: s rule: less_induct)
  case less
  show ?case
  proof (cases "\<forall>i k p. sf_procs s i = Some (k, p) \<longrightarrow> (\<exists>c r. p = Returned c r)")
    case True
    then show ?thesis by blast
  next
    case False
    then obtain u where u: "sf_step s u" "calm u" "work (sf_procs u) < work (sf_procs s)"
        "dom (sf_procs u) = dom (sf_procs s)"
      using someone_moves [OF less.prems] by metis
    from less.hyps [OF u(3) sf.Inv_step [OF less.prems(1) u(1)] u(2)] u(1,4)
    show ?thesis by (metis converse_rtranclp_into_rtranclp)
  qed
qed

section \<open>Properties\<close>

lemma one_leader:
  assumes "map_inv s" "sf_procs s i = Some (k, p)" "leads p = Some c"
    "sf_procs s j = Some (k, q)" "leads q = Some c'"
  shows "i = j \<and> c = c'"
proof -
  have "view leads (sf_procs s) i = Some (k, c)" "view leads (sf_procs s) j = Some (k, c')"
    using assms by (simp_all add: view_at)
  with assms(1) show ?thesis unfolding map_inv_def by (metis option.inject)
qed

lemma count_list_distinct: "distinct xs \<Longrightarrow> x \<in> set xs \<Longrightarrow> count_list xs x = 1"
  by (induction xs) (auto simp: count_list_0_iff)

lemma reach_finite: "reach sf_init sf_step s \<Longrightarrow> finite (dom (sf_procs s))"
proof (induction rule: reach.induct)
  case (reach_step s t)
  from reach_step.hyps(2) reach_step.IH show ?case by (induction rule: sf_step.induct) simp_all
qed (simp add: sf_init_def)

lemma panicked_stays: "sf_step s t \<Longrightarrow> sf_procs s i = Some (k, Panicked c) \<Longrightarrow> sf_procs t i = Some (k, Panicked c)"
  by (induction rule: sf_step.induct) auto

lemma uncontended_running:
  assumes "sf_procs s i = None" "sf_mu s = None" "made (sf_m s) k = None" "c = sf_next s"
  shows "\<exists>t. sf_step\<^sup>*\<^sup>* s t \<and> sf_procs t = (sf_procs s)(i \<mapsto> (k, Running c)) \<and>
    sf_m t = Some ((made (sf_m s))(k \<mapsto> c)) \<and> sf_mu t = None \<and> sf_log t = sf_log s @ [(k, c)]"
proof -
  obtain s1 where 1: "sf_step s s1" "s1 = goto i k Entering s"
    using enter [OF assms(1), of k] by blast
  obtain s2 where 2: "sf_step s1 s2" "s2 = goto i k Checking (s1\<lparr>sf_mu := Some i\<rparr>)"
    using lock [of s1 i k] 1(2) assms(2) by auto
  obtain t where 3: "sf_step s2 t" "t = goto i k (Running c)
      (s2\<lparr>sf_calls := (sf_calls s2)(c := new_call\<lparr>wg := 1\<rparr>), sf_next := Suc c,
         sf_m := Some ((made (sf_m s2))(k \<mapsto> c)), sf_mu := None, sf_log := sf_log s2 @ [(k, c)]\<rparr>)"
    using lead [of s2 i k c] 1(2) 2(2) assms(3,4) by auto
  have "sf_step\<^sup>*\<^sup>* s t"
    using 1(1) 2(1) 3(1) by (meson converse_rtranclp_into_rtranclp rtranclp.rtrancl_refl)
  then show ?thesis by (intro exI [of _ t]) (simp add: 1(2) 2(2) 3(2))
qed

lemma running_returns:
  assumes "sf_procs s i = Some (k, Running c)" "sf_mu s = None" "sf_m s = Some m"
  shows "\<exists>t. sf_step\<^sup>*\<^sup>* s t \<and> sf_procs t = (sf_procs s)(i \<mapsto> (k, Returned c (v, e))) \<and>
    sf_m t = Some (m(k := None)) \<and> sf_mu t = None \<and> sf_log t = sf_log s"
proof -
  obtain s4 where 4: "sf_step s s4" "s4 = goto i k (Stored c)
      (s\<lparr>sf_calls := (sf_calls s)(c := (sf_calls s c)\<lparr>Val := v, err := e\<rparr>)\<rparr>)"
    using finish [OF assms(1), of e v] by auto
  obtain s5 where 5: "sf_step s4 s5" "s5 = goto i k (Signalled c)
      (s4\<lparr>sf_calls := (sf_calls s4)(c := (sf_calls s4 c)\<lparr>wg := wg (sf_calls s4 c) - 1\<rparr>)\<rparr>)"
    using signal [of s4 i k c] 4(2) by auto
  obtain s6 where 6: "sf_step s5 s6" "s6 = goto i k (Removing c) (s5\<lparr>sf_mu := Some i\<rparr>)"
    using relock [of s5 i k c] 4(2) 5(2) assms(2) by auto
  obtain t where 7: "sf_step s6 t" "t = goto i k (Returned c (Val (sf_calls s6 c), err (sf_calls s6 c)))
      (s6\<lparr>sf_m := map_option (\<lambda>m. m(k := None)) (sf_m s6), sf_mu := None\<rparr>)"
    using remove [of s6 i k c] 6(2) by auto
  have "sf_step\<^sup>*\<^sup>* s t"
    using 4(1) 5(1) 6(1) 7(1) by (meson converse_rtranclp_into_rtranclp rtranclp.rtrancl_refl)
  then show ?thesis
    using assms(3) by (intro exI [of _ t]) (simp add: 4(2) 5(2) 6(2) 7(2))
qed

text \<open>A first call, at \<open>fn\<close> and returned, from the initial state.\<close>

abbreviation sf_start :: "'v flight" where
  "sf_start \<equiv> \<lparr>sf_mu = None, sf_m = None, sf_calls = (\<lambda>_. new_call), sf_next = 0,
     sf_procs = Map.empty, sf_log = []\<rparr>"

lemma reach_start: "reach sf_init sf_step (sf_start :: 'v flight)"
  by (rule reach_init) (simp add: sf_init_def)

lemma first_running:
  "\<exists>s :: 'v flight. reach sf_init sf_step s \<and> sf_procs s = [0 \<mapsto> (k, Running 0)] \<and> sf_mu s = None \<and>
    sf_m s = Some [k \<mapsto> 0]"
  using uncontended_running [of sf_start 0 k 0] reach_rtranclp [OF reach_start]
  by (fastforce simp: made_def)

lemma first_returned:
  "\<exists>s :: 'v flight. reach sf_init sf_step s \<and> sf_procs s 0 = Some (k, Returned 0 (v, e))"
proof -
  obtain s :: "'v flight" where s: "reach sf_init sf_step s" "sf_procs s = [0 \<mapsto> (k, Running 0)]"
      "sf_mu s = None" "sf_m s = Some [k \<mapsto> 0]"
    using first_running by blast
  obtain t where "sf_step\<^sup>*\<^sup>* s t" "sf_procs t = (sf_procs s)(0 \<mapsto> (k, Returned 0 (v, e)))"
    using running_returns [of s 0 k 0 "[k \<mapsto> 0]" v e] s by auto
  with reach_rtranclp [OF s(1)] show ?thesis by (intro exI [of _ t]) auto
qed

text \<open>The caller of a key whose leader panicked can be at these points only.\<close>

definition shut_out :: "nat \<Rightarrow> string \<Rightarrow> nat \<Rightarrow> 'v flight \<Rightarrow> bool" where
  "shut_out j k c s \<longleftrightarrow> (\<forall>p. sf_procs s j = Some (k, p) \<longrightarrow> p \<in> {Entering, Checking, Waiting c})"

lemma shut_out_step:
  assumes "sf_step s t" "sf_inv s" "sf_procs s i = Some (k, Panicked c)" "shut_out j k c s"
  shows "shut_out j k c t"
proof -
  have c: "made (sf_m s) k = Some c" "wg (sf_calls s c) \<noteq> 0"
  proof -
    have v: "view leads (sf_procs s) i = Some (k, c)" "view holds_up (sf_procs s) i = Some (k, c)"
      using assms(3) by (simp_all add: view_at)
    show "made (sf_m s) k = Some c" using v assms(2) by (auto simp: sf_inv_def map_inv_def)
    show "wg (sf_calls s c) \<noteq> 0"
      using wg_held [OF _ _ v(2)] call_lt [OF _ assms(3)] assms(2) by (auto simp: sf_inv_def)
  qed
  from assms(1,4) c show ?thesis
    by (induction rule: sf_step.induct) (auto simp: shut_out_def split: if_splits)
qed

lemma shut_out_steps:
  assumes "sf_step\<^sup>*\<^sup>* s t" "sf_inv s" "sf_procs s i = Some (k, Panicked c)" "shut_out j k c s"
  shows "sf_inv t \<and> sf_procs t i = Some (k, Panicked c) \<and> shut_out j k c t"
  using assms
  by (induction rule: rtranclp_induct) (auto intro: sf.Inv_step panicked_stays shut_out_step)

text \<open>
  Single flight: in every reachable state at most one goroutine is running \<open>fn\<close> for a key,
  whatever the interleaving of the callers.
\<close>

lemma sf_one_running_per_key:
  assumes "reach sf_init sf_step s"
    and "sf_procs s i = Some (k, Running c)" "sf_procs s j = Some (k, Running c')"
  shows "i = j"
  using one_leader [of s i k "Running c" c j "Running c'" c'] assms sf.reach_Inv [OF assms(1)]
  by (simp add: sf_inv_def)

text \<open>
  C23. All the callers that share a call get the same result: whoever returns from one \<open>call\<close>
  asked for the same key, returns the same value and error, and \<open>fn\<close> was invoked exactly once
  for that \<open>call\<close>.
\<close>

theorem sf_callers_share_result:
  assumes "reach sf_init sf_step s"
    and "sf_procs s i = Some (k, Returned c r)" "sf_procs s j = Some (k', Returned c r')"
  shows "k' = k \<and> r' = r \<and> length (filter (\<lambda>x. snd x = c) (sf_log s)) = 1"
proof -
  have inv: "log_inv s" "result_inv s" using sf.reach_Inv [OF assms(1)] by (simp_all add: sf_inv_def)
  have in_log: "(k, c) \<in> set (sf_log s)" "(k', c) \<in> set (sf_log s)"
    using inv(1) view_at [of "sf_procs s", OF assms(2), of call_of] view_at [of "sf_procs s", OF assms(3), of call_of]
    by (auto simp: log_inv_def)
  have d: "distinct (map snd (sf_log s))" using inv(1) by (simp add: log_inv_def)
  with in_log have "k' = k" by (metis (no_types, lifting) distinct_map inj_onD prod.inject snd_conv)
  moreover have "length (filter (\<lambda>x. snd x = c) (sf_log s)) = 1"
  proof -
    have "length (filter (\<lambda>x. snd x = c) (sf_log s)) = count_list (map snd (sf_log s)) c"
      by (simp add: count_list_eq_length_filter filter_map comp_def eq_commute)
    also have "\<dots> = 1" using d in_log(1) by (intro count_list_distinct) force+
    finally show ?thesis .
  qed
  ultimately show ?thesis using returnedD [OF inv(2)] assms(2,3) by metis
qed

theorem sf_callers_share_result_witness:
  "\<exists>s :: nat flight. reach sf_init sf_step s \<and> sf_procs s 0 = Some (''Tom'', Returned 0 (Some 630, None)) \<and>
    length (filter (\<lambda>x. snd x = 0) (sf_log s)) = 1"
proof -
  obtain s :: "nat flight" where s: "reach sf_init sf_step s"
      "sf_procs s 0 = Some (''Tom'', Returned 0 (Some 630, None))"
    using first_returned [of "''Tom''" "Some 630" None] by blast
  with sf_callers_share_result [OF s(1) s(2) s(2)] show ?thesis by blast
qed

text \<open>
  No caller is left behind: from every reachable state in which no \<open>fn\<close> has panicked, the
  goroutines that are in \<open>Do\<close> can all run to their return (there is no deadlock between the
  mutex, the wait groups and the map).
\<close>

lemma sf_all_callers_return:
  assumes "reach sf_init sf_step s" "\<And>i k c. sf_procs s i \<noteq> Some (k, Panicked c)"
  shows "\<exists>t. sf_step\<^sup>*\<^sup>* s t \<and> dom (sf_procs t) = dom (sf_procs s) \<and>
    (\<forall>i k p. sf_procs t i = Some (k, p) \<longrightarrow> (\<exists>c r. p = Returned c r))"
  using all_return [OF sf.reach_Inv [OF assms(1)]] reach_finite [OF assms(1)] assms(2)
  by (simp add: calm_def)

text \<open>
  C36. A panic of \<open>fn\<close> shuts a key out for good: \<open>wg.Done\<close> and \<open>delete\<close> are not deferred, so
  once the leader of a key has panicked, no caller that has not passed the lookup (and no waiter on
  that call) ever returns.
\<close>

theorem sf_panic_shuts_key_out:
  assumes "reach sf_init sf_step s" "sf_procs s i = Some (k, Panicked c)"
    and "sf_procs s j \<in> {None, Some (k, Entering), Some (k, Checking), Some (k, Waiting c)}"
    and "sf_step\<^sup>*\<^sup>* s t"
  shows "sf_procs t j \<noteq> Some (k, Returned c' r)"
proof -
  have "shut_out j k c s" using assms(3) by (auto simp: shut_out_def)
  from shut_out_steps [OF assms(4) sf.reach_Inv [OF assms(1)] assms(2) this] show ?thesis
    by (auto simp: shut_out_def)
qed

theorem sf_panic_shuts_key_out_witness:
  "\<exists>s :: nat flight. sf_procs s 0 = Some (''Tom'', Panicked 0) \<and>
    (\<forall>t c' r. sf_step\<^sup>*\<^sup>* s t \<longrightarrow> sf_procs t 1 \<noteq> Some (''Tom'', Returned c' r))"
proof -
  obtain s :: "nat flight" where s: "reach sf_init sf_step s" "sf_procs s = [0 \<mapsto> (''Tom'', Running 0)]"
    using first_running by blast
  let ?t = "goto 0 ''Tom'' (Panicked 0) s"
  have "sf_step s ?t" by (rule panic) (simp add: s(2))
  with s(1) have r: "reach sf_init sf_step ?t" by (rule reach_step)
  have p: "sf_procs ?t 0 = Some (''Tom'', Panicked 0)" by simp
  have "sf_procs ?t 1 = None" by (simp add: s(2))
  with sf_panic_shuts_key_out [OF r p, of 1] p show ?thesis by (intro exI [of _ ?t]) blast
qed

text \<open>
  Without contention \<open>Do\<close> is a call of \<open>fn\<close>: a goroutine that finds the mutex free and no call
  in flight for its key invokes \<open>fn\<close> once, returns its result, and leaves the map without the key.
\<close>

lemma sf_Do_uncontended:
  assumes "sf_procs s i = None" "sf_mu s = None" "made (sf_m s) k = None"
  shows "\<exists>t. sf_step\<^sup>*\<^sup>* s t \<and> sf_procs t = (sf_procs s)(i \<mapsto> (k, Returned (sf_next s) (v, e))) \<and>
    made (sf_m t) = made (sf_m s) \<and> sf_mu t = None \<and> sf_log t = sf_log s @ [(k, sf_next s)]"
proof -
  obtain u where u: "sf_step\<^sup>*\<^sup>* s u" "sf_procs u = (sf_procs s)(i \<mapsto> (k, Running (sf_next s)))"
      "sf_m u = Some ((made (sf_m s))(k \<mapsto> sf_next s))" "sf_mu u = None"
      "sf_log u = sf_log s @ [(k, sf_next s)]"
    using uncontended_running [OF assms refl] by blast
  obtain t where t: "sf_step\<^sup>*\<^sup>* u t" "sf_procs t = (sf_procs u)(i \<mapsto> (k, Returned (sf_next s) (v, e)))"
      "sf_m t = Some (((made (sf_m s))(k \<mapsto> sf_next s))(k := None))" "sf_mu t = None" "sf_log t = sf_log u"
    using running_returns [of u i k "sf_next s" _ v e] u by fastforce
  from u(1) t(1) have "sf_step\<^sup>*\<^sup>* s t" by simp
  then show ?thesis using u t assms(3) by (intro exI [of _ t]) (simp add: fun_upd_idem)
qed

end
