(* ===== verification/GeeConcurrent.thy ===== *)
theory GeeConcurrent
  imports GeeGroup Singleflight
begin

text \<open>
  \<open>Group.Get\<close> of \<^verbatim>\<open>geecatche.go\<close> by many goroutines at once: the synchronized cache of \<^verbatim>\<open>cache.go\<close>, the
  single flight of \<^verbatim>\<open>singleflight.go\<close>, and the function that \<open>load\<close> passes to it, put together. The
  goroutines in \<open>loader.Do\<close> move by the steps of \<^const>\<open>sf_step\<close>, except that its function is the
  one of \<open>load\<close>, whose calls of the peer, the getter and the cache are steps of their own.
\<close>

section \<open>State\<close>

text \<open>
  The points of \<open>Get\<close>: before the lookup; in \<open>loader.Do\<close>; in the function of \<open>load\<close> before
  \<open>getFromPeer\<close>, before \<open>getter.Get\<close>, before \<open>populateCache\<close> and at its return; returned;
  unwound by a panic.
\<close>

datatype 'w getting =
    GLook
  | GDo
  | GPeer "'w PeerGetter"
  | GLocal
  | GAdd ByteView
  | GFn "ByteView result"
  | GRet "error + ByteView"
  | GPanic

text \<open>\<open>g_gets\<close> has the key and the point of each goroutine, \<open>g_w\<close> the state of the getter and the peers.\<close>

record 'w gsys =
  g_cache :: cache
  g_flight :: "ByteView flight"
  g_gets :: "nat \<Rightarrow> (string \<times> 'w getting) option"
  g_w :: 'w

definition g_start :: "'w Group \<Rightarrow> 'w \<Rightarrow> 'w gsys" where
  "g_start G w = \<lparr>g_cache = mainCache G, g_flight = sf_start, g_gets = Map.empty, g_w = w\<rparr>"

abbreviation at :: "nat \<Rightarrow> string \<Rightarrow> 'w getting \<Rightarrow> 'w gsys \<Rightarrow> 'w gsys" where
  "at i k p s \<equiv> s\<lparr>g_gets := (g_gets s)(i \<mapsto> (k, p))\<rparr>"

section \<open>Steps\<close>

text \<open>The beginning of the function of \<open>load\<close>: whom it asks first.\<close>

definition fn_begin :: "'w Group \<Rightarrow> string \<Rightarrow> 'w getting exec" where
  "fn_begin G k =
     (case peers G of
        None \<Rightarrow> Ret GLocal
      | Some PickPeer \<Rightarrow>
          bind_exec (PickPeer k) (\<lambda>(peer, ok).
            if ok then (case peer of None \<Rightarrow> Panic ''nil pointer dereference'' | Some p \<Rightarrow> Ret (GPeer p))
            else Ret GLocal))"

fun fn_panics :: "'w Group \<Rightarrow> string \<Rightarrow> 'w \<Rightarrow> 'w getting \<Rightarrow> bool" where
  "fn_panics G k w GDo = (\<exists>m. fn_begin G k = Panic m)"
| "fn_panics G k w (GPeer f) = (\<exists>m. getFromPeer G f k w = Panic m)"
| "fn_panics G k w GLocal = (\<exists>m. getter G k w = Panic m)"
| "fn_panics G k w p = False"

text \<open>A step inside \<open>Do\<close> that neither begins a call of \<open>Do\<close> nor ends the run of a function.\<close>

definition sf_sync :: "'v flight \<Rightarrow> 'v flight \<Rightarrow> bool" where
  "sf_sync f f' \<longleftrightarrow> sf_step f f' \<and> dom (sf_procs f') = dom (sf_procs f) \<and>
     (\<forall>j k c. sf_procs f j = Some (k, Running c) \<longrightarrow> sf_procs f' j = sf_procs f j)"

definition fn_stored :: "nat \<Rightarrow> string \<Rightarrow> nat \<Rightarrow> 'v result \<Rightarrow> 'v flight \<Rightarrow> 'v flight" where
  "fn_stored i k c r f = goto i k (Stored c)
     (f\<lparr>sf_calls := (sf_calls f)(c := (sf_calls f c)\<lparr>Val := fst r, err := snd r\<rparr>)\<rparr>)"

text \<open>What \<open>load\<close> returns for the result of \<open>Do\<close>; the type assertion panics on nil.\<close>

definition load_result :: "ByteView result \<Rightarrow> 'w getting" where
  "load_result r = (case snd r of Some e \<Rightarrow> GRet (Inl e) | None \<Rightarrow> (case fst r of Some v \<Rightarrow> GRet (Inr v) | None \<Rightarrow> GPanic))"

inductive g_step :: "'w Group \<Rightarrow> 'w gsys \<Rightarrow> 'w gsys \<Rightarrow> bool" for G :: "'w Group" where
  g_call: "g_gets s i = None \<Longrightarrow>
    g_step G s (at i k (if k = '''' then GRet (Inl (Errorf ''key is required'')) else GLook) s)"
| g_hit: "g_gets s i = Some (k, GLook) \<Longrightarrow> cache_get (g_cache s) k = (c, Some v) \<Longrightarrow>
    g_step G s (at i k (GRet (Inr v)) (s\<lparr>g_cache := c\<rparr>))"
| g_miss: "g_gets s i = Some (k, GLook) \<Longrightarrow> cache_get (g_cache s) k = (c, None) \<Longrightarrow>
    g_step G s (at i k GDo (s\<lparr>g_cache := c, g_flight := goto i k Entering (g_flight s)\<rparr>))"
| g_sync: "sf_sync (g_flight s) f \<Longrightarrow> g_step G s (s\<lparr>g_flight := f\<rparr>)"
| g_begin: "g_gets s i = Some (k, GDo) \<Longrightarrow> sf_procs (g_flight s) i = Some (k, Running c) \<Longrightarrow> fn_begin G k = Ret p \<Longrightarrow>
    g_step G s (at i k p s)"
| g_peer: "g_gets s i = Some (k, GPeer f) \<Longrightarrow> getFromPeer G f k (g_w s) = Ret (r, w) \<Longrightarrow>
    g_step G s (at i k (case r of Inr v \<Rightarrow> GFn (Some v, None) | Inl e \<Rightarrow> GLocal) (s\<lparr>g_w := w\<rparr>))"
| g_local: "g_gets s i = Some (k, GLocal) \<Longrightarrow> getter G k (g_w s) = Ret (r, w) \<Longrightarrow>
    g_step G s (at i k (case r of Inl e \<Rightarrow> GFn (Some (ByteView []), Some e) | Inr bs \<Rightarrow> GAdd (ByteView (cloneBytes bs)))
      (s\<lparr>g_w := w\<rparr>))"
| g_add: "g_gets s i = Some (k, GAdd v) \<Longrightarrow> cache_add (g_cache s) k v = Some c \<Longrightarrow>
    g_step G s (at i k (GFn (Some v, None)) (s\<lparr>g_cache := c\<rparr>))"
| g_fn: "g_gets s i = Some (k, GFn r) \<Longrightarrow> sf_procs (g_flight s) i = Some (k, Running c) \<Longrightarrow>
    g_step G s (at i k GDo (s\<lparr>g_flight := fn_stored i k c r (g_flight s)\<rparr>))"
| g_panic: "g_gets s i = Some (k, p) \<Longrightarrow> sf_procs (g_flight s) i = Some (k, Running c) \<Longrightarrow> fn_panics G k (g_w s) p \<Longrightarrow>
    g_step G s (at i k GPanic (s\<lparr>g_flight := goto i k (Panicked c) (g_flight s)\<rparr>))"
| g_return: "g_gets s i = Some (k, GDo) \<Longrightarrow> sf_procs (g_flight s) i = Some (k, Returned c r) \<Longrightarrow>
    g_step G s (at i k (load_result r) s)"

section \<open>The flight of the group is a flight\<close>

text \<open>Where the goroutine of a \<open>Get\<close> is in \<open>Do\<close>.\<close>

fun in_step :: "'w getting \<Rightarrow> 'v pc option \<Rightarrow> bool" where
  "in_step GLook q = (q = None)"
| "in_step GDo q = (\<exists>p. q = Some p \<and> (\<forall>c. p \<noteq> Panicked c))"
| "in_step (GRet r) q = (q = None \<or> (\<exists>c x. q = Some (Returned c x)))"
| "in_step GPanic q = (\<exists>p. q = Some p)"
| "in_step _ q = (\<exists>c. q = Some (Running c))"

fun joined_one :: "(string \<times> 'w getting) option \<Rightarrow> (string \<times> 'v pc) option \<Rightarrow> bool" where
  "joined_one None y = (y = None)"
| "joined_one (Some (k, p)) y = ((\<forall>k' q. y = Some (k', q) \<longrightarrow> k' = k) \<and> in_step p (map_option snd y))"

definition joined :: "'w gsys \<Rightarrow> bool" where
  "joined s \<longleftrightarrow> (\<forall>i. joined_one (g_gets s i) (sf_procs (g_flight s) i))"

lemma joined_at: "joined s \<Longrightarrow> g_gets s i = Some (k, p) \<Longrightarrow> in_step p (map_option snd (sf_procs (g_flight s) i))"
  unfolding joined_def by (metis joined_one.simps(2))

lemma joined_key: "joined s \<Longrightarrow> g_gets s i = Some (k, p) \<Longrightarrow> sf_procs (g_flight s) i = Some (k', q) \<Longrightarrow> k' = k"
  unfolding joined_def by (metis joined_one.simps(2))

lemma joined_none: "joined s \<Longrightarrow> g_gets s i = None \<Longrightarrow> sf_procs (g_flight s) i = None"
  unfolding joined_def by (metis joined_one.simps(1))

text \<open>A step of one \<open>Get\<close> changes its own place only.\<close>

lemma joined_upd:
  assumes "joined s" "g_gets t = (g_gets s)(i \<mapsto> (k, p))" "\<And>j. j \<noteq> i \<Longrightarrow> sf_procs (g_flight t) j = sf_procs (g_flight s) j"
    and "\<And>k' q. sf_procs (g_flight t) i = Some (k', q) \<Longrightarrow> k' = k" "in_step p (map_option snd (sf_procs (g_flight t) i))"
  shows "joined t"
  unfolding joined_def
proof
  fix j
  show "joined_one (g_gets t j) (sf_procs (g_flight t) j)"
  proof (cases "j = i")
    case False
    then have "g_gets t j = g_gets s j" "sf_procs (g_flight t) j = sf_procs (g_flight s) j" using assms(2,3) by simp_all
    with assms(1) show ?thesis unfolding joined_def by metis
  qed (use assms in auto)
qed

text \<open>What can happen to a goroutine in \<open>Do\<close> while its function does not run.\<close>

definition moves_to :: "'v pc \<Rightarrow> 'v pc \<Rightarrow> bool" where
  "moves_to q q' \<longleftrightarrow> q' = q \<or> (\<forall>c r. q \<noteq> Returned c r \<and> q \<noteq> Running c \<and> q' \<noteq> Panicked c)"

lemma sf_sync_frame:
  assumes "sf_sync f f'"
  shows "sf_procs f j = None \<Longrightarrow> sf_procs f' j = None"
    "sf_procs f j = Some (k, q) \<Longrightarrow> \<exists>q'. sf_procs f' j = Some (k, q') \<and> moves_to q q'"
proof -
  have s: "sf_step f f'" and d: "dom (sf_procs f') = dom (sf_procs f)"
    and r: "\<And>j k c. sf_procs f j = Some (k, Running c) \<Longrightarrow> sf_procs f' j = sf_procs f j"
    using assms by (auto simp: sf_sync_def)
  show "sf_procs f j = None \<Longrightarrow> sf_procs f' j = None" using d by (metis domIff)
  assume j: "sf_procs f j = Some (k, q)"
  from s show "\<exists>q'. sf_procs f' j = Some (k, q') \<and> moves_to q q'"
  proof cases
    case (finish i k' c v e)
    from r [OF finish(2)] finish show ?thesis by simp
  next
    case (panic i k' c)
    from r [OF panic(2)] panic show ?thesis by simp
  qed (use j in \<open>auto simp: moves_to_def\<close>)
qed

lemma in_step_moves: "in_step p (Some q) \<Longrightarrow> moves_to q q' \<Longrightarrow> in_step p (Some q')"
  by (cases p) (auto simp: moves_to_def)

lemma joined_sync:
  fixes s :: "'w gsys"
  assumes "joined s" "sf_sync (g_flight s) f"
  shows "joined (s\<lparr>g_flight := f\<rparr>)"
proof -
  have "joined_one x (sf_procs f i)" if x: "joined_one x (sf_procs (g_flight s) i)" for i and x :: "(string \<times> 'w getting) option"
  proof (cases "sf_procs (g_flight s) i")
    case None
    with sf_sync_frame(1) [OF assms(2) this] x show ?thesis by simp
  next
    case (Some y)
    obtain k q where y: "y = (k, q)" by fastforce
    from sf_sync_frame(2) [OF assms(2) Some [unfolded y]] obtain q' where q': "sf_procs f i = Some (k, q')" "moves_to q q'" by blast
    show ?thesis
    proof (cases x)
      case (Some z)
      obtain k' p where z: "z = (k', p)" by fastforce
      from x \<open>sf_procs (g_flight s) i = Some y\<close> y Some z have "k' = k" "in_step p (Some q)" by simp_all
      with in_step_moves [OF this(2) q'(2)] q'(1) Some z show ?thesis by simp
    qed (use x Some y in simp)
  qed
  with assms(1) show ?thesis by (simp add: joined_def)
qed

lemma joined_step:
  assumes "g_step G s t" "joined s"
  shows "joined t"
  using assms
proof (induction rule: g_step.induct)
  case (g_call s i k)
  then show ?case using joined_none [OF g_call(2,1)] by (intro joined_upd [OF g_call(2)]) auto
next
  case (g_hit s i k c v)
  then show ?case using joined_at [OF g_hit(3,1)] by (intro joined_upd [OF g_hit(3)]) auto
next
  case (g_miss s i k c)
  then show ?case by (intro joined_upd [OF g_miss(3)]) auto
next
  case (g_sync s f)
  then show ?case by (rule joined_sync [rotated])
next
  case (g_begin s i k c p)
  then have "in_step p (Some (Running c :: ByteView pc))"
    by (auto simp: fn_begin_def bind_exec_Ret_iff split: option.splits if_splits)
  with g_begin show ?case by (intro joined_upd [OF g_begin(4)]) auto
next
  case (g_peer s i k f r w)
  then show ?case using joined_at [OF g_peer(3,1)] joined_key [OF g_peer(3,1)]
    by (intro joined_upd [OF g_peer(3)]) (auto split: sum.split)
next
  case (g_local s i k r w)
  then show ?case using joined_at [OF g_local(3,1)] joined_key [OF g_local(3,1)]
    by (intro joined_upd [OF g_local(3)]) (auto split: sum.split)
next
  case (g_add s i k v c)
  then show ?case using joined_at [OF g_add(3,1)] joined_key [OF g_add(3,1)] by (intro joined_upd [OF g_add(3)]) auto
next
  case (g_fn s i k r c)
  then show ?case by (intro joined_upd [OF g_fn(3)]) (auto simp: fn_stored_def)
next
  case (g_panic s i k p c)
  then show ?case by (intro joined_upd [OF g_panic(4)]) auto
next
  case (g_return s i k c r)
  then show ?case by (intro joined_upd [OF g_return(3)]) (auto simp: load_result_def split: option.split)
qed

text \<open>Every step is a step of \<open>Do\<close> or leaves it alone.\<close>

lemma g_step_flight:
  assumes "g_step G s t" "joined s"
  shows "sf_step (g_flight s) (g_flight t) \<or> g_flight t = g_flight s"
  using assms
proof (induction rule: g_step.induct)
  case (g_miss s i k c)
  then have "sf_procs (g_flight s) i = None" using joined_at [OF g_miss(3,1)] by simp
  from sf_step.enter [OF this, of k] show ?case by simp
next
  case (g_sync s f)
  then show ?case by (simp add: sf_sync_def)
next
  case (g_fn s i k r c)
  from sf_step.finish [OF g_fn(2), of "snd r" "fst r"] show ?case by (simp add: fn_stored_def)
next
  case (g_panic s i k p c)
  from sf_step.panic [OF g_panic(2)] show ?case by simp
qed simp_all

section \<open>What the callers get\<close>

text \<open>A result of the function of \<open>load\<close> that is the source's answer.\<close>

definition res_ok :: "(string \<Rightarrow> error + bytes) \<Rightarrow> string \<Rightarrow> ByteView result \<Rightarrow> bool" where
  "res_ok src k r \<longleftrightarrow> (case snd r of Some e \<Rightarrow> src k = Inl e | None \<Rightarrow> (\<exists>v. fst r = Some v \<and> src k = Inr (b v)))"

text \<open>A call whose function has returned has the source's answer.\<close>

definition results_ok :: "(string \<Rightarrow> error + bytes) \<Rightarrow> ByteView flight \<Rightarrow> bool" where
  "results_ok src f \<longleftrightarrow> (\<forall>k c. (k, c) \<in> set (sf_log f) \<longrightarrow>
     (\<forall>i k'. sf_procs f i \<noteq> Some (k', Running c) \<and> sf_procs f i \<noteq> Some (k', Panicked c)) \<longrightarrow>
     res_ok src k (Val (sf_calls f c), err (sf_calls f c)))"

fun phase_ok :: "(string \<Rightarrow> error + bytes) \<Rightarrow> 'w Group \<Rightarrow> string \<Rightarrow> 'w getting \<Rightarrow> bool" where
  "phase_ok src G k (GPeer f) = honest_peer src (name G) k f"
| "phase_ok src G k (GAdd v) = (src k = Inr (b v))"
| "phase_ok src G k (GFn r) = res_ok src k r"
| "phase_ok src G k (GRet r) = (r = answer src k)"
| "phase_ok src G k GPanic = False"
| "phase_ok src G k p = True"

definition g_inv :: "(string \<Rightarrow> error + bytes) \<Rightarrow> 'w Group \<Rightarrow> 'w gsys \<Rightarrow> bool" where
  [invs]: "g_inv src G s \<longleftrightarrow> agrees src (g_cache s) \<and> results_ok src (g_flight s) \<and>
     (\<forall>i k p. g_gets s i = Some (k, p) \<longrightarrow> phase_ok src G k p \<and> (k = '''' \<longrightarrow> (\<exists>r. p = GRet r)))"

definition keys_in :: "string set \<Rightarrow> 'w gsys \<Rightarrow> bool" where
  "keys_in K s \<longleftrightarrow> (\<forall>i k p. g_gets s i = Some (k, p) \<longrightarrow> k \<in> insert '''' K)"

lemma results_ok_cong:
  assumes "results_ok src f" "sf_log f' = sf_log f"
    and "\<And>c. Val (sf_calls f' c) = Val (sf_calls f c) \<and> err (sf_calls f' c) = err (sf_calls f c)"
    and "\<And>j k c. sf_procs f j = Some (k, Running c) \<or> sf_procs f j = Some (k, Panicked c) \<Longrightarrow>
      sf_procs f' j = Some (k, Running c) \<or> sf_procs f' j = Some (k, Panicked c)"
  shows "results_ok src f'"
  using assms unfolding results_ok_def by metis

lemma results_ok_sync:
  assumes "sf_sync f f'" "results_ok src f" "log_inv f"
  shows "results_ok src f'"
proof -
  have s: "sf_step f f'" using assms(1) by (simp add: sf_sync_def)
  have keep: "sf_procs f' j = Some (k, Running c) \<or> sf_procs f' j = Some (k, Panicked c)"
    if "sf_procs f j = Some (k, Running c) \<or> sf_procs f j = Some (k, Panicked c)" for j k c
    using that assms(1) panicked_stays [OF s] by (auto simp: sf_sync_def)
  from s show ?thesis
  proof cases
    case (lead i k c)
    have new: "x < c" if "(k', x) \<in> set (sf_log f)" for k' x using that assms(3) lead(4) by (auto simp: log_inv_def)
    show ?thesis unfolding results_ok_def
    proof (intro allI impI)
      fix k' c' assume log: "(k', c') \<in> set (sf_log f')"
        and no: "\<forall>j k. sf_procs f' j \<noteq> Some (k, Running c') \<and> sf_procs f' j \<noteq> Some (k, Panicked c')"
      have "c' \<noteq> c" using spec [OF no, of i] lead(1) by auto
      then have "(k', c') \<in> set (sf_log f)" using log lead(1) by auto
      with assms(2) keep no have "res_ok src k' (Val (sf_calls f c'), err (sf_calls f c'))"
        unfolding results_ok_def by metis
      with \<open>c' \<noteq> c\<close> lead(1) show "res_ok src k' (Val (sf_calls f' c'), err (sf_calls f' c'))" by simp
    qed
  next
    case (finish i k c v e)
    with assms(1) have "sf_procs f' i = sf_procs f i" unfolding sf_sync_def by blast
    with finish show ?thesis by simp
  qed (rule results_ok_cong [OF assms(2) _ _ keep]; simp)+
qed

lemma results_ok_stored:
  assumes "results_ok src f" "log_inv f" "sf_procs f i = Some (k, Running c)" "res_ok src k r"
  shows "results_ok src (fn_stored i k c r f)"
  unfolding results_ok_def
proof (intro allI impI)
  let ?f = "fn_stored i k c r f"
  fix k' c' assume log: "(k', c') \<in> set (sf_log ?f)"
    and no: "\<forall>j k. sf_procs ?f j \<noteq> Some (k, Running c') \<and> sf_procs ?f j \<noteq> Some (k, Panicked c')"
  have kc: "(k, c) \<in> set (sf_log f)" and d: "distinct (map snd (sf_log f))"
    using assms(2) view_at [of "sf_procs f", OF assms(3), of call_of] by (auto simp: log_inv_def)
  show "res_ok src k' (Val (sf_calls ?f c'), err (sf_calls ?f c'))"
  proof (cases "c' = c")
    case True
    have "(k', c') \<in> set (sf_log f)" using log by (simp add: fn_stored_def)
    with True kc d have "k' = k" by (metis (no_types, lifting) distinct_map inj_onD prod.inject snd_conv)
    with True assms(4) show ?thesis by (simp add: fn_stored_def)
  next
    case False
    then have "sf_procs f j \<noteq> Some (k'', Running c') \<and> sf_procs f j \<noteq> Some (k'', Panicked c')" for j k''
      using no assms(3) spec [OF no, of j] by (cases "j = i") (auto simp: fn_stored_def)
    with assms(1) log False show ?thesis by (simp add: results_ok_def fn_stored_def)
  qed
qed

text \<open>A caller that is done with \<open>Do\<close> has the result of a call whose function has returned.\<close>

lemma returned_ok:
  assumes "results_ok src f" "sf_inv f" "sf_procs f i = Some (k, Returned c r)"
  shows "res_ok src k r"
proof -
  have inv: "log_inv f" "result_inv f" using assms(2) by (simp_all add: sf_inv_def)
  have w: "wg (sf_calls f c) = 0" "r = (Val (sf_calls f c), err (sf_calls f c))" using returnedD [OF inv(2) assms(3)] by auto
  have log: "(k, c) \<in> set (sf_log f)"
    using inv(1) view_at [of "sf_procs f", OF assms(3), of call_of] by (auto simp: log_inv_def)
  have "sf_procs f j \<noteq> Some (k', Running c) \<and> sf_procs f j \<noteq> Some (k', Panicked c)" for j k'
  proof -
    have "view holds_up (sf_procs f) j \<noteq> Some (k', c)"
      using wg_held [OF inv(2) call_lt [OF inv(1) assms(3)], of c j k'] w(1) by auto
    then show ?thesis by (auto simp: view_at)
  qed
  with assms(1) log w(2) show ?thesis unfolding results_ok_def by metis
qed

lemma g_inv_upd:
  assumes "g_inv src G s" "g_gets t = (g_gets s)(i \<mapsto> (k, p))" "agrees src (g_cache t)" "results_ok src (g_flight t)"
    and "phase_ok src G k p" "k = '''' \<longrightarrow> (\<exists>r. p = GRet r)"
  shows "g_inv src G t"
  using assms by (auto simp: g_inv_def)

lemma fn_begin_ok:
  assumes "serves K src G" "k \<in> K"
  shows "\<exists>p. fn_begin G k = Ret p \<and> phase_ok src G k p"
proof (cases "peers G")
  case (Some pick)
  then obtain p ok where "pick k = Ret (p, ok)" "ok \<longrightarrow> (\<exists>f. p = Some f \<and> honest_peer src (name G) k f)"
    using assms unfolding serves_def by blast
  with Some show ?thesis by (auto simp: fn_begin_def)
qed (simp add: fn_begin_def)

lemma getFromPeer_ok:
  assumes "honest_peer src (name G) k f"
  shows "\<exists>r w'. getFromPeer G f k w = Ret (r, w') \<and> (\<forall>v. r = Inr v \<longrightarrow> src k = Inr (b v))"
proof -
  obtain e res w' where "f \<lparr>req_Group = name G, req_Key = k\<rparr> \<lparr>Value = []\<rparr> w = Ret ((e, res), w')" "e = None \<longrightarrow> src k = Inr (Value res)"
    using assms unfolding honest_peer_def by blast
  then show ?thesis by (auto simp: getFromPeer_def split: option.split)
qed

lemma no_panic:
  assumes "serves K src G" "k \<in> K" "phase_ok src G k p"
  shows "\<not> fn_panics G k w p"
proof (cases p)
  case GDo
  with fn_begin_ok [OF assms(1,2)] show ?thesis by auto
next
  case (GPeer f)
  with assms(3) getFromPeer_ok [of src G k f w] show ?thesis by auto
next
  case GLocal
  obtain w' where "getter G k w = Ret (src k, w')" using assms(1,2) unfolding serves_def by blast
  with GLocal show ?thesis by simp
qed simp_all

lemma g_inv_step:
  assumes "g_step G s t" "g_inv src G s" "joined s" "sf_inv (g_flight s)" "serves K src G" "keys_in K t"
  shows "g_inv src G t"
proof -
  have ph: "phase_ok src G k p" "k \<noteq> '''' \<or> (\<exists>r. p = GRet r)" if "g_gets s i = Some (k, p)" for i k p
    using that assms(2) by (auto simp: g_inv_def)
  have K: "k \<in> insert '''' K" if "g_gets t i = Some (k, p)" for i k p using that assms(6) by (auto simp: keys_in_def)
  have ok: "agrees src (g_cache s)" "results_ok src (g_flight s)" using assms(2) by (simp_all add: g_inv_def)
  have log: "log_inv (g_flight s)" using assms(4) by (simp add: sf_inv_def)
  from assms(1) show ?thesis
  proof cases
    case (g_call i k)
    show ?thesis by (rule g_inv_upd [OF assms(2)]) (use g_call ok in \<open>auto simp: answer_def\<close>)
  next
    case (g_hit i k c v)
    have co: "agrees src c" "src k = Inr (b v)"
      using gee.coherent_get [OF _ g_hit(3), of "\<lambda>k v. src k = Inr (b v)"] ok(1) by (auto simp: agrees_def)
    show ?thesis by (rule g_inv_upd [OF assms(2)]) (use g_hit ok co ph(2) [OF g_hit(2)] in \<open>auto simp: answer_def\<close>)
  next
    case (g_miss i k c)
    have co: "agrees src c" using gee.coherent_get [OF _ g_miss(3), of "\<lambda>k v. src k = Inr (b v)"] ok(1) by (auto simp: agrees_def)
    have "sf_procs (g_flight s) i = None" using joined_at [OF assms(3) g_miss(2)] by simp
    then have "results_ok src (goto i k Entering (g_flight s))" by (intro results_ok_cong [OF ok(2)]) auto
    with g_miss co ph(2) [OF g_miss(2)] show ?thesis by (intro g_inv_upd [OF assms(2)]) auto
  next
    case (g_sync f)
    with results_ok_sync [OF _ ok(2) log] assms(2) show ?thesis by (simp add: g_inv_def)
  next
    case (g_begin i k c p)
    have k: "k \<noteq> ''''" using ph(2) [OF g_begin(2)] by auto
    have "k \<in> K" using K [of i k p] g_begin(1) k by simp
    from fn_begin_ok [OF assms(5) this] g_begin k ok show ?thesis by (intro g_inv_upd [OF assms(2)]) auto
  next
    case (g_peer i k f r w)
    have "phase_ok src G k (case r of Inr v \<Rightarrow> GFn (Some v, None) | Inl e \<Rightarrow> GLocal)"
      using getFromPeer_ok [of src G k f "g_w s"] ph(1) [OF g_peer(2)] g_peer(3) by (auto simp: res_ok_def split: sum.split)
    with g_peer ok ph(2) [OF g_peer(2)] show ?thesis by (intro g_inv_upd [OF assms(2)]) auto
  next
    case (g_local i k r w)
    have k: "k \<noteq> ''''" using ph(2) [OF g_local(2)] by auto
    have "k \<in> K" using K [of i k] g_local(1) k by simp
    then obtain w' where "getter G k (g_w s) = Ret (src k, w')" using assms(5) unfolding serves_def by blast
    with g_local(3) have "r = src k" by simp
    then have "phase_ok src G k (case r of Inl e \<Rightarrow> GFn (Some (ByteView []), Some e) | Inr bs \<Rightarrow> GAdd (ByteView (cloneBytes bs)))"
      by (auto simp: res_ok_def split: sum.split)
    with g_local ok k show ?thesis by (intro g_inv_upd [OF assms(2)]) auto
  next
    case (g_add i k v c)
    have v: "src k = Inr (b v)" using ph(1) [OF g_add(2)] by simp
    have "agrees src c" using gee.coherent_add [of "\<lambda>k v. src k = Inr (b v)" "g_cache s" k v] ok(1) v g_add(3) by (auto simp: agrees_def)
    with v g_add ok ph(2) [OF g_add(2)] show ?thesis by (intro g_inv_upd [OF assms(2)]) (auto simp: res_ok_def)
  next
    case (g_fn i k r c)
    have "results_ok src (fn_stored i k c r (g_flight s))"
      using results_ok_stored [OF ok(2) log g_fn(3)] ph(1) [OF g_fn(2)] by simp
    with g_fn ok ph(2) [OF g_fn(2)] show ?thesis by (intro g_inv_upd [OF assms(2)]) auto
  next
    case (g_panic i k p c)
    have k: "k \<noteq> ''''" using ph(2) [OF g_panic(2)] g_panic(4) by auto
    have "k \<in> K" using K [of i k] g_panic(1) k by simp
    from no_panic [OF assms(5) this ph(1) [OF g_panic(2)]] g_panic(4) show ?thesis by simp
  next
    case (g_return i k c r)
    have k: "k \<noteq> ''''" using ph(2) [OF g_return(2)] by auto
    have "phase_ok src G k (load_result r)"
      using returned_ok [OF ok(2) assms(4) g_return(3)] k by (auto simp: res_ok_def load_result_def answer_def split: option.splits)
    with g_return ok k show ?thesis by (intro g_inv_upd [OF assms(2)]) auto
  qed
qed

lemma keys_in_step: "g_step G s t \<Longrightarrow> keys_in K t \<Longrightarrow> keys_in K s"
proof -
  assume s: "g_step G s t" and k: "keys_in K t"
  have "\<exists>p'. g_gets t i = Some (k, p')" if "g_gets s i = Some (k, p)" for i k p
    using s that by (induction rule: g_step.induct) auto
  with k show ?thesis unfolding keys_in_def by metis
qed

interpretation gc: inductive_invariant "\<lambda>s. s = g_start G w \<and> agrees src (mainCache G)" "g_step G"
  "\<lambda>s. joined s \<and> sf_inv (g_flight s) \<and> (serves K src G \<and> keys_in K s \<longrightarrow> g_inv src G s)" for G w K src
proof (unfold_locales, goal_cases)
  case (1 s)
  have "sf_inv (sf_start :: ByteView flight)" by (rule sf.Inv_init) (simp add: sf_init_def)
  with 1 show ?case by (auto simp: g_start_def joined_def g_inv_def results_ok_def)
next
  case (2 s t)
  then have "sf_inv (g_flight t)" using g_step_flight [OF 2(2)] sf.Inv_step by auto
  with 2 show ?case using joined_step [OF 2(2)] g_inv_step [OF 2(2)] keys_in_step [OF 2(2)] by blast
qed

section \<open>Every \<open>Get\<close> returns\<close>

fun get_weight :: "'w getting \<Rightarrow> nat" where
  "get_weight GLook = 100"
| "get_weight GDo = 6"
| "get_weight (GPeer f) = 5"
| "get_weight GLocal = 4"
| "get_weight (GAdd v) = 3"
| "get_weight (GFn r) = 2"
| "get_weight (GRet r) = 0"
| "get_weight GPanic = 0"

definition gets_weight :: "(nat \<Rightarrow> (string \<times> 'w getting) option) \<Rightarrow> nat" where
  "gets_weight P = (\<Sum>i \<in> dom P. get_weight (snd (the (P i))))"

definition g_weight :: "'w gsys \<Rightarrow> nat" where
  "g_weight s = gets_weight (g_gets s) + 10 * work (sf_procs (g_flight s))"

lemma sum_dom_upd:
  fixes h :: "'x \<Rightarrow> nat"
  assumes "finite (dom P)"
  shows "(\<Sum>j \<in> dom (P(i \<mapsto> y)). h (the ((P(i \<mapsto> y)) j))) + (case P i of None \<Rightarrow> 0 | Some x \<Rightarrow> h x) =
    (\<Sum>j \<in> dom P. h (the (P j))) + h y"
proof -
  have "(\<Sum>j \<in> dom (P(i \<mapsto> y)). h (the ((P(i \<mapsto> y)) j))) = h y + (\<Sum>j \<in> dom P - {i}. h (the (P j)))"
    using assms by (simp add: sum.insert_remove)
  moreover have "(\<Sum>j \<in> dom P. h (the (P j))) = (case P i of None \<Rightarrow> 0 | Some x \<Rightarrow> h x) + (\<Sum>j \<in> dom P - {i}. h (the (P j)))"
    using assms by (cases "P i") (auto simp: sum.remove [of "dom P" i] domIff)
  ultimately show ?thesis by simp
qed

lemma gets_weight_upd:
  assumes "finite (dom P)" "P i = Some (k, p)"
  shows "gets_weight (P(i \<mapsto> (k', p'))) + get_weight p = gets_weight P + get_weight p'"
  using sum_dom_upd [OF assms(1), of "\<lambda>x. get_weight (snd x)" i "(k', p')"] assms(2) by (simp add: gets_weight_def)

lemma work_upd:
  assumes "finite (dom P)"
  shows "work (P(i \<mapsto> (k, p))) + (case P i of None \<Rightarrow> 0 | Some x \<Rightarrow> rank (snd x)) = work P + rank p"
  using sum_dom_upd [OF assms, of "\<lambda>x. rank (snd x)" i "(k, p)"] by (simp add: work_def)

lemma sync_work:
  assumes "sf_sync f f'" "finite (dom (sf_procs f))"
  shows "work (sf_procs f') < work (sf_procs f)"
proof -
  have d: "dom (sf_procs f') = dom (sf_procs f)" and s: "sf_step f f'" using assms(1) by (simp_all add: sf_sync_def)
  from s show ?thesis
  proof cases
    case (enter i k)
    have "i \<in> dom (sf_procs f')" by (simp add: enter(1))
    with d enter(2) show ?thesis by auto
  qed (auto intro: work_less [OF assms(2)])
qed

text \<open>A step that is not a new call of \<open>Get\<close>.\<close>

definition get_step :: "'w Group \<Rightarrow> 'w gsys \<Rightarrow> 'w gsys \<Rightarrow> bool" where
  "get_step G s t \<longleftrightarrow> g_step G s t \<and> dom (g_gets t) = dom (g_gets s)"

lemma own_step:
  assumes "\<exists>t p'. g_step G s t \<and> g_gets t = (g_gets s)(i \<mapsto> (k, p'))" "g_gets s i = Some x"
  shows "\<exists>t. get_step G s t"
proof -
  from assms(1) obtain t p' where t: "g_step G s t" "g_gets t = (g_gets s)(i \<mapsto> (k, p'))" by blast
  then have "dom (g_gets t) = dom (g_gets s)" using assms(2) by auto
  with t(1) show ?thesis by (auto simp: get_step_def)
qed

lemma joined_dom: "joined s \<Longrightarrow> dom (sf_procs (g_flight s)) \<subseteq> dom (g_gets s)"
  using joined_none by fastforce

lemma fn_begin_weight: "fn_begin G k = Ret p \<Longrightarrow> get_weight p < 6"
  by (auto simp: fn_begin_def bind_exec_Ret_iff split: option.splits if_splits)

lemma g_weight_step:
  fixes s :: "'w gsys"
  assumes "get_step G s t" "joined s" "finite (dom (g_gets s))"
  shows "g_weight t < g_weight s"
proof -
  have fp: "finite (dom (sf_procs (g_flight s)))" using joined_dom [OF assms(2)] assms(3) finite_subset by blast
  have s: "g_step G s t" and d: "dom (g_gets t) = dom (g_gets s)" using assms(1) by (simp_all add: get_step_def)
  note gu = gets_weight_upd [OF assms(3)] and wu = work_upd [OF fp]
  from s show ?thesis
  proof cases
    case (g_call i k)
    have "i \<in> dom (g_gets t)" by (simp add: g_call(1))
    with d g_call(2) show ?thesis by auto
  next
    case (g_hit i k c v)
    with gu [OF g_hit(2), of k "GRet (Inr v)"] show ?thesis by (simp add: g_weight_def)
  next
    case (g_miss i k c)
    have "sf_procs (g_flight s) i = None" using joined_at [OF assms(2) g_miss(2)] by simp
    with g_miss gu [OF g_miss(2), of k GDo] wu [of i k Entering] show ?thesis by (simp add: g_weight_def)
  next
    case (g_sync f)
    with sync_work [OF g_sync(2) fp] show ?thesis by (simp add: g_weight_def)
  next
    case (g_begin i k c p)
    with gu [OF g_begin(2), of k p] fn_begin_weight [OF g_begin(4)] show ?thesis by (simp add: g_weight_def)
  next
    case (g_peer i k f r w)
    have "get_weight ((case r of Inr v \<Rightarrow> GFn (Some v, None) | Inl e \<Rightarrow> GLocal) :: 'w getting) < 5" by (simp split: sum.split)
    with g_peer gu [OF g_peer(2), of k "case r of Inr v \<Rightarrow> GFn (Some v, None) | Inl e \<Rightarrow> GLocal"] show ?thesis
      by (simp add: g_weight_def)
  next
    case (g_local i k r w)
    have "get_weight ((case r of Inl e \<Rightarrow> GFn (Some (ByteView []), Some e) | Inr bs \<Rightarrow> GAdd (ByteView (cloneBytes bs))) :: 'w getting) < 4"
      by (simp split: sum.split)
    with g_local gu [OF g_local(2), of k "case r of Inl e \<Rightarrow> GFn (Some (ByteView []), Some e) | Inr bs \<Rightarrow> GAdd (ByteView (cloneBytes bs))"]
    show ?thesis by (simp add: g_weight_def)
  next
    case (g_add i k v c)
    with gu [OF g_add(2), of k "GFn (Some v, None)"] show ?thesis by (simp add: g_weight_def)
  next
    case (g_fn i k r c)
    with gu [OF g_fn(2), of k GDo] wu [of i k "Stored c"] show ?thesis by (simp add: g_weight_def fn_stored_def)
  next
    case (g_panic i k p c)
    with gu [OF g_panic(2), of k GPanic] wu [of i k "Panicked c"] show ?thesis by (simp add: g_weight_def)
  next
    case (g_return i k c r)
    have "get_weight (load_result r :: 'w getting) = 0" by (simp add: load_result_def split: option.split)
    with g_return gu [OF g_return(2), of k "load_result r"] show ?thesis by (simp add: g_weight_def)
  qed
qed

lemma finite_gets_step: "g_step G s t \<Longrightarrow> finite (dom (g_gets s)) \<Longrightarrow> finite (dom (g_gets t))"
  by (induction rule: g_step.induct) auto

lemma finite_gets: "reach (\<lambda>s. s = g_start G w) (g_step G) s \<Longrightarrow> finite (dom (g_gets s))"
  by (induction rule: reach.induct) (auto simp: g_start_def intro: finite_gets_step)

text \<open>A \<open>Get\<close> in the function of \<open>load\<close> can go on.\<close>

lemma in_fn_moves:
  assumes "g_inv src G s" "joined s" "serves K src G" "keys_in K s"
    and p: "g_gets s i = Some (k, p)" and q: "sf_procs (g_flight s) i = Some (k, Running c)"
  shows "\<exists>t. get_step G s t"
proof -
  have ok: "phase_ok src G k p" "k = '''' \<longrightarrow> (\<exists>r. p = GRet r)" using assms(1) p by (auto simp: g_inv_def)
  have k: "k \<in> K" if "\<nexists>r. p = GRet r" using that ok(2) assms(4) p by (auto simp: keys_in_def)
  note st = joined_at [OF assms(2) p]
  have "\<exists>t p'. g_step G s t \<and> g_gets t = (g_gets s)(i \<mapsto> (k, p'))"
  proof (cases p)
    case GDo
    with fn_begin_ok [OF assms(3) k] obtain p' where "fn_begin G k = Ret p'" by auto
    from g_begin [OF p [unfolded GDo] q this] show ?thesis by force
  next
    case (GPeer f)
    with ok(1) getFromPeer_ok [of src G k f "g_w s"] obtain r w' where "getFromPeer G f k (g_w s) = Ret (r, w')" by auto
    from g_peer [OF p [unfolded GPeer] this] show ?thesis by force
  next
    case GLocal
    with k obtain w' where "getter G k (g_w s) = Ret (src k, w')" using assms(3) unfolding serves_def by blast
    from g_local [OF p [unfolded GLocal] this] show ?thesis by force
  next
    case (GAdd v)
    with ok(1) gee.coherent_add [of "\<lambda>k v. src k = Inr (b v)" "g_cache s" k v] assms(1)
    obtain c where "cache_add (g_cache s) k v = Some c" by (auto simp: g_inv_def agrees_def)
    from g_add [OF p [unfolded GAdd] this] show ?thesis by force
  next
    case (GFn r)
    from g_fn [OF p [unfolded GFn] q] show ?thesis by force
  qed (use st q ok(1) in auto)
  from own_step [OF this p] show ?thesis .
qed

lemma get_moves:
  assumes "g_inv src G s" "joined s" "sf_inv (g_flight s)" "finite (dom (g_gets s))" "serves K src G" "keys_in K s"
    and p: "g_gets s i = Some (k, p)" "\<nexists>r. p = GRet r"
  shows "\<exists>t. get_step G s t"
proof (rule ccontr)
  assume stuck: "\<nexists>t. get_step G s t"
  have nr: "sf_procs (g_flight s) j \<noteq> Some (k', Running c)" for j k' c
  proof
    assume j: "sf_procs (g_flight s) j = Some (k', Running c)"
    then obtain x where "g_gets s j = Some x" using joined_none [OF assms(2), of j] by fastforce
    then obtain p' where "g_gets s j = Some (k', p')" using joined_key [OF assms(2) _ j] by (cases x) auto
    from in_fn_moves [OF assms(1,2,5,6) this j] stuck show False by blast
  qed
  have np: "sf_procs (g_flight s) j \<noteq> Some (k', Panicked c)" for j k' c
  proof
    assume j: "sf_procs (g_flight s) j = Some (k', Panicked c)"
    then obtain x where "g_gets s j = Some x" using joined_none [OF assms(2), of j] by fastforce
    then obtain p' where p': "g_gets s j = Some (k', p')" using joined_key [OF assms(2) _ j] by (cases x) auto
    with joined_at [OF assms(2) p'] assms(1) j show False by (cases p') (force simp: g_inv_def)+
  qed
  have "p = GLook \<or> p = GDo" using joined_at [OF assms(2) p(1)] nr p assms(1) by (cases p) (force simp: g_inv_def)+
  then show False
  proof
    assume "p = GLook"
    obtain c r where "cache_get (g_cache s) k = (c, r)" by fastforce
    with g_hit [of s i k c _ G] g_miss [of s i k c G] p(1) \<open>p = GLook\<close> have "\<exists>t p'. g_step G s t \<and> g_gets t = (g_gets s)(i \<mapsto> (k, p'))"
      by (cases r) force+
    from own_step [OF this p(1)] stuck show False by blast
  next
    assume "p = GDo"
    with joined_at [OF assms(2) p(1)] joined_key [OF assms(2) p(1)] obtain q where q: "sf_procs (g_flight s) i = Some (k, q)" by force
    show False
    proof (cases "\<exists>c r. q = Returned c r")
      case True
      with g_return [of s i k _ _ G] p(1) q \<open>p = GDo\<close> have "\<exists>t p'. g_step G s t \<and> g_gets t = (g_gets s)(i \<mapsto> (k, p'))" by force
      from own_step [OF this p(1)] stuck show False by blast
    next
      case False
      have "calm (g_flight s)" using np joined_dom [OF assms(2)] assms(4) finite_subset by (auto simp: calm_def)
      from someone_moves [OF assms(3) this q] False obtain f where "sf_step (g_flight s) f" "dom (sf_procs f) = dom (sf_procs (g_flight s))" by blast
      with nr have "sf_sync (g_flight s) f" by (simp add: sf_sync_def)
      from g_sync [OF this, of G] stuck show False by (auto simp: get_step_def)
    qed
  qed
qed

lemma gc_reach:
  assumes "reach (\<lambda>s. s = g_start G w) (g_step G) s" "agrees src (mainCache G)"
  shows "joined s" "sf_inv (g_flight s)" "serves K src G \<Longrightarrow> keys_in K s \<Longrightarrow> g_inv src G s"
proof -
  have "reach (\<lambda>s. s = g_start G w \<and> agrees src (mainCache G)) (g_step G) s" using assms by simp
  from gc.reach_Inv [OF this, of K] show "joined s" "sf_inv (g_flight s)" "serves K src G \<Longrightarrow> keys_in K s \<Longrightarrow> g_inv src G s" by blast+
qed

lemma new_group_agrees:
  assumes "NewGroup n bytes (Some f) groups = Ret (g0, groups')" "RegisterPeers g0 ps = Ret G" "0 \<le> sint bytes"
  shows "agrees src (mainCache G)"
  using new_group_ok [OF assms, of src] by (simp add: group_ok_def)

text \<open>A goroutine that asks for the value of its key.\<close>

fun loading :: "'w getting \<Rightarrow> bool" where
  "loading (GPeer f) = True"
| "loading GLocal = True"
| "loading (GAdd v) = True"
| "loading (GFn r) = True"
| "loading p = False"

lemma loading_runs:
  assumes "joined s" "g_gets s i = Some (k, p)" "loading p"
  shows "\<exists>c. sf_procs (g_flight s) i = Some (k, Running c)"
  using joined_at [OF assms(1,2)] joined_key [OF assms(1,2)] assms(3) by (cases p) fastforce+

lemma keys_in_UNIV [simp]: "keys_in UNIV s"
  by (simp add: keys_in_def)

lemma get_keeps_key: "g_step G s t \<Longrightarrow> g_gets s i = Some (k, p) \<Longrightarrow> \<exists>p'. g_gets t i = Some (k, p')"
  by (induction rule: g_step.induct) (auto split: if_splits)

lemma get_steps_end:
  assumes "agrees src (mainCache G)"
  shows "wfp (\<lambda>t s. reach (\<lambda>s. s = g_start G w) (g_step G) s \<and> get_step G s t)"
proof (rule wfp_if_convertible_to_nat [of _ g_weight])
  fix s t assume "reach (\<lambda>s. s = g_start G w) (g_step G) t \<and> get_step G t s"
  then have t: "reach (\<lambda>s. s = g_start G w) (g_step G) t" and st: "get_step G t s" by simp_all
  from g_weight_step [OF st gc_reach(1) [OF t assms] finite_gets [OF t]] show "g_weight s < g_weight t" .
qed

lemma stuck_returned:
  assumes "agrees src (mainCache G)" "serves K src G" "reach (\<lambda>s. s = g_start G w) (g_step G) s" "keys_in K s"
    and "\<nexists>t. get_step G s t" "g_gets s i = Some (k, p)"
  shows "p = GRet (answer src k)"
proof -
  note inv = gc_reach [OF assms(3,1)]
  have g: "g_inv src G s" by (rule inv(3) [OF assms(2,4)])
  have "\<exists>r. p = GRet r"
    using get_moves [OF g inv(1,2) finite_gets [OF assms(3)] assms(2,4,6)] assms(5) by blast
  with g assms(6) show ?thesis by (force simp: g_inv_def)
qed

text \<open>The goroutines of a group whose source answers for every key can come to their ends.\<close>

lemma get_returns:
  assumes "agrees src (mainCache G)" "serves UNIV src G" "reach (\<lambda>s. s = g_start G w) (g_step G) s" "g_gets s i = Some (k, p)"
  shows "\<exists>t r. reach (\<lambda>s. s = g_start G w) (g_step G) t \<and> g_gets t i = Some (k, GRet r)"
proof -
  let ?P = "\<lambda>s. reach (\<lambda>s. s = g_start G w) (g_step G) s \<and> (\<exists>p. g_gets s i = Some (k, p))"
  have "wfp (\<lambda>t s. ?P s \<and> get_step G s t)" by (rule wfp_subset [OF get_steps_end [OF assms(1)]]) auto
  moreover have "?P t" if "?P s" "get_step G s t" for s t
    using that reach_step [of "\<lambda>s. s = g_start G w" "g_step G"] get_keeps_key [of G s t i k] by (auto simp: get_step_def)
  ultimately obtain t p' where "reach (\<lambda>s. s = g_start G w) (g_step G) t" "g_gets t i = Some (k, p')" "\<nexists>u. get_step G t u"
    using wfp_stops [of ?P "get_step G" s] assms(3,4) by blast
  then show ?thesis using stuck_returned [OF assms(1,2)] by fastforce
qed

section \<open>A Get alone is the sequential Get\<close>

lemma sf_syncI:
  assumes "sf_step f f'" "sf_procs f i = Some (k, p)" "\<And>c. p \<noteq> Running c" "sf_procs f' = (sf_procs f)(i \<mapsto> (k, q))"
  shows "sf_sync f f'"
  using assms by (auto simp: sf_sync_def)

text \<open>With nobody else in \<open>Do\<close> for its key, a goroutine comes to run its function.\<close>

lemma leads_alone:
  assumes "sf_procs (g_flight s) i = Some (k, Entering)" "sf_mu (g_flight s) = None" "made (sf_m (g_flight s)) k = None"
  shows "\<exists>f c. (g_step G)\<^sup>*\<^sup>* s (s\<lparr>g_flight := f\<rparr>) \<and> sf_procs f = (sf_procs (g_flight s))(i \<mapsto> (k, Running c)) \<and>
    sf_m f = Some ((made (sf_m (g_flight s)))(k \<mapsto> c)) \<and> sf_mu f = None"
proof -
  define f0 f1 where "f0 = g_flight s" and "f1 = goto i k Checking (f0\<lparr>sf_mu := Some i\<rparr>)"
  have 1: "sf_sync f0 f1" using sf_step.lock [of f0 i k] assms(1,2)
    by (intro sf_syncI [of f0 f1 i k Entering Checking]) (simp_all add: f0_def f1_def)
  obtain f2 where f2: "sf_step f1 f2" "f2 = goto i k (Running (sf_next f1)) (f1\<lparr>sf_calls := (sf_calls f1)(sf_next f1 := new_call\<lparr>wg := 1\<rparr>),
      sf_next := Suc (sf_next f1), sf_m := Some ((made (sf_m f1))(k \<mapsto> sf_next f1)), sf_mu := None, sf_log := sf_log f1 @ [(k, sf_next f1)]\<rparr>)"
    using sf_step.lead [of f1 i k] assms(3) by (simp add: f0_def f1_def)
  have 2: "sf_sync f1 f2" by (rule sf_syncI [OF f2(1), of i k Checking "Running (sf_next f1)"]) (simp_all add: f1_def f2(2))
  have "g_step G s (s\<lparr>g_flight := f1\<rparr>)" using g_sync [of s f1 G] 1 by (simp add: f0_def)
  moreover have "g_step G (s\<lparr>g_flight := f1\<rparr>) (s\<lparr>g_flight := f2\<rparr>)" using g_sync [of "s\<lparr>g_flight := f1\<rparr>" f2 G] 2 by simp
  ultimately have "(g_step G)\<^sup>*\<^sup>* s (s\<lparr>g_flight := f2\<rparr>)" by (meson converse_rtranclp_into_rtranclp rtranclp.rtrancl_refl)
  moreover have "sf_procs f2 = (sf_procs f0)(i \<mapsto> (k, Running (sf_next f0)))" "sf_m f2 = Some ((made (sf_m f0))(k \<mapsto> sf_next f0))" "sf_mu f2 = None"
    by (simp_all add: f2(2) f1_def)
  ultimately show ?thesis by (intro exI [of _ f2] exI [of _ "sf_next f0"]) (simp add: f0_def)
qed

text \<open>The result of the function of \<open>load\<close> as \<open>Do\<close> takes it.\<close>

fun fn_value :: "error + ByteView \<Rightarrow> ByteView result" where
  "fn_value (Inr v) = (Some v, None)"
| "fn_value (Inl e) = (Some (ByteView []), Some e)"

lemma load_result_fn_value [simp]: "load_result (fn_value r) = GRet r"
  by (cases r) (simp_all add: load_result_def)

lemma local_alone:
  assumes "g_gets s i = Some (k, GLocal)" "getLocally (G\<lparr>mainCache := g_cache s, loader := L\<rparr>) k (g_w s) = Ret (G', r, w)"
  shows "(g_step G)\<^sup>*\<^sup>* s (at i k (GFn (fn_value r)) (s\<lparr>g_w := w, g_cache := mainCache G'\<rparr>))"
proof -
  obtain x w' where x': "getter G k (g_w s) = Ret (x, w')" using assms(2) by (auto simp: getLocally_def bind_exec_Ret_iff)
  with assms(2) have "w' = w" by (cases x) (auto simp: group_defs bind_exec_Ret_iff)
  with x' have x: "getter G k (g_w s) = Ret (x, w)" by simp
  note local = g_local [OF assms(1) x]
  show ?thesis
  proof (cases x)
    case (Inl e)
    with assms(2) x have "r = Inl e" "mainCache G' = g_cache s" by (auto simp: group_defs)
    with local Inl show ?thesis by simp
  next
    case (Inr bs)
    let ?s = "at i k (GAdd (ByteView (cloneBytes bs))) (s\<lparr>g_w := w\<rparr>)"
    from assms(2) x Inr obtain c where c: "cache_add (g_cache s) k (ByteView (cloneBytes bs)) = Some c"
      "r = Inr (ByteView (cloneBytes bs))" "mainCache G' = c" by (auto simp: group_defs bind_exec_Ret_iff split: option.splits)
    from g_add [of ?s i k "ByteView (cloneBytes bs)" c G] c(1)
    have "g_step G ?s (at i k (GFn (fn_value r)) (s\<lparr>g_w := w, g_cache := c\<rparr>))" by (simp add: c(2))
    with local Inr c(3) show ?thesis by (simp add: converse_rtranclp_into_rtranclp)
  qed
qed

lemma load_fn_begins:
  "load_fn g k w = bind_exec (fn_begin g k) (\<lambda>p. case p of
     GPeer f \<Rightarrow> bind_exec (getFromPeer g f k w) (\<lambda>(r, w'). case r of Inr v \<Rightarrow> Ret (g, Inr v, w') | Inl e \<Rightarrow> getLocally g k w')
   | _ \<Rightarrow> getLocally g k w)"
proof (cases "peers g")
  case (Some pick)
  then show ?thesis by (cases "pick k") (auto simp: load_fn_def fn_begin_def split: option.split)
qed (simp add: load_fn_def fn_begin_def)

lemma fn_begin_asks: "fn_begin G k = Ret p \<Longrightarrow> p = GLocal \<or> (\<exists>f. p = GPeer f)"
  by (auto simp: fn_begin_def bind_exec_Ret_iff split: option.splits if_splits)

lemma fn_alone:
  assumes "g_gets s i = Some (k, GDo)" "sf_procs (g_flight s) i = Some (k, Running c)"
    and "load_fn (G\<lparr>mainCache := g_cache s, loader := L\<rparr>) k (g_w s) = Ret (G', r, w)"
  shows "(g_step G)\<^sup>*\<^sup>* s (at i k (GFn (fn_value r)) (s\<lparr>g_w := w, g_cache := mainCache G'\<rparr>))"
proof -
  let ?G = "G\<lparr>mainCache := g_cache s, loader := L\<rparr>"
  have "fn_begin ?G k = fn_begin G k" by (simp add: fn_begin_def)
  with assms(3) obtain p where p: "fn_begin G k = Ret p" "(case p of
      GPeer f \<Rightarrow> bind_exec (getFromPeer ?G f k (g_w s)) (\<lambda>(r, w'). case r of Inr v \<Rightarrow> Ret (?G, Inr v, w') | Inl e \<Rightarrow> getLocally ?G k w')
    | _ \<Rightarrow> getLocally ?G k (g_w s)) = Ret (G', r, w)"
    unfolding load_fn_begins by (auto simp: bind_exec_Ret_iff)
  note asks = g_begin [OF assms(1,2) p(1)]
  from fn_begin_asks [OF p(1)] show ?thesis
  proof (elim disjE exE)
    assume "p = GLocal"
    with p(2) local_alone [of "at i k GLocal s" i k L G G' r w] asks show ?thesis by (simp add: converse_rtranclp_into_rtranclp)
  next
    fix f assume f: "p = GPeer f"
    with p(2) obtain x w' where f2: "getFromPeer ?G f k (g_w s) = Ret (x, w')"
      and x: "(case x of Inr v \<Rightarrow> Ret (?G, Inr v, w') | Inl e \<Rightarrow> getLocally ?G k w') = Ret (G', r, w)"
      by (auto simp: bind_exec_Ret_iff)
    from f2 have "getFromPeer G f k (g_w s) = Ret (x, w')" by (simp add: getFromPeer_def)
    with g_peer [of "at i k (GPeer f) s" i k f G x w']
    have peer: "g_step G (at i k (GPeer f) s) (at i k (case x of Inr v \<Rightarrow> GFn (Some v, None) | Inl e \<Rightarrow> GLocal) (s\<lparr>g_w := w'\<rparr>))" by simp
    show ?thesis
    proof (cases x)
      case (Inl e)
      with x local_alone [of "at i k GLocal (s\<lparr>g_w := w'\<rparr>)" i k L G G' r w]
      have "(g_step G)\<^sup>*\<^sup>* (at i k GLocal (s\<lparr>g_w := w'\<rparr>)) (at i k (GFn (fn_value r)) (s\<lparr>g_w := w, g_cache := mainCache G'\<rparr>))" by simp
      with asks f peer Inl show ?thesis by (simp add: converse_rtranclp_into_rtranclp)
    next
      case (Inr v)
      with x have "r = Inr v" "w' = w" "mainCache G' = g_cache s" by auto
      with asks f peer Inr show ?thesis by (simp add: converse_rtranclp_into_rtranclp)
    qed
  qed
qed

text \<open>A goroutine whose function has its result returns it.\<close>

lemma ends_alone:
  fixes s :: "'w gsys"
  assumes "g_gets s i = Some (k, GFn x)" "sf_procs (g_flight s) i = Some (k, Running c)" "sf_mu (g_flight s) = None"
  shows "\<exists>f. (g_step G)\<^sup>*\<^sup>* s (at i k (load_result x) (s\<lparr>g_flight := f\<rparr>)) \<and>
    sf_procs f = (sf_procs (g_flight s))(i \<mapsto> (k, Returned c x)) \<and>
    sf_m f = map_option (\<lambda>m. m(k := None)) (sf_m (g_flight s)) \<and> sf_mu f = None"
proof -
  define f1 where "f1 = fn_stored i k c x (g_flight s)"
  define f2 where "f2 = goto i k (Signalled c) (f1\<lparr>sf_calls := (sf_calls f1)(c := (sf_calls f1 c)\<lparr>wg := wg (sf_calls f1 c) - 1\<rparr>)\<rparr>)"
  define f3 where "f3 = goto i k (Removing c) (f2\<lparr>sf_mu := Some i\<rparr>)"
  define f4 where "f4 = goto i k (Returned c x) (f3\<lparr>sf_m := map_option (\<lambda>m. m(k := None)) (sf_m f3), sf_mu := None\<rparr>)"
  have x: "(Val (sf_calls f3 c), err (sf_calls f3 c)) = x" by (simp add: f3_def f2_def f1_def fn_stored_def)
  have 2: "sf_sync f1 f2" using sf_step.signal [of f1 i k c]
    by (intro sf_syncI [of f1 f2 i k "Stored c" "Signalled c"]) (simp_all add: f1_def f2_def fn_stored_def)
  have 3: "sf_sync f2 f3" using sf_step.relock [of f2 i k c] assms(3)
    by (intro sf_syncI [of f2 f3 i k "Signalled c" "Removing c"]) (simp_all add: f1_def f2_def f3_def fn_stored_def)
  have 4: "sf_sync f3 f4" using sf_step.remove [of f3 i k c] unfolding x
    by (intro sf_syncI [of f3 f4 i k "Removing c" "Returned c x"]) (simp_all add: f3_def f4_def)
  let ?s = "\<lambda>f. at i k GDo (s\<lparr>g_flight := f\<rparr>)"
  have comm: "u\<lparr>g_flight := f, g_gets := x\<rparr> = u\<lparr>g_gets := x, g_flight := f\<rparr>" for u :: "'w gsys" and f x by simp
  have "(g_step G)\<^sup>*\<^sup>* s (?s f1)" using g_fn [OF assms(1,2), of G] by (simp add: f1_def r_into_rtranclp)
  also have "(g_step G)\<^sup>*\<^sup>* (?s f1) (?s f2)" using g_sync [of "?s f1" f2 G] 2 by (simp add: comm r_into_rtranclp)
  also have "(g_step G)\<^sup>*\<^sup>* (?s f2) (?s f3)" using g_sync [of "?s f2" f3 G] 3 by (simp add: comm r_into_rtranclp)
  also have "(g_step G)\<^sup>*\<^sup>* (?s f3) (?s f4)" using g_sync [of "?s f3" f4 G] 4 by (simp add: comm r_into_rtranclp)
  also have "(g_step G)\<^sup>*\<^sup>* (?s f4) (at i k (load_result x) (s\<lparr>g_flight := f4\<rparr>))"
    using g_return [of "?s f4" i k c x G] by (simp add: f4_def r_into_rtranclp)
  finally show ?thesis by (intro exI [of _ f4]) (simp add: f4_def f3_def f2_def f1_def fn_stored_def)
qed

text \<open>A group of the scores of \<^const>\<open>db\<close>, and two goroutines that ask for the same key.\<close>

lemma db_group:
  "\<exists>g0 groups G. NewGroup ''scores'' 2048 (Some (\<lambda>k w. Ret (db k, w + 1))) Map.empty = Ret (g0, groups) \<and>
     RegisterPeers g0 None = Ret G \<and> serves UNIV db (G :: nat Group) \<and> peers G = None \<and>
     (\<forall>k. cache_get (mainCache G) k = (mainCache G, None))"
  by (simp add: NewGroup_def RegisterPeers_def serves_def Let_def cache_get_def)

lemma Get_called:
  assumes "reach (\<lambda>s. s = g_start G w) (g_step G) s" "g_gets s i = None" "k \<noteq> ''''"
  shows "reach (\<lambda>s. s = g_start G w) (g_step G) (at i k GLook s)"
  using reach_step [OF assms(1), of "at i k GLook s"] g_call [of s i G k] assms(2,3) by simp

lemma two_Gets:
  "\<exists>s. reach (\<lambda>s. s = g_start G w) (g_step G) s \<and> g_gets s = [0 \<mapsto> (''Tom'', GLook), 1 \<mapsto> (''Tom'', GLook)]"
proof -
  let ?s = "at 0 ''Tom'' GLook (g_start G w)" and ?R = "reach (\<lambda>s. s = g_start G w) (g_step G)"
  have "?R (g_start G w)" by (rule reach_init) simp
  then have "?R ?s" by (rule Get_called) (simp_all add: g_start_def)
  then have "?R (at 1 ''Tom'' GLook ?s)" by (rule Get_called) (simp_all add: g_start_def)
  then show ?thesis by (intro exI [of _ "at 1 ''Tom'' GLook ?s"]) (simp add: g_start_def)
qed

lemma synced:
  assumes "reach (\<lambda>s. s = g_start G w) (g_step G) s" "sf_step (g_flight s) f"
    and "sf_procs (g_flight s) = [i \<mapsto> (k, p)]" "sf_procs f = [i \<mapsto> (k, q)]" "\<And>c. p \<noteq> Running c"
  shows "reach (\<lambda>s. s = g_start G w) (g_step G) (s\<lparr>g_flight := f\<rparr>)"
  using reach_step [OF assms(1), of "s\<lparr>g_flight := f\<rparr>"] g_sync [of s f G] assms(2-5) by (auto simp: sf_sync_def)

lemma first_load:
  assumes "peers G = None" "cache_get (mainCache G) k = (mainCache G, None)" "k \<noteq> ''''"
  shows "\<exists>s. reach (\<lambda>s. s = g_start G w) (g_step G) s \<and> g_gets s 0 = Some (k, GLocal)"
proof -
  let ?R = "reach (\<lambda>s. s = g_start G w) (g_step G)"
  define a where "a = at 0 k GLook (g_start G w)"
  define f where "f = goto 0 k Entering (sf_start :: ByteView flight)"
  define b where "b = at 0 k GDo (a\<lparr>g_cache := mainCache G, g_flight := f\<rparr>)"
  have "?R (g_start G w)" by (rule reach_init) simp
  then have "?R a" unfolding a_def by (rule Get_called) (use assms(3) in \<open>simp_all add: g_start_def\<close>)
  moreover have "g_step G a b" using g_miss [of a 0 k "mainCache G" G] assms(2) by (simp add: a_def b_def f_def g_start_def)
  ultimately have b: "?R b" by (rule reach_step)
  define f1 where "f1 = goto 0 k Checking (f\<lparr>sf_mu := Some 0\<rparr>)"
  have "?R (b\<lparr>g_flight := f1\<rparr>)" using sf_step.lock [of f 0 k]
    by (intro synced [OF b, of f1 0 k Entering Checking]) (simp_all add: b_def f1_def f_def)
  moreover obtain f2 c where f2: "sf_step f1 f2" "sf_procs f2 = [0 \<mapsto> (k, Running c)]"
    using sf_step.lead [of f1 0 k] by (fastforce simp: f1_def f_def made_def)
  ultimately have "?R (b\<lparr>g_flight := f2\<rparr>)"
    using synced [of G w "b\<lparr>g_flight := f1\<rparr>" f2 0 k Checking "Running c"] by (simp add: f1_def f_def)
  moreover have "g_step G (b\<lparr>g_flight := f2\<rparr>) (at 0 k GLocal (b\<lparr>g_flight := f2\<rparr>))"
    using f2(2) assms(1) by (intro g_begin) (simp_all add: b_def fn_begin_def)
  ultimately have "?R (at 0 k GLocal (b\<lparr>g_flight := f2\<rparr>))" by (rule reach_step)
  then show ?thesis by (intro exI [of _ "at 0 k GLocal (b\<lparr>g_flight := f2\<rparr>)"]) simp
qed

text \<open>The state of a goroutine that runs alone from \<open>s\<close>: nobody holds the mutex or is in flight for its key.\<close>

definition free_for :: "nat \<Rightarrow> string \<Rightarrow> 'w gsys \<Rightarrow> bool" where
  "free_for i k s \<longleftrightarrow> g_gets s i = None \<and> sf_procs (g_flight s) i = None \<and> sf_mu (g_flight s) = None \<and> made (sf_m (g_flight s)) k = None"

lemma load_alone:
  assumes "g_gets s i = Some (k, GDo)" "sf_procs (g_flight s) i = Some (k, Entering)" "sf_mu (g_flight s) = None"
    and "made (sf_m (g_flight s)) k = None" "group_load (G\<lparr>mainCache := g_cache s\<rparr>) k (g_w s) = Ret (G', r, w)"
  shows "\<exists>t. (g_step G)\<^sup>*\<^sup>* s t \<and> g_gets t = (g_gets s)(i \<mapsto> (k, GRet r)) \<and> g_cache t = mainCache G' \<and> g_w t = w \<and>
    sf_mu (g_flight t) = None \<and> made (sf_m (g_flight t)) = made (sf_m (g_flight s))"
proof -
  obtain f c where f: "(g_step G)\<^sup>*\<^sup>* s (s\<lparr>g_flight := f\<rparr>)" "sf_procs f = (sf_procs (g_flight s))(i \<mapsto> (k, Running c))"
      "sf_m f = Some ((made (sf_m (g_flight s)))(k \<mapsto> c))" "sf_mu f = None"
    using leads_alone [OF assms(2-4), of G] by (elim exE conjE) (rule that)
  let ?G = "\<lambda>L. G\<lparr>mainCache := g_cache s, loader := L\<rparr>"
  obtain L G2 where fn: "load_fn (?G L) k (g_w s) = Ret (G2, r, w)" "mainCache G2 = mainCache G'"
    using assms(5) by (auto simp: group_load_def bind_exec_Ret_iff split: if_splits)
  let ?u = "at i k (GFn (fn_value r)) (s\<lparr>g_flight := f, g_w := w, g_cache := mainCache G2\<rparr>)"
  note f(1)
  also have "(g_step G)\<^sup>*\<^sup>* (s\<lparr>g_flight := f\<rparr>) ?u"
    using fn_alone [of "s\<lparr>g_flight := f\<rparr>" i k c L G G2 r w] assms(1) f(2) fn(1) by simp
  also obtain f' where f': "(g_step G)\<^sup>*\<^sup>* ?u (at i k (load_result (fn_value r)) (?u\<lparr>g_flight := f'\<rparr>))"
      "sf_m f' = map_option (\<lambda>m. m(k := None)) (sf_m f)" "sf_mu f' = None"
    using ends_alone [of ?u i k "fn_value r" c G] f(2,4) by auto
  note f'(1)
  finally show ?thesis using f(3) f'(2,3) fn(2) assms(4)
    by (intro exI [of _ "at i k (load_result (fn_value r)) (?u\<lparr>g_flight := f'\<rparr>)"]) (auto simp: made_def)
qed

section \<open>Properties\<close>

text \<open>
  C25. A \<open>Get\<close> that nobody disturbs is the sequential \<open>Get\<close>: whatever \<open>Get\<close> returns as one sequential
  execution, from the cache, from a peer or from the getter, a goroutine that runs alone returns
  through the mutex, the map and the wait group of \<open>Do\<close>, with the same result, the same cache and
  the same calls of peer and getter, and it leaves \<open>Do\<close> as it found it.
\<close>

theorem group_Get_alone:
  assumes "free_for i k s" "group_Get (G\<lparr>mainCache := g_cache s\<rparr>) k (g_w s) = Ret (G', r, w)"
  shows "\<exists>t. (g_step G)\<^sup>*\<^sup>* s t \<and> g_gets t = (g_gets s)(i \<mapsto> (k, GRet r)) \<and> g_cache t = mainCache G' \<and> g_w t = w \<and>
    sf_mu (g_flight t) = None \<and> made (sf_m (g_flight t)) = made (sf_m (g_flight s))"
proof (cases "k = ''''")
  case True
  with g_call [of s i G k] assms have "g_step G s (at i k (GRet r) s)" "G' = G\<lparr>mainCache := g_cache s\<rparr>" "w = g_w s"
    by (auto simp: free_for_def group_Get_def)
  with assms(1) show ?thesis by (intro exI [of _ "at i k (GRet r) s"]) (auto simp: free_for_def)
next
  case False
  let ?a = "at i k GLook s"
  have call: "g_step G s ?a" using g_call [of s i G k] assms(1) False by (simp add: free_for_def)
  obtain c v where c: "cache_get (g_cache s) k = (c, v)" by fastforce
  show ?thesis
  proof (cases v)
    case (Some x)
    with assms(2) c False have "r = Inr x" "mainCache G' = c" "w = g_w s" by (auto simp: group_Get_def)
    moreover have "g_step G ?a (at i k (GRet (Inr x)) (?a\<lparr>g_cache := c\<rparr>))" using g_hit [of ?a i k c x G] c Some by simp
    ultimately show ?thesis using call assms(1)
      by (intro exI [of _ "at i k (GRet (Inr x)) (?a\<lparr>g_cache := c\<rparr>)"]) (auto simp: free_for_def converse_rtranclp_into_rtranclp)
  next
    case None
    let ?b = "at i k GDo (?a\<lparr>g_cache := c, g_flight := goto i k Entering (g_flight s)\<rparr>)"
    have "g_step G ?a ?b" using g_miss [of ?a i k c G] c None by simp
    with call have b: "(g_step G)\<^sup>*\<^sup>* s ?b" by (meson converse_rtranclp_into_rtranclp rtranclp.rtrancl_refl)
    have "group_load (G\<lparr>mainCache := c\<rparr>) k (g_w s) = Ret (G', r, w)" using assms(2) c None False by (simp add: group_Get_def)
    then obtain t where t: "(g_step G)\<^sup>*\<^sup>* ?b t" "g_gets t = (g_gets s)(i \<mapsto> (k, GRet r))" "g_cache t = mainCache G'" "g_w t = w"
        "sf_mu (g_flight t) = None" "made (sf_m (g_flight t)) = made (sf_m (g_flight s))"
      using load_alone [of ?b i k G G' r w] assms(1) by (auto simp: free_for_def)
    from rtranclp_trans [OF b t(1)] t(2-) show ?thesis by blast
  qed
qed

theorem group_Get_alone_witness:
  "\<exists>g0 groups G t. NewGroup ''scores'' 2048 (Some (\<lambda>k w. Ret (db k, w + 1))) Map.empty = Ret (g0, groups) \<and>
     RegisterPeers g0 None = Ret G \<and> (g_step G)\<^sup>*\<^sup>* (g_start G (0 :: nat)) t \<and>
     g_gets t = [5 \<mapsto> (''Jack'', GRet (Inr (ByteView (bytes_of ''589''))))] \<and> sf_mu (g_flight t) = None"
proof -
  obtain g0 groups and G :: "nat Group" where g: "NewGroup ''scores'' 2048 (Some (\<lambda>k w. Ret (db k, w + 1))) Map.empty = Ret (g0, groups)"
    "RegisterPeers g0 None = Ret G" "serves UNIV db G"
    using db_group by (elim exE conjE) (rule that)
  have "group_ok db G" by (rule new_group_ok [OF g(1,2)]) simp
  from group_Get_serves [OF g(3) this, of "''Jack''" 0] obtain G' w
    where "group_Get (G\<lparr>mainCache := g_cache (g_start G (0 :: nat))\<rparr>) ''Jack'' (g_w (g_start G 0)) = Ret (G', answer db ''Jack'', w)"
    by (auto simp: g_start_def)
  from group_Get_alone [OF _ this, of 5] g(1,2) show ?thesis
    by (auto simp: free_for_def g_start_def made_def answer_def db_def)
qed

text \<open>
  C9. A group is a transparent cache of its source, also under concurrency: whatever the
  interleaving of any number of goroutines in \<open>Get\<close>, with their lookups, flights, loads and
  evictions, every \<open>Get\<close> that returns has exactly what the source has for its key (the error of
  an unknown key and of the empty key included), and none panics.
\<close>

theorem group_serves_concurrently:
  assumes "NewGroup n bytes (Some f) groups = Ret (g0, groups')" "RegisterPeers g0 ps = Ret G" "0 \<le> sint bytes"
    and "serves K src G" "reach (\<lambda>s. s = g_start G w) (g_step G) s" "keys_in K s"
    and "g_gets s i = Some (k, p)"
  shows "p \<noteq> GPanic \<and> (\<forall>r. p = GRet r \<longrightarrow> r = answer src k)"
proof -
  have "g_inv src G s" using gc_reach [OF assms(5) new_group_agrees [OF assms(1-3)]] assms(4,6) by blast
  with assms(7) have "phase_ok src G k p" by (auto simp: g_inv_def)
  then show ?thesis by auto
qed

theorem group_serves_concurrently_witness:
  "\<exists>g0 groups G s. NewGroup ''scores'' 2048 (Some (\<lambda>k w. Ret (db k, w + 1))) Map.empty = Ret (g0, groups) \<and>
     RegisterPeers g0 None = Ret G \<and> reach (\<lambda>s. s = g_start G (0 :: nat)) (g_step G) s \<and>
     g_gets s 1 = Some (''Tom'', GRet (Inr (ByteView (bytes_of ''630''))))"
proof -
  obtain g0 groups and G :: "nat Group" where g: "NewGroup ''scores'' 2048 (Some (\<lambda>k w. Ret (db k, w + 1))) Map.empty = Ret (g0, groups)"
    "RegisterPeers g0 None = Ret G" "serves UNIV db G"
    using db_group by (elim exE conjE) (rule that)
  obtain s where "reach (\<lambda>s. s = g_start G (0 :: nat)) (g_step G) s" "g_gets s 1 = Some (''Tom'', GLook)" using two_Gets [of G 0] by auto
  from get_returns [OF new_group_agrees [OF g(1,2)] g(3) this] obtain t r
    where t: "reach (\<lambda>s. s = g_start G (0 :: nat)) (g_step G) t" "g_gets t 1 = Some (''Tom'', GRet r)" by auto
  with group_serves_concurrently [OF g(1,2) _ g(3) t(1) keys_in_UNIV t(2)] g show ?thesis by (auto simp: answer_def db_def)
qed

text \<open>
  C10. Every \<open>Get\<close> returns: with a source and peers that answer, and without new calls, the
  goroutines in \<open>Get\<close> cannot go on for ever, and they stop only when all of them have returned, so
  the mutex of the cache, the mutex of the flight and the wait groups never lock one another out.
\<close>

theorem group_Gets_return:
  assumes "NewGroup n bytes (Some f) groups = Ret (g0, groups')" "RegisterPeers g0 ps = Ret G" "0 \<le> sint bytes"
    and "serves K src G"
  shows "wfp (\<lambda>t s. reach (\<lambda>s. s = g_start G w) (g_step G) s \<and> get_step G s t) \<and>
    (\<forall>s i k p. reach (\<lambda>s. s = g_start G w) (g_step G) s \<and> keys_in K s \<and> (\<nexists>t. get_step G s t) \<and>
      g_gets s i = Some (k, p) \<longrightarrow> p = GRet (answer src k))"
proof (intro conjI allI impI; (elim conjE)?)
  note ag = new_group_agrees [OF assms(1-3)]
  show "wfp (\<lambda>t s. reach (\<lambda>s. s = g_start G w) (g_step G) s \<and> get_step G s t)" by (rule get_steps_end [OF ag])
qed (rule stuck_returned [OF new_group_agrees [OF assms(1-3)] assms(4)])

theorem group_Gets_return_witness:
  "\<exists>g0 groups G s. NewGroup ''scores'' 2048 (Some (\<lambda>k w. Ret (db k, w + 1))) Map.empty = Ret (g0, groups) \<and>
     RegisterPeers g0 None = Ret G \<and> reach (\<lambda>s. s = g_start G (0 :: nat)) (g_step G) s \<and>
     g_gets s 0 = Some (''Tom'', GRet (Inr (ByteView (bytes_of ''630''))))"
proof -
  obtain g0 groups and G :: "nat Group" where g: "NewGroup ''scores'' 2048 (Some (\<lambda>k w. Ret (db k, w + 1))) Map.empty = Ret (g0, groups)"
    "RegisterPeers g0 None = Ret G" "serves UNIV db G"
    using db_group by (elim exE conjE) (rule that)
  let ?R = "reach (\<lambda>s. s = g_start G (0 :: nat)) (g_step G)" and ?i = "\<lambda>s. \<exists>p. g_gets s 0 = Some (''Tom'', p)"
  note returns = group_Gets_return [OF g(1,2) _ g(3), of 0]
  have "wfp (\<lambda>t s. (?R s \<and> ?i s) \<and> get_step G s t)" by (rule wfp_subset [OF conjunct1 [OF returns]]) auto
  moreover obtain s where "?R s" "g_gets s = [0 \<mapsto> (''Tom'', GLook), 1 \<mapsto> (''Tom'', GLook)]" using two_Gets [of G 0] by blast
  then have "?R s \<and> ?i s" by simp
  moreover have "?R t \<and> ?i t" if "?R s \<and> ?i s" "get_step G s t" for s t
    using that reach_step [of "\<lambda>s. s = g_start G 0" "g_step G"] get_keeps_key [of G s t 0 "''Tom''"] by (auto simp: get_step_def)
  ultimately obtain t p where t: "?R t" "g_gets t 0 = Some (''Tom'', p)" "\<nexists>u. get_step G t u"
    using wfp_stops [of "\<lambda>s. ?R s \<and> ?i s" "get_step G"] by blast
  with conjunct2 [OF returns, rule_format, of t 0 "''Tom''" p] g show ?thesis by (auto simp: answer_def db_def)
qed

text \<open>
  C7. One request at a time for a key, as the comment of \<open>loader\<close> asks: of all the goroutines in
  \<open>Get\<close>, at most one for each key is past the beginning of the function of \<open>load\<close>, asking a peer
  or the source, storing the value or about to return it, whether peers and source answer, fail
  or panic.
\<close>

theorem group_one_load_per_key:
  assumes "NewGroup n bytes (Some f) groups = Ret (g0, groups')" "RegisterPeers g0 ps = Ret G" "0 \<le> sint bytes"
    and "reach (\<lambda>s. s = g_start G w) (g_step G) s"
    and "g_gets s i = Some (k, p)" "loading p" "g_gets s j = Some (k, q)" "loading q"
  shows "i = j"
proof -
  note inv = gc_reach [OF assms(4) new_group_agrees [OF assms(1-3)]]
  from loading_runs [OF inv(1)] assms(5-8) obtain c c'
    where "sf_procs (g_flight s) i = Some (k, Running c)" "sf_procs (g_flight s) j = Some (k, Running c')" by blast
  with one_leader [of "g_flight s" i k "Running c" c j "Running c'" c'] inv(2) show ?thesis by (simp add: sf_inv_def)
qed

theorem group_one_load_per_key_witness:
  "\<exists>g0 groups G s. NewGroup ''scores'' 2048 (Some (\<lambda>k w. Ret (db k, w + 1))) Map.empty = Ret (g0, groups) \<and>
     RegisterPeers g0 None = Ret G \<and> reach (\<lambda>s. s = g_start G (0 :: nat)) (g_step G) s \<and>
     g_gets s 0 = Some (''Tom'', GLocal) \<and> (\<forall>j q. g_gets s j = Some (''Tom'', q) \<longrightarrow> loading q = (j = 0))"
proof -
  obtain g0 groups and G :: "nat Group" where g: "NewGroup ''scores'' 2048 (Some (\<lambda>k w. Ret (db k, w + 1))) Map.empty = Ret (g0, groups)"
    "RegisterPeers g0 None = Ret G" "serves UNIV db G" "peers G = None" "\<forall>k. cache_get (mainCache G) k = (mainCache G, None)"
    using db_group by (elim exE conjE) (rule that)
  from first_load [OF g(4) spec [OF g(5), of "''Tom''"], of 0] obtain s
    where s: "reach (\<lambda>s. s = g_start G (0 :: nat)) (g_step G) s" "g_gets s 0 = Some (''Tom'', GLocal)" by blast
  have "j = 0" if "g_gets s j = Some (''Tom'', q)" "loading q" for j q
    by (rule group_one_load_per_key [OF g(1,2) _ s(1) that s(2)]) simp_all
  with g s show ?thesis by (intro exI conjI) auto
qed

end
