(* ===== verification/Codec.thy ===== *)
theory Codec
  imports Prelude
begin

text \<open>
  \<^verbatim>\<open>geerpc/codec\<close>: the header of a message, the table of codecs and the gob codec. A
  connection carries a sequence of gob values, which alternate between headers and bodies when all
  goes well; \<open>'b\<close> is the type of the bodies' encoded values. \<open>encoding/gob\<close> itself appears
  through what it documents: a value decodes into its own type, decoding into another type is an
  error that consumes the value, and decoding into nil discards it.
\<close>

record Header =
  ServiceMethod :: string
  Seq :: u64
  h_Error :: string

datatype 'b wire = WHeader Header | WBody 'b

type_synonym CodecType = string

definition GobType :: CodecType where
  "GobType = ''application/god''"

definition JsonType :: CodecType where
  "JsonType = ''application/json''"

text \<open>
  \<open>inp\<close> has the values that will still arrive on the connection, \<open>inp_err\<close> the error after the
  last one; \<open>buf\<close> the values encoded but not flushed, \<open>out\<close> those written to the connection.
\<close>

record 'b GobCodec =
  inp :: "'b wire list"
  inp_err :: error
  buf :: "'b wire list"
  out :: "'b wire list"
  conn_closed :: bool

definition NewGobCodec :: "'b wire list \<Rightarrow> error \<Rightarrow> 'b GobCodec" where
  "NewGobCodec i e = \<lparr>inp = i, inp_err = e, buf = [], out = [], conn_closed = False\<rparr>"

text \<open>The codec \<open>init\<close> registers, by type; the JSON type has none.\<close>

definition NewCodecFuncMap :: "CodecType \<Rightarrow> ('b wire list \<Rightarrow> error \<Rightarrow> 'b GobCodec) option" where
  "NewCodecFuncMap = [GobType \<mapsto> NewGobCodec]"

definition gob_mismatch :: error where
  "gob_mismatch = Errorf ''gob: type mismatch''"

definition ReadHeader :: "'b GobCodec \<Rightarrow> (error + Header) \<times> 'b GobCodec" where
  "ReadHeader c =
     (case inp c of
        [] \<Rightarrow> (Inl (inp_err c), c)
      | WHeader h # r \<Rightarrow> (Inr h, c\<lparr>inp := r\<rparr>)
      | WBody x # r \<Rightarrow> (Inl gob_mismatch, c\<lparr>inp := r\<rparr>))"

text \<open>
  \<open>body\<close> is the destination: nil, or a pointer to a type, which decodes the values that
  \<open>body\<close> maps to a result.
\<close>

definition ReadBody :: "('b \<Rightarrow> 'v option) option \<Rightarrow> 'b GobCodec \<Rightarrow> (error + 'v option) \<times> 'b GobCodec" where
  "ReadBody body c =
     (case inp c of
        [] \<Rightarrow> (Inl (inp_err c), c)
      | x # r \<Rightarrow>
          (case body of
             None \<Rightarrow> (Inr None, c\<lparr>inp := r\<rparr>)
           | Some dec \<Rightarrow>
               (case x of
                  WBody y \<Rightarrow> (case dec y of Some v \<Rightarrow> (Inr (Some v), c\<lparr>inp := r\<rparr>) | None \<Rightarrow> (Inl gob_mismatch, c\<lparr>inp := r\<rparr>))
                | WHeader h \<Rightarrow> (Inl gob_mismatch, c\<lparr>inp := r\<rparr>))))"

definition Flush :: "'b GobCodec \<Rightarrow> 'b GobCodec" where
  "Flush c = c\<lparr>out := out c @ buf c, buf := []\<rparr>"

definition gob_Close :: "'b GobCodec \<Rightarrow> 'b GobCodec" where
  "gob_Close c = c\<lparr>conn_closed := True\<rparr>"

text \<open>
  \<open>encH\<close> and \<open>encB\<close> are the errors of encoding a header and a body. The deferred function
  flushes in every case and closes the connection when the named result is an error; when
  \<open>log.Panicln\<close> panics the named result is still nil.
\<close>

definition gob_Write ::
  "(Header \<Rightarrow> error option) \<Rightarrow> ('b \<Rightarrow> error option) \<Rightarrow> 'b GobCodec \<Rightarrow> Header \<Rightarrow> 'b \<Rightarrow>
   'b GobCodec \<times> error option exec" where
  "gob_Write encH encB c h body =
     (case encH h of
        Some e \<Rightarrow> (gob_Close (Flush c), Ret (Some e))
      | None \<Rightarrow>
          (let c1 = c\<lparr>buf := buf c @ [WHeader h]\<rparr> in
           case encB body of
             Some e \<Rightarrow> (Flush c1, Panic (''rpc codec:god error encoding body:'' @ Error e))
           | None \<Rightarrow> (Flush (c1\<lparr>buf := buf c1 @ [WBody body]\<rparr>), Ret None)))"

section \<open>The contract of a codec\<close>

text \<open>
  What the client and the server rely on: a successful write appends exactly a header and its
  body to what the peer reads, and reading takes them off in that order.
\<close>

fun writes :: "('c \<Rightarrow> Header \<Rightarrow> 'b \<Rightarrow> 'c \<times> error option exec) \<Rightarrow> 'c \<Rightarrow> (Header \<times> 'b) list \<Rightarrow> 'c option" where
  "writes wr c [] = Some c"
| "writes wr c ((h, x) # ms) = (case wr c h x of (c', Ret None) \<Rightarrow> writes wr c' ms | _ \<Rightarrow> None)"

fun reads ::
  "('c \<Rightarrow> (error + Header) \<times> 'c) \<Rightarrow> ('c \<Rightarrow> (error + 'b option) \<times> 'c) \<Rightarrow> 'c \<Rightarrow> nat \<Rightarrow>
   (Header \<times> 'b) list option" where
  "reads rh rb c 0 = Some []"
| "reads rh rb c (Suc n) =
     (case rh c of
        (Inr h, c1) \<Rightarrow>
          (case rb c1 of
             (Inr (Some x), c2) \<Rightarrow> map_option ((#) (h, x)) (reads rh rb c2 n)
           | _ \<Rightarrow> None)
      | _ \<Rightarrow> None)"

locale rpc_codec =
  fixes ready :: "'c \<Rightarrow> bool"
    and sent :: "'c \<Rightarrow> 'b wire list"
    and avail :: "'c \<Rightarrow> 'b wire list"
    and wr :: "'c \<Rightarrow> Header \<Rightarrow> 'b \<Rightarrow> 'c \<times> error option exec"
    and rh :: "'c \<Rightarrow> (error + Header) \<times> 'c"
    and rb :: "'c \<Rightarrow> (error + 'b option) \<times> 'c"
  assumes write_sent: "ready c \<Longrightarrow> wr c h x = (c', Ret None) \<Longrightarrow>
      ready c' \<and> sent c' = sent c @ [WHeader h, WBody x]"
    and read_header_input: "avail c = WHeader h # r \<Longrightarrow> \<exists>c'. rh c = (Inr h, c') \<and> avail c' = r"
    and read_body_input: "avail c = WBody x # r \<Longrightarrow> \<exists>c'. rb c = (Inr (Some x), c') \<and> avail c' = r"
begin

lemma writes_sent:
  "ready c \<Longrightarrow> writes wr c ms = Some c' \<Longrightarrow>
     sent c' = sent c @ concat (map (\<lambda>(h, x). [WHeader h, WBody x]) ms)"
proof (induction ms arbitrary: c)
  case (Cons m ms)
  obtain h x where m: "m = (h, x)" by fastforce
  with Cons.prems obtain c1 where c1: "wr c h x = (c1, Ret None)" "writes wr c1 ms = Some c'"
    by (auto split: prod.splits exec.splits option.splits)
  with Cons.IH [of c1] write_sent [OF Cons.prems(1) c1(1)] m show ?case by simp
qed simp

lemma reads_input:
  "avail c = concat (map (\<lambda>(h, x). [WHeader h, WBody x]) ms) @ r \<Longrightarrow> reads rh rb c (length ms) = Some ms"
proof (induction ms arbitrary: c)
  case (Cons m ms)
  obtain h x where m: "m = (h, x)" by fastforce
  with Cons.prems obtain c1 where c1: "rh c = (Inr h, c1)"
      "avail c1 = WBody x # concat (map (\<lambda>(h, x). [WHeader h, WBody x]) ms) @ r"
    using read_header_input by fastforce
  then obtain c2 where "rb c1 = (Inr (Some x), c2)"
      "avail c2 = concat (map (\<lambda>(h, x). [WHeader h, WBody x]) ms) @ r"
    using read_body_input by blast
  with c1 Cons.IH [of c2] m show ?case by simp
qed simp

text \<open>What one side writes the other side reads.\<close>

lemma round_trip:
  assumes "ready c" "sent c = []" "writes wr c ms = Some c'" "avail d = sent c'"
  shows "reads rh rb d (length ms) = Some ms"
  using writes_sent [OF assms(1,3)] assms(2,4) by (intro reads_input [of _ _ "[]"]) simp

end

definition flushed :: "'b GobCodec \<Rightarrow> bool" where
  "flushed c \<longleftrightarrow> buf c = []"

interpretation gob: rpc_codec flushed out inp "gob_Write encH encB" ReadHeader "ReadBody (Some Some)"
  for encH :: "Header \<Rightarrow> error option" and encB :: "'b \<Rightarrow> error option"
proof (unfold_locales, goal_cases)
  case (1 c h x c')
  then show ?case by (auto simp: gob_Write_def flushed_def Flush_def Let_def split: option.splits)
next
  case (2 c h r)
  then show ?case by (simp add: ReadHeader_def)
next
  case (3 c x r)
  then show ?case by (simp add: ReadBody_def)
qed

section \<open>Properties\<close>

text \<open>
  A body that cannot be encoded crashes the process and leaves half a message: \<open>Write\<close>
  panics (\<open>log.Panicln\<close>), the peer receives the header without a body, and the connection is not
  closed.
\<close>

lemma Write_panics_on_body_error:
  assumes "encH h = None" "encB x = Some e" "flushed c"
  shows "\<exists>c' msg. gob_Write encH encB c h x = (c', Panic msg) \<and> out c' = out c @ [WHeader h] \<and>
    conn_closed c' = conn_closed c"
  using assms by (simp add: gob_Write_def Flush_def flushed_def Let_def)

text \<open>
  What one side writes the other side reads: if every \<open>Write\<close> of a sequence of messages
  succeeds on a new codec, alternating \<open>ReadHeader\<close> and \<open>ReadBody\<close> on the other end returns the
  same headers and bodies in the same order.
\<close>

lemma codec_round_trip:
  assumes "writes (gob_Write encH encB) (NewGobCodec i e) ms = Some c'" "inp d = out c'"
  shows "reads ReadHeader (ReadBody (Some Some)) d (length ms) = Some ms"
  using assms gob.round_trip [of "NewGobCodec i e" encH encB ms c' d] by (simp add: NewGobCodec_def flushed_def)

end
