(* ===== verification/Service.thy ===== *)
theory Service
  imports GoLib
begin

text \<open>
  \<^verbatim>\<open>geerpc/service.go\<close>: the methods of a receiver that can be called remotely, found by
  reflection, and the values a call allocates. Types are those of \<open>reflect\<close> as far as the code
  looks at them; names are ASCII.
\<close>

section \<open>Reflection\<close>

datatype rtype =
    Basic string
  | Named string string rtype  \<comment> \<open>package path, name, underlying type\<close>
  | Ptr rtype
  | MapT rtype rtype
  | SliceT rtype
  | StructT

datatype kind = KBasic | KPtr | KMap | KSlice | KStruct

fun Kind :: "rtype \<Rightarrow> kind" where
  "Kind (Basic n) = KBasic"
| "Kind (Named p n t) = Kind t"
| "Kind (Ptr t) = KPtr"
| "Kind (MapT k v) = KMap"
| "Kind (SliceT t) = KSlice"
| "Kind StructT = KStruct"

fun Name :: "rtype \<Rightarrow> string" where
  "Name (Basic n) = n"
| "Name (Named p n t) = n"
| "Name _ = ''''"

fun PkgPath :: "rtype \<Rightarrow> string" where
  "PkgPath (Named p n t) = p"
| "PkgPath _ = ''''"

text \<open>\<open>Elem\<close> panics for a type that has no element type.\<close>

fun Elem :: "rtype \<Rightarrow> rtype exec" where
  "Elem (Ptr t) = Ret t"
| "Elem (MapT k v) = Ret v"
| "Elem (SliceT t) = Ret t"
| "Elem (Named p n t) = Elem t"
| "Elem (Basic n) = Panic ''reflect: Elem of invalid type''"
| "Elem StructT = Panic ''reflect: Elem of invalid type''"

definition IsExported :: "string \<Rightarrow> bool" where
  "IsExported s \<longleftrightarrow> s \<noteq> '''' \<and> CHR ''A'' \<le> hd s \<and> hd s \<le> CHR ''Z''"

text \<open>Fresh values: a zero value, a pointer to one, an empty map or slice that is not nil.\<close>

datatype rval = Zero rtype | NewPtr rval | EmptyMap rtype | EmptySlice rtype

fun type_of :: "rval \<Rightarrow> rtype" where
  "type_of (Zero t) = t"
| "type_of (NewPtr v) = Ptr (type_of v)"
| "type_of (EmptyMap t) = t"
| "type_of (EmptySlice t) = t"

record rmethod =
  m_Name :: string
  m_In :: "rtype list"
  m_Out :: "rtype list"

definition error_type :: rtype where
  "error_type = Basic ''error''"

section \<open>Methods\<close>

record methodType =
  mt_method :: rmethod
  ArgType :: rtype
  ReplyType :: rtype
  numCalls :: u64

definition NumCalls :: "methodType \<Rightarrow> u64" where
  "NumCalls m = numCalls m"

definition newArgv :: "methodType \<Rightarrow> rval exec" where
  "newArgv m =
     (if Kind (ArgType m) = KPtr then bind_exec (Elem (ArgType m)) (\<lambda>t. Ret (NewPtr (Zero t)))
      else Ret (Zero (ArgType m)))"

definition newReplyv :: "methodType \<Rightarrow> rval exec" where
  "newReplyv m =
     bind_exec (Elem (ReplyType m)) (\<lambda>t.
       Ret (NewPtr (case Kind t of
          KMap \<Rightarrow> EmptyMap t
        | KSlice \<Rightarrow> EmptySlice t
        | _ \<Rightarrow> Zero t)))"

section \<open>Services\<close>

record service =
  s_name :: string
  s_typ :: "rmethod list"
  s_method :: "string \<Rightarrow> methodType option"

definition IsExportedOrBuildinType :: "rtype \<Rightarrow> bool" where
  "IsExportedOrBuildinType t \<longleftrightarrow> IsExported (Name t) \<or> PkgPath t = ''''"

text \<open>One iteration of the loop over the methods of the type.\<close>

definition register_method :: "rmethod \<Rightarrow> (string \<Rightarrow> methodType option) \<Rightarrow> string \<Rightarrow> methodType option" where
  "register_method m ms =
     (if length (m_In m) \<noteq> 3 \<or> length (m_Out m) \<noteq> 1 then ms
      else if m_Out m ! 0 \<noteq> error_type then ms
      else
        (let argType = m_In m ! 1; replyType = m_In m ! 2 in
         if \<not> IsExportedOrBuildinType argType \<or> \<not> IsExportedOrBuildinType replyType then ms
         else ms(m_Name m \<mapsto> \<lparr>mt_method = m, ArgType = argType, ReplyType = replyType, numCalls = 0\<rparr>)))"

definition registerMethods :: "service \<Rightarrow> service" where
  "registerMethods s = s\<lparr>s_method := fold register_method (s_typ s) Map.empty\<rparr>"

text \<open>A receiver is given by its type and the exported methods of its method set. A name that is
  not exported ends the process.\<close>

definition newService :: "rtype \<Rightarrow> rmethod list \<Rightarrow> service exec" where
  "newService t ms =
     bind_exec (if Kind t = KPtr then Elem t else Ret t) (\<lambda>u.
       if \<not> IsExported (Name u) then Panic (''rpc server: '' @ Name u @ '' is not a valid service name'')
       else Ret (registerMethods \<lparr>s_name = Name u, s_typ = ms, s_method = Map.empty\<rparr>))"

definition add_call :: "methodType \<Rightarrow> methodType" where
  "add_call m = m\<lparr>numCalls := numCalls m + 1\<rparr>"

text \<open>A call counts itself, whatever it returns; \<open>f\<close> is the method's code.\<close>

definition service_call ::
  "(rmethod \<Rightarrow> 'a \<Rightarrow> 'r \<Rightarrow> (error option \<times> 'r) exec) \<Rightarrow> methodType \<Rightarrow> 'a \<Rightarrow> 'r \<Rightarrow>
   methodType \<times> (error option \<times> 'r) exec" where
  "service_call f m argv replyv = (add_call m, f (mt_method m) argv replyv)"

section \<open>Lemmas\<close>

text \<open>The methods the loop accepts.\<close>

definition suitable :: "rmethod \<Rightarrow> bool" where
  "suitable m \<longleftrightarrow> (\<exists>rcv arg reply. m_In m = [rcv, arg, reply] \<and> m_Out m = [error_type] \<and>
     IsExportedOrBuildinType arg \<and> IsExportedOrBuildinType reply)"

definition method_of :: "rmethod \<Rightarrow> methodType" where
  "method_of m = \<lparr>mt_method = m, ArgType = m_In m ! 1, ReplyType = m_In m ! 2, numCalls = 0\<rparr>"

lemma register_method_suitable:
  "register_method m ms = (if suitable m then ms(m_Name m \<mapsto> method_of m) else ms)"
proof -
  have "length (m_In m) = 3 \<longleftrightarrow> (\<exists>x y z. m_In m = [x, y, z])"
    by (auto simp: numeral_3_eq_3 length_Suc_conv)
  moreover have "length (m_Out m) = 1 \<longleftrightarrow> (\<exists>x. m_Out m = [x])" by (auto simp: length_Suc_conv)
  ultimately show ?thesis
    by (cases "length (m_In m) = 3"; cases "length (m_Out m) = 1")
      (auto simp: register_method_def suitable_def method_of_def Let_def)
qed

lemma fold_register_method:
  "distinct (map m_Name ms) \<Longrightarrow> fold register_method ms M n =
     (if \<exists>m \<in> set ms. m_Name m = n \<and> suitable m
      then Some (method_of (THE m. m \<in> set ms \<and> m_Name m = n)) else M n)"
proof (induction ms arbitrary: M)
  case (Cons m ms)
  show ?case
  proof (cases "m_Name m = n")
    case True
    then have "\<not> (\<exists>x \<in> set ms. m_Name x = n)" using Cons.prems True by (force simp: image_iff)
    moreover from this True have "(THE x. x \<in> set (m # ms) \<and> m_Name x = n) = m" by (intro the_equality) auto
    ultimately show ?thesis using Cons True by (auto simp: register_method_suitable)
  next
    case False
    then have "(THE x. x \<in> set (m # ms) \<and> m_Name x = n) = (THE x. x \<in> set ms \<and> m_Name x = n)"
      by (intro arg_cong [of _ _ The]) auto
    with False Cons show ?thesis by (auto simp: register_method_suitable)
  qed
qed simp

section \<open>Properties\<close>


definition foo_type :: rtype where
  "foo_type = Named ''main'' ''Foo'' (Basic ''int'')"

definition sum_method :: rmethod where
  "sum_method = \<lparr>m_Name = ''Sum'', m_In = [foo_type, Named ''main'' ''Args'' StructT, Ptr (Basic ''int'')],
     m_Out = [error_type]\<rparr>"

definition helper_method :: rmethod where
  "helper_method = \<lparr>m_Name = ''Helper'', m_In = [foo_type, Named ''main'' ''args'' StructT, Ptr (Basic ''int'')],
     m_Out = [error_type]\<rparr>"




text \<open>
  That the second argument is a pointer, which the documentation of \<open>Register\<close> asks for, is not
  checked: a method whose reply is of a predeclared type such as \<open>int\<close> is registered, and the
  first request for it panics in \<open>newReplyv\<close>.
\<close>

lemma non_pointer_reply_registered:
  assumes "m_In m = [rcv, arg, Basic n]" "m_Out m = [error_type]" "IsExportedOrBuildinType arg"
  shows "\<exists>mt. register_method m ms (m_Name m) = Some mt \<and>
    newReplyv mt = Panic ''reflect: Elem of invalid type''"
proof -
  have "suitable m" using assms by (simp add: suitable_def IsExportedOrBuildinType_def)
  then show ?thesis using assms(1) by (simp add: register_method_suitable newReplyv_def method_of_def)
qed

end
