(* ===== verification/RpcServer.thy ===== *)
theory RpcServer
  imports Codec Service "HOL-Library.Multiset"
begin

text \<open>
  \<^verbatim>\<open>geerpc/server.go\<close>: the table of services, the requests of one connection and their
  concurrent handling. A connection is a transition system: the reading loop of \<open>serveCodec\<close>, and
  for each request the two goroutines of \<open>handleRequest\<close>, the one that calls the method and the
  one that waits for it or for the timeout.
\<close>

section \<open>Options and services\<close>

definition MagicNumber :: int where
  "MagicNumber = 0x3bef5c"

record Option =
  opt_MagicNumber :: int
  CodcType :: CodecType
  ConnectTimeout :: int
  HandleTimeout :: int

definition DefaultOption :: Option where
  "DefaultOption = \<lparr>opt_MagicNumber = MagicNumber, CodcType = GobType, ConnectTimeout = 10 * 10 ^ 9,
     HandleTimeout = 0\<rparr>"

type_synonym serviceMap = "string \<Rightarrow> service option"

text \<open>\<open>Register\<close>: \<open>LoadOrStore\<close> keeps the service that is already there.\<close>

definition Register :: "serviceMap \<Rightarrow> rtype \<Rightarrow> rmethod list \<Rightarrow> (error option \<times> serviceMap) exec" where
  "Register sm t ms =
     bind_exec (newService t ms) (\<lambda>s.
       Ret (case sm (s_name s) of
              Some x \<Rightarrow> (Some (Errorf (''rpc: service already defined: '' @ s_name s)), sm)
            | None \<Rightarrow> (None, sm(s_name s \<mapsto> s))))"

definition findService :: "serviceMap \<Rightarrow> string \<Rightarrow> error + service \<times> methodType" where
  "findService sm serviceMethod =
     (let dot = LastIndex serviceMethod ''.'' in
      if dot < 0 then Inl (Errorf (''rpc server: service/method request ill-formed: '' @ serviceMethod))
      else
        (let serviceName = take (nat dot) serviceMethod; methodName = drop (nat dot + 1) serviceMethod in
         case sm serviceName of
           None \<Rightarrow> Inl (Errorf (''rpc server: can't find service '' @ serviceName))
         | Some svc \<Rightarrow>
             (case s_method svc methodName of
                None \<Rightarrow> Inl (Errorf (''rpc server: can't find method '' @ methodName))
              | Some mtype \<Rightarrow> Inr (svc, mtype))))"

section \<open>Reading requests\<close>

record 'b request =
  r_h :: Header
  r_argv :: 'b
  r_mtype :: methodType
  r_svc :: service

datatype 'b read_result =
    ReadFail error          \<comment> \<open>nil request: the connection cannot go on\<close>
  | ReadErr Header error    \<comment> \<open>a request that is answered with an error\<close>
  | ReadOk "'b request"

definition readRequestHeader :: "'b GobCodec \<Rightarrow> (error + Header) \<times> 'b GobCodec" where
  "readRequestHeader c = ReadHeader c"

text \<open>\<open>decode t x\<close> is what the value \<open>x\<close> on the wire becomes in a variable of type \<open>t\<close>, if it fits.\<close>

definition readRequest ::
  "(rtype \<Rightarrow> 'b \<Rightarrow> 'b option) \<Rightarrow> serviceMap \<Rightarrow> 'b GobCodec \<Rightarrow> ('b read_result \<times> 'b GobCodec) exec" where
  "readRequest decode sm c =
     (case readRequestHeader c of
        (Inl e, c1) \<Rightarrow> Ret (ReadFail e, c1)
      | (Inr h, c1) \<Rightarrow>
          (case findService sm (ServiceMethod h) of
             Inl e \<Rightarrow> Ret (ReadErr h e, c1)
           | Inr (svc, mtype) \<Rightarrow>
               bind_exec (newArgv mtype) (\<lambda>argv.
                 bind_exec (newReplyv mtype) (\<lambda>replyv.
                   case ReadBody (Some (decode (ArgType mtype))) c1 of
                     (Inr (Some v), c2) \<Rightarrow> Ret (ReadOk \<lparr>r_h = h, r_argv = v, r_mtype = mtype, r_svc = svc\<rparr>, c2)
                   | (Inr None, c2) \<Rightarrow> Hang
                   | (Inl e, c2) \<Rightarrow> Ret (ReadErr h e, c2)))))"

section \<open>A connection\<close>

text \<open>
  The phases of a request's two goroutines. \<open>called\<close> and \<open>sent\<close> are unbuffered channels, so a
  send and its receive are one step of both.
\<close>

datatype 'b sub =
    SNew                        \<comment> \<open>started\<close>
  | SRun                        \<comment> \<open>in the method\<close>
  | SCalled "error option" 'b   \<comment> \<open>at \<open>called <- struct{}{}\<close>\<close>
  | SSend "error option" 'b     \<comment> \<open>in \<open>sendResponse\<close>\<close>
  | SSent                       \<comment> \<open>at \<open>sent <- struct{}{}\<close>\<close>
  | SEnd

datatype main =
    MWait       \<comment> \<open>in the select, or at \<open><-called\<close>\<close>
  | MSent       \<comment> \<open>at \<open><-sent\<close>\<close>
  | MTimeout    \<comment> \<open>in \<open>sendResponse\<close> after the timeout\<close>
  | MDone       \<comment> \<open>returned, \<open>wg.Done()\<close> called\<close>

record 'b handler =
  h_req :: "'b request"
  h_sub :: "'b sub"
  h_main :: main

datatype reader = Reading | Replying Header error | Draining | Closed

text \<open>
  \<open>got\<close> records the sequence numbers of the requests read; \<open>crashed\<close> says that a goroutine
  panicked, which ends the process.
\<close>

record 'b conn =
  cc :: "'b GobCodec"
  smap :: serviceMap
  reader :: reader
  hs :: "'b handler list"
  got :: "u64 list"
  crashed :: bool

text \<open>
  What the connection depends on: gob's decoding and the errors of its encoding, the methods'
  code, the body of an error response, \<open>opt.HandleTimeout\<close> and its rendering as text.
\<close>

record 'b env =
  e_decode :: "rtype \<Rightarrow> 'b \<Rightarrow> 'b option"
  e_encH :: "Header \<Rightarrow> error option"
  e_encB :: "'b \<Rightarrow> error option"
  e_call :: "'b request \<Rightarrow> (error option \<times> 'b) exec"
  invalidRequest :: 'b
  e_timeout :: int
  e_timeout_String :: string

text \<open>The mutex \<open>sending\<close> makes a response one step; an error of \<open>Write\<close> is only logged.\<close>

definition sendResponse :: "'b env \<Rightarrow> 'b conn \<Rightarrow> Header \<Rightarrow> 'b \<Rightarrow> 'b conn" where
  "sendResponse E s h body =
     (case gob_Write (e_encH E) (e_encB E) (cc s) h body of
        (c, Ret e) \<Rightarrow> s\<lparr>cc := c\<rparr>
      | (c, _) \<Rightarrow> s\<lparr>cc := c, crashed := True\<rparr>)"

text \<open>\<open>atomic.AddUint64(&m.numCalls, 1)\<close> on the method the request points to.\<close>

definition count_call :: "serviceMap \<Rightarrow> 'b request \<Rightarrow> serviceMap" where
  "count_call sm q =
     (let sn = s_name (r_svc q); mn = m_Name (mt_method (r_mtype q)) in
      case sm sn of
        None \<Rightarrow> sm
      | Some svc \<Rightarrow> sm(sn \<mapsto> svc\<lparr>s_method := (s_method svc)(mn := map_option add_call (s_method svc mn))\<rparr>))"

definition set_handler :: "nat \<Rightarrow> 'b handler \<Rightarrow> 'b conn \<Rightarrow> 'b conn" where
  "set_handler i h s = s\<lparr>hs := (hs s)[i := h]\<rparr>"

definition with_error :: "Header \<Rightarrow> error option \<Rightarrow> Header" where
  "with_error h e = (case e of None \<Rightarrow> h | Some x \<Rightarrow> h\<lparr>h_Error := Error x\<rparr>)"

definition timeout_error :: "'b env \<Rightarrow> error" where
  "timeout_error E = Errorf (''rpc server: request handle timeout: expect within '' @ e_timeout_String E)"

inductive serve_step :: "'b env \<Rightarrow> 'b conn \<Rightarrow> 'b conn \<Rightarrow> bool" for E :: "'b env" where
  read_ok: "\<not> crashed s \<Longrightarrow> reader s = Reading \<Longrightarrow>
    readRequest (e_decode E) (smap s) (cc s) = Ret (ReadOk q, c) \<Longrightarrow>
    serve_step E s (s\<lparr>cc := c, hs := hs s @ [\<lparr>h_req = q, h_sub = SNew, h_main = MWait\<rparr>],
      got := got s @ [Seq (r_h q)]\<rparr>)"
| read_err: "\<not> crashed s \<Longrightarrow> reader s = Reading \<Longrightarrow>
    readRequest (e_decode E) (smap s) (cc s) = Ret (ReadErr h e, c) \<Longrightarrow>
    serve_step E s (s\<lparr>cc := c, reader := Replying h e, got := got s @ [Seq h]\<rparr>)"
| read_fail: "\<not> crashed s \<Longrightarrow> reader s = Reading \<Longrightarrow>
    readRequest (e_decode E) (smap s) (cc s) = Ret (ReadFail e, c) \<Longrightarrow>
    serve_step E s (s\<lparr>cc := c, reader := Draining\<rparr>)"
| read_panic: "\<not> crashed s \<Longrightarrow> reader s = Reading \<Longrightarrow>
    readRequest (e_decode E) (smap s) (cc s) = Panic m \<Longrightarrow> serve_step E s (s\<lparr>crashed := True\<rparr>)"
| reply_err: "\<not> crashed s \<Longrightarrow> reader s = Replying h e \<Longrightarrow>
    serve_step E s ((sendResponse E s (h\<lparr>h_Error := Error e\<rparr>) (invalidRequest E))\<lparr>reader := Reading\<rparr>)"
| close: "\<not> crashed s \<Longrightarrow> reader s = Draining \<Longrightarrow> \<forall>h \<in> set (hs s). h_main h = MDone \<Longrightarrow>
    serve_step E s (s\<lparr>cc := gob_Close (cc s), reader := Closed\<rparr>)"
| call_start: "\<not> crashed s \<Longrightarrow> i < length (hs s) \<Longrightarrow> h = hs s ! i \<Longrightarrow> h_sub h = SNew \<Longrightarrow>
    serve_step E s ((set_handler i (h\<lparr>h_sub := SRun\<rparr>) s)\<lparr>smap := count_call (smap s) (h_req h)\<rparr>)"
| call_return: "\<not> crashed s \<Longrightarrow> i < length (hs s) \<Longrightarrow> h = hs s ! i \<Longrightarrow> h_sub h = SRun \<Longrightarrow>
    e_call E (h_req h) = Ret (e, r) \<Longrightarrow> serve_step E s (set_handler i (h\<lparr>h_sub := SCalled e r\<rparr>) s)"
| call_panic: "\<not> crashed s \<Longrightarrow> i < length (hs s) \<Longrightarrow> h = hs s ! i \<Longrightarrow> h_sub h = SRun \<Longrightarrow>
    e_call E (h_req h) = Panic m \<Longrightarrow> serve_step E s (s\<lparr>crashed := True\<rparr>)"
| called: "\<not> crashed s \<Longrightarrow> i < length (hs s) \<Longrightarrow> h = hs s ! i \<Longrightarrow> h_sub h = SCalled e r \<Longrightarrow> h_main h = MWait \<Longrightarrow>
    serve_step E s (set_handler i (h\<lparr>h_sub := SSend e r, h_main := MSent\<rparr>) s)"
| send: "\<not> crashed s \<Longrightarrow> i < length (hs s) \<Longrightarrow> h = hs s ! i \<Longrightarrow> h_sub h = SSend e r \<Longrightarrow>
    serve_step E s (set_handler i (h\<lparr>h_sub := SSent\<rparr>) (sendResponse E s (with_error (r_h (h_req h)) e) r))"
| sent: "\<not> crashed s \<Longrightarrow> i < length (hs s) \<Longrightarrow> h = hs s ! i \<Longrightarrow> h_sub h = SSent \<Longrightarrow> h_main h = MSent \<Longrightarrow>
    serve_step E s (set_handler i (h\<lparr>h_sub := SEnd, h_main := MDone\<rparr>) s)"
| timeout: "\<not> crashed s \<Longrightarrow> i < length (hs s) \<Longrightarrow> h = hs s ! i \<Longrightarrow> h_main h = MWait \<Longrightarrow> e_timeout E \<noteq> 0 \<Longrightarrow>
    serve_step E s (set_handler i (h\<lparr>h_main := MTimeout\<rparr>) s)"
| send_timeout: "\<not> crashed s \<Longrightarrow> i < length (hs s) \<Longrightarrow> h = hs s ! i \<Longrightarrow> h_main h = MTimeout \<Longrightarrow>
    serve_step E s (set_handler i (h\<lparr>h_main := MDone\<rparr>)
      (sendResponse E s (with_error (r_h (h_req h)) (Some (timeout_error E))) (invalidRequest E)))"

text \<open>
  \<open>ServeConn\<close>: \<open>opt\<close> is what the JSON decoder read from the connection; a connection with a
  wrong option is closed at once. \<open>serveCodec\<close> starts reading.
\<close>

definition serveCodec :: "serviceMap \<Rightarrow> 'b GobCodec \<Rightarrow> 'b conn" where
  "serveCodec sm c = \<lparr>cc = c, smap = sm, reader = Reading, hs = [], got = [], crashed = False\<rparr>"

definition ServeConn :: "serviceMap \<Rightarrow> error + Option \<Rightarrow> 'b wire list \<Rightarrow> error \<Rightarrow> 'b conn" where
  "ServeConn sm opt i e =
     (let refused = (serveCodec sm (gob_Close (NewGobCodec i e)))\<lparr>reader := Closed\<rparr> in
      case opt of
        Inl err \<Rightarrow> refused
      | Inr opt \<Rightarrow>
          if opt_MagicNumber opt \<noteq> MagicNumber then refused
          else
            (case NewCodecFuncMap (CodcType opt) of
               None \<Rightarrow> refused
             | Some f \<Rightarrow> serveCodec sm (f i e)))"

text \<open>
  \<open>ServeHTTP\<close> of the server: the status and text written, and whether the connection is then
  served. \<open>hijack\<close> is the error of \<open>Hijack\<close>, if any.
\<close>

definition connected :: string where
  "connected = ''200 Connected to Gee RPC''"

definition rpc_ServeHTTP :: "string \<Rightarrow> error option \<Rightarrow> nat option \<times> string \<times> bool" where
  "rpc_ServeHTTP req_Method hijack =
     (if req_Method \<noteq> ''CONNECT'' then (Some 405, ''405 must CONNECT\<newline>'', False)
      else if hijack \<noteq> None then (None, '''', False)
      else (None, ''HTTP/1.0'' @ connected @ ''\<newline>\<newline>'', True))"

section \<open>Each request is answered once\<close>

text \<open>A sequence of complete messages on the wire.\<close>

definition msgs :: "(Header \<times> 'b) list \<Rightarrow> 'b wire list" where
  "msgs ms = concat (map (\<lambda>(h, x). [WHeader h, WBody x]) ms)"

lemma msgs_simps [simp]: "msgs [] = []" "msgs ((h, x) # ms) = WHeader h # WBody x # msgs ms"
  by (simp_all add: msgs_def)

lemma msgs_snoc: "msgs (ms @ [(h, x)]) = msgs ms @ [WHeader h, WBody x]"
  by (simp add: msgs_def)

text \<open>
  The phases two goroutines of a request can be in together, whether the request has been
  answered, and the sequence numbers of the requests that still have to be.
\<close>

definition handler_ok :: "'b handler \<Rightarrow> bool" where
  "handler_ok h \<longleftrightarrow> (h_main h = MSent \<longleftrightarrow> (\<exists>e r. h_sub h = SSend e r) \<or> h_sub h = SSent) \<and>
     (h_sub h = SEnd \<longrightarrow> h_main h = MDone)"

definition owed :: "'b handler \<Rightarrow> u64 multiset" where
  "owed h = (if h_main h = MDone \<or> h_sub h = SSent then {#} else {#Seq (r_h (h_req h))#})"

fun owed_reader :: "reader \<Rightarrow> u64 multiset" where
  "owed_reader (Replying h e) = {#Seq h#}"
| "owed_reader _ = {#}"

definition headers_encode :: "'b env \<Rightarrow> bool" where
  "headers_encode E \<longleftrightarrow> (\<forall>h. e_encH E h = None)"

definition answered :: "'b conn \<Rightarrow> (Header \<times> 'b) list \<Rightarrow> bool" where
  "answered s ms \<longleftrightarrow> out (cc s) = msgs ms \<and>
     mset (got s) = mset (map (\<lambda>m. Seq (fst m)) ms) + owed_reader (reader s) + sum_list (map owed (hs s))"

definition serve_inv :: "'b conn \<Rightarrow> bool" where
  [invs]: "serve_inv s \<longleftrightarrow> (\<not> crashed s \<longrightarrow>
     flushed (cc s) \<and> (\<forall>h \<in> set (hs s). handler_ok h) \<and> (\<exists>ms. answered s ms))"

lemma sendResponse_frame [simp]:
  "reader (sendResponse E s h x) = reader s" "hs (sendResponse E s h x) = hs s"
  "got (sendResponse E s h x) = got s" "smap (sendResponse E s h x) = smap s"
  "inp (cc (sendResponse E s h x)) = inp (cc s)"
  by (auto simp: sendResponse_def gob_Write_def Flush_def gob_Close_def Let_def split: prod.splits exec.splits option.splits)

lemma set_handler_frame [simp]:
  "cc (set_handler i h s) = cc s" "smap (set_handler i h s) = smap s" "reader (set_handler i h s) = reader s"
  "got (set_handler i h s) = got s" "crashed (set_handler i h s) = crashed s"
  "hs (set_handler i h s) = (hs s)[i := h]"
  by (simp_all add: set_handler_def)

lemma sendResponse_out:
  assumes "headers_encode E" "flushed (cc s)" "\<not> crashed (sendResponse E s h x)"
  shows "out (cc (sendResponse E s h x)) = out (cc s) @ [WHeader h, WBody x] \<and> flushed (cc (sendResponse E s h x))"
  using assms
  by (auto simp: sendResponse_def gob_Write_def headers_encode_def flushed_def Flush_def Let_def split: option.splits)

lemma readRequest_frame:
  "readRequest d sm c = Ret (r, c') \<Longrightarrow> out c' = out c \<and> buf c' = buf c"
  by (auto simp: readRequest_def readRequestHeader_def ReadHeader_def ReadBody_def bind_exec_Ret_iff
      split: list.splits wire.splits sum.splits option.splits)

lemma with_error_Seq [simp]: "Seq (with_error h e) = Seq h"
  by (simp add: with_error_def split: option.split)

text \<open>A step of a handler that writes nothing keeps what is owed.\<close>

lemma serve_inv_handler:
  assumes "serve_inv s" "i < length (hs s)" "handler_ok h" "owed h = owed (hs s ! i)"
  shows "serve_inv (set_handler i h s)"
  using assms sum_list_map_update [of i "hs s" owed h] ball_set_update [of "hs s" handler_ok h i]
  by (auto simp: serve_inv_def answered_def)

text \<open>A step of a handler that writes the response.\<close>

lemma serve_inv_send:
  assumes "headers_encode E" "serve_inv s" "\<not> crashed s" "i < length (hs s)" "handler_ok h" "owed h = {#}"
    "owed (hs s ! i) = {#Seq hd1#}"
  shows "serve_inv (set_handler i h (sendResponse E s hd1 x))"
  unfolding serve_inv_def
proof
  assume "\<not> crashed (set_handler i h (sendResponse E s hd1 x))"
  then have o: "out (cc (sendResponse E s hd1 x)) = out (cc s) @ [WHeader hd1, WBody x]"
      "flushed (cc (sendResponse E s hd1 x))"
    using sendResponse_out [OF assms(1)] assms(2,3) by (auto simp: serve_inv_def)
  from assms(2,3) obtain ms where ms: "answered s ms" "\<forall>h \<in> set (hs s). handler_ok h"
    by (auto simp: serve_inv_def)
  have "answered (set_handler i h (sendResponse E s hd1 x)) (ms @ [(hd1, x)])"
    using ms(1) o(1) sum_list_map_update [OF assms(4), of owed h] assms(6,7)
    by (auto simp: answered_def msgs_snoc)
  with o ms ball_set_update [OF ms(2) assms(5), of i]
  show "flushed (cc (set_handler i h (sendResponse E s hd1 x))) \<and>
      (\<forall>h \<in> set (hs (set_handler i h (sendResponse E s hd1 x))). handler_ok h) \<and>
      (\<exists>ms. answered (set_handler i h (sendResponse E s hd1 x)) ms)" by auto
qed

lemma serve_inv_reply:
  assumes "headers_encode E" "serve_inv s" "\<not> crashed s" "reader s = Replying h e" "Seq hd1 = Seq h"
  shows "serve_inv ((sendResponse E s hd1 x)\<lparr>reader := Reading\<rparr>)"
  unfolding serve_inv_def
proof
  assume "\<not> crashed ((sendResponse E s hd1 x)\<lparr>reader := Reading\<rparr>)"
  then have o: "out (cc (sendResponse E s hd1 x)) = out (cc s) @ [WHeader hd1, WBody x]"
      "flushed (cc (sendResponse E s hd1 x))"
    using sendResponse_out [OF assms(1)] assms(2,3) by (auto simp: serve_inv_def)
  from assms(2,3) obtain ms where ms: "answered s ms" "\<forall>h \<in> set (hs s). handler_ok h"
    by (auto simp: serve_inv_def)
  have "answered ((sendResponse E s hd1 x)\<lparr>reader := Reading\<rparr>) (ms @ [(hd1, x)])"
    using ms(1) o(1) assms(4,5) by (auto simp: answered_def msgs_snoc)
  with o ms show "flushed (cc ((sendResponse E s hd1 x)\<lparr>reader := Reading\<rparr>)) \<and>
      (\<forall>h \<in> set (hs ((sendResponse E s hd1 x)\<lparr>reader := Reading\<rparr>)). handler_ok h) \<and>
      (\<exists>ms. answered ((sendResponse E s hd1 x)\<lparr>reader := Reading\<rparr>) ms)" by auto
qed

lemma handler_okD: "serve_inv s \<Longrightarrow> \<not> crashed s \<Longrightarrow> i < length (hs s) \<Longrightarrow> handler_ok (hs s ! i)"
  by (simp add: serve_inv_def)

lemma serve_inv_step:
  assumes "headers_encode E" "serve_inv s" "serve_step E s t"
  shows "serve_inv t"
  using assms(3,2)
proof (induction rule: serve_step.induct)
  case (read_ok s q c)
  then show ?case using readRequest_frame [OF read_ok(3)]
    by (auto simp: serve_inv_def answered_def flushed_def handler_ok_def owed_def)
next
  case (read_err s h e c)
  then show ?case using readRequest_frame [OF read_err(3)]
    by (auto simp: serve_inv_def answered_def flushed_def)
next
  case (read_fail s e c)
  then show ?case using readRequest_frame [OF read_fail(3)]
    by (auto simp: serve_inv_def answered_def flushed_def)
next
  case (read_panic s m)
  then show ?case by (simp add: serve_inv_def)
next
  case (reply_err s h e)
  then show ?case by (intro serve_inv_reply [OF assms(1)]) auto
next
  case (close s)
  then show ?case by (auto simp: serve_inv_def answered_def flushed_def gob_Close_def)
next
  case (call_start s i h)
  then have "serve_inv (set_handler i (h\<lparr>h_sub := SRun\<rparr>) s)"
    using handler_okD [of s i] by (intro serve_inv_handler) (auto simp: handler_ok_def owed_def)
  then show ?case by (auto simp: serve_inv_def answered_def)
next
  case (call_return s i h e r)
  then show ?case using handler_okD [of s i] by (intro serve_inv_handler) (auto simp: handler_ok_def owed_def)
next
  case (call_panic s i h m)
  then show ?case by (simp add: serve_inv_def)
next
  case (called s i h e r)
  then show ?case by (intro serve_inv_handler) (auto simp: handler_ok_def owed_def)
next
  case (send s i h e r)
  then show ?case using handler_okD [of s i]
    by (intro serve_inv_send [OF assms(1)]) (auto simp: handler_ok_def owed_def)
next
  case (sent s i h)
  then show ?case by (intro serve_inv_handler) (auto simp: handler_ok_def owed_def)
next
  case (timeout s i h)
  then show ?case using handler_okD [of s i] by (intro serve_inv_handler) (auto simp: handler_ok_def owed_def)
next
  case (send_timeout s i h)
  then show ?case using handler_okD [of s i]
    by (intro serve_inv_send [OF assms(1)]) (auto simp: handler_ok_def owed_def)
qed

lemma serve_inv_start: "flushed c \<Longrightarrow> out c = [] \<Longrightarrow> serve_inv (serveCodec sm c)"
  by (simp add: serve_inv_def serveCodec_def answered_def msgs_def)

interpretation serve: inductive_invariant "\<lambda>s. \<exists>sm i e. s = serveCodec sm (NewGobCodec i e)" "serve_step E"
  "\<lambda>s. headers_encode E \<longrightarrow> serve_inv s" for E
  by unfold_locales (auto intro: serve_inv_step serve_inv_start simp: NewGobCodec_def flushed_def)

section \<open>Well-formed input is read to its end\<close>

text \<open>A request that can be served: its method exists, its values can be allocated, its body decodes.\<close>

definition served :: "(rtype \<Rightarrow> 'b \<Rightarrow> 'b option) \<Rightarrow> serviceMap \<Rightarrow> Header \<times> 'b \<Rightarrow> bool" where
  "served d sm m \<longleftrightarrow> (\<exists>svc mt a r. findService sm (ServiceMethod (fst m)) = Inr (svc, mt) \<and>
     newArgv mt = Ret a \<and> newReplyv mt = Ret r \<and> d (ArgType mt) (snd m) \<noteq> None)"

lemma readRequest_served:
  assumes "served d sm (h, x)" "inp c = WHeader h # WBody x # r"
  shows "\<exists>q. readRequest d sm c = Ret (ReadOk q, c\<lparr>inp := r\<rparr>) \<and> r_h q = h"
  using assms by (auto simp: served_def readRequest_def readRequestHeader_def ReadHeader_def ReadBody_def)

lemma findService_count_call:
  assumes "findService sm m = Inr (svc, mt)"
  shows "\<exists>svc' mt'. findService (count_call sm q) m = Inr (svc', mt') \<and> ArgType mt' = ArgType mt \<and> ReplyType mt' = ReplyType mt"
  using assms
  by (auto simp: findService_def count_call_def add_call_def Let_def split: if_splits option.splits)

lemma served_count_call: "served d sm m \<Longrightarrow> served d (count_call sm q) m"
  using findService_count_call [of sm "ServiceMethod (fst m)" _ _ q]
  by (fastforce simp: served_def newArgv_def newReplyv_def)

definition seqs :: "(Header \<times> 'b) list \<Rightarrow> u64 list" where
  "seqs ms = map (\<lambda>m. Seq (fst m)) ms"

lemma seqs_simps [simp]: "seqs [] = []" "seqs ((h, x) # ms) = Seq h # seqs ms"
  by (simp_all add: seqs_def)

definition input_inv :: "'b env \<Rightarrow> (Header \<times> 'b) list \<Rightarrow> 'b conn \<Rightarrow> bool" where
  [invs]: "input_inv E ms s \<longleftrightarrow> (\<exists>rest. inp (cc s) = msgs rest \<and> got s @ seqs rest = seqs ms \<and>
     (\<forall>m \<in> set rest. served (e_decode E) (smap s) m) \<and>
     (reader s = Reading \<or> reader s \<in> {Draining, Closed} \<and> rest = []))"

lemma input_inv_frame:
  "input_inv E ms s \<Longrightarrow> inp (cc t) = inp (cc s) \<Longrightarrow> got t = got s \<Longrightarrow> smap t = smap s \<Longrightarrow> reader t = reader s \<Longrightarrow>
     input_inv E ms t"
  by (simp add: input_inv_def)

lemma input_inv_read:
  assumes "input_inv E ms s" "reader s = Reading" "readRequest (e_decode E) (smap s) (cc s) = y"
  shows "(\<exists>c. y = Ret (ReadFail (inp_err (cc s)), c) \<and> inp c = [] \<and> got s = seqs ms) \<or>
    (\<exists>q c rest. y = Ret (ReadOk q, c) \<and> inp c = msgs rest \<and> got s @ Seq (r_h q) # seqs rest = seqs ms \<and>
      (\<forall>m \<in> set rest. served (e_decode E) (smap s) m))"
proof -
  from assms(1) obtain rest where rest: "inp (cc s) = msgs rest" "got s @ seqs rest = seqs ms"
      "\<forall>m \<in> set rest. served (e_decode E) (smap s) m" by (auto simp: input_inv_def)
  show ?thesis
  proof (cases rest)
    case Nil
    with rest assms(3) show ?thesis by (auto simp: readRequest_def readRequestHeader_def ReadHeader_def)
  next
    case (Cons m rest')
    obtain h x where m: "m = (h, x)" by fastforce
    from readRequest_served [of "e_decode E" "smap s" h x "cc s" "msgs rest'"] rest Cons m assms(3)
    show ?thesis by (force simp: seqs_def)
  qed
qed

lemma input_inv_step:
  assumes "input_inv E ms s" "serve_step E s t"
  shows "input_inv E ms t"
  using assms(2,1)
proof (induction rule: serve_step.induct)
  case (read_ok s q c)
  then show ?case using input_inv_read [OF read_ok.prems read_ok(2,3)] by (auto simp: input_inv_def)
next
  case (read_err s h e c)
  then show ?case using input_inv_read [OF read_err.prems read_err(2,3)] by auto
next
  case (read_fail s e c)
  then show ?case using input_inv_read [OF read_fail.prems read_fail(2,3)]
    by (auto simp: input_inv_def intro!: exI [of _ "[]"])
next
  case (read_panic s m)
  then show ?case by (auto elim: input_inv_frame)
next
  case (reply_err s h e)
  then show ?case by (auto simp: input_inv_def)
next
  case (close s)
  then show ?case by (auto simp: input_inv_def gob_Close_def)
next
  case (call_start s i h)
  then show ?case by (auto simp: input_inv_def served_count_call)
qed (auto elim!: input_inv_frame)

interpretation wf_input: inductive_invariant
  "\<lambda>s. \<exists>sm e. s = serveCodec sm (NewGobCodec (msgs ms) e) \<and> (\<forall>m \<in> set ms. served (e_decode E) sm m)"
  "serve_step E" "input_inv E ms" for E ms
proof (unfold_locales, goal_cases)
  case (1 s)
  then show ?case by (auto simp: input_inv_def serveCodec_def NewGobCodec_def)
qed (rule input_inv_step)

text \<open>A connection is closed after the last handler returned.\<close>

interpretation closed_done: inductive_invariant "\<lambda>s. hs s = []" "serve_step E"
  "\<lambda>s. reader s = Closed \<longrightarrow> (\<forall>h \<in> set (hs s). h_main h = MDone)" for E
proof (unfold_locales, goal_cases)
  case (2 s t)
  from 2(2,1) show ?case
    by (induction rule: serve_step.induct) (auto dest!: in_set_updateD dest: bspec [OF _ nth_mem])
qed simp

section \<open>Every run of a connection ends\<close>

fun sub_weight :: "'b sub \<Rightarrow> nat" where
  "sub_weight SNew = 5"
| "sub_weight SRun = 4"
| "sub_weight (SCalled e r) = 3"
| "sub_weight (SSend e r) = 2"
| "sub_weight SSent = 1"
| "sub_weight SEnd = 0"

fun main_weight :: "main \<Rightarrow> nat" where
  "main_weight MWait = 2"
| "main_weight MSent = 1"
| "main_weight MTimeout = 1"
| "main_weight MDone = 0"

fun reader_weight :: "reader \<Rightarrow> nat" where
  "reader_weight Reading = 2"
| "reader_weight (Replying h e) = 3"
| "reader_weight Draining = 1"
| "reader_weight Closed = 0"

definition handler_weight :: "'b handler \<Rightarrow> nat" where
  "handler_weight h = sub_weight (h_sub h) + main_weight (h_main h)"

definition serve_weight :: "'b conn \<Rightarrow> nat" where
  "serve_weight s = (if crashed s then 0 else
     Suc (8 * length (inp (cc s)) + reader_weight (reader s) + sum_list (map handler_weight (hs s))))"

lemma readRequest_consumes:
  assumes "readRequest d sm c = Ret (r, c')"
  shows "length (inp c') \<le> length (inp c) \<and> ((\<nexists>e. r = ReadFail e) \<longrightarrow> length (inp c') < length (inp c))"
  using assms
  by (auto simp: readRequest_def readRequestHeader_def ReadHeader_def ReadBody_def bind_exec_Ret_iff
      split: list.splits wire.splits sum.splits option.splits)

lemma handler_weight_update:
  assumes "i < length (hs s)" "handler_weight h < handler_weight (hs s ! i)"
  shows "sum_list (map handler_weight ((hs s)[i := h])) < sum_list (map handler_weight (hs s))"
  using sum_list_map_update [OF assms(1), of handler_weight h] assms(2) by linarith

lemma sendResponse_crashed: "crashed s \<Longrightarrow> crashed (sendResponse E s h x)"
  by (simp add: sendResponse_def split: prod.splits exec.splits)

lemma serve_weight_step: "serve_step E s t \<Longrightarrow> serve_weight t < serve_weight s"
proof (induction rule: serve_step.induct)
  case (read_ok s q c)
  then show ?case using readRequest_consumes [OF read_ok(3)] by (simp add: serve_weight_def handler_weight_def)
next
  case (read_err s h e c)
  then show ?case using readRequest_consumes [OF read_err(3)] by (simp add: serve_weight_def)
next
  case (read_fail s e c)
  then show ?case using readRequest_consumes [OF read_fail(3)] by (simp add: serve_weight_def)
next
  case (close s)
  then show ?case by (simp add: serve_weight_def gob_Close_def)
qed (auto simp: serve_weight_def handler_weight_def intro!: handler_weight_update)

lemma Elem_returns: "Elem t \<noteq> Hang"
  by (induction t) auto

lemma readRequest_returns: "readRequest d sm c \<noteq> Hang"
  by (auto simp: readRequest_def readRequestHeader_def ReadHeader_def ReadBody_def newArgv_def newReplyv_def
      Elem_returns bind_exec_Hang_iff split: list.splits wire.splits sum.splits option.splits prod.splits)

lemma read_progress:
  assumes "\<not> crashed s" "reader s = Reading"
  shows "\<exists>t. serve_step E s t"
proof -
  consider q c where "readRequest (e_decode E) (smap s) (cc s) = Ret (ReadOk q, c)"
    | h e c where "readRequest (e_decode E) (smap s) (cc s) = Ret (ReadErr h e, c)"
    | e c where "readRequest (e_decode E) (smap s) (cc s) = Ret (ReadFail e, c)"
    | m where "readRequest (e_decode E) (smap s) (cc s) = Panic m"
    using readRequest_returns [of "e_decode E" "smap s" "cc s"]
    by (cases "readRequest (e_decode E) (smap s) (cc s)") (auto, metis read_result.exhaust)
  then show ?thesis
    by cases (use assms read_ok read_err read_fail read_panic in blast)+
qed

text \<open>A request whose goroutine has not returned can go on, if there is a timeout or methods return.\<close>

lemma call_progress:
  assumes "\<not> crashed s" "i < length (hs s)" "h = hs s ! i" "h_main h = MWait" "handler_ok h" "\<And>q. e_call E q \<noteq> Hang"
  shows "\<exists>t. serve_step E s t \<and> reader t = reader s"
proof (cases "h_sub h")
  case SNew
  from call_start [OF assms(1-3) this, of E] show ?thesis by (intro exI conjI) (assumption, simp)
next
  case SRun
  show ?thesis
  proof (cases "e_call E (h_req h)")
    case (Ret x)
    obtain e r where "x = (e, r)" by fastforce
    with Ret call_return [OF assms(1-3) SRun, of E e r] show ?thesis by (intro exI conjI) (blast, simp)
  next
    case (Panic m)
    from call_panic [OF assms(1-3) SRun this] show ?thesis by (intro exI conjI) (assumption, simp)
  qed (use assms(6) in blast)
next
  case (SCalled e r)
  from called [OF assms(1-3) this assms(4), of E] show ?thesis by (intro exI conjI) (assumption, simp)
qed (use assms(4,5) in \<open>auto simp: handler_ok_def\<close>)

lemma handler_progress:
  assumes "\<not> crashed s" "i < length (hs s)" "h = hs s ! i" "h_main h \<noteq> MDone" "handler_ok h"
    and "e_timeout E \<noteq> 0 \<or> (\<forall>q. e_call E q \<noteq> Hang)"
  shows "\<exists>t. serve_step E s t \<and> reader t = reader s"
proof (cases "h_main h")
  case MWait
  show ?thesis
  proof (cases "e_timeout E = 0")
    case True
    with assms(6) show ?thesis by (intro call_progress [OF assms(1-3) MWait assms(5)]) simp
  next
    case False
    from timeout [OF assms(1-3) MWait this] show ?thesis by (intro exI conjI) (assumption, simp)
  qed
next
  case MSent
  with assms(5) consider e r where "h_sub h = SSend e r" | "h_sub h = SSent" by (auto simp: handler_ok_def)
  then show ?thesis
  proof cases
    case 1
    from send [OF assms(1-3) this, of E] show ?thesis by (intro exI conjI) (assumption, simp)
  next
    case 2
    from sent [OF assms(1-3) this MSent, of E] show ?thesis by (intro exI conjI) (assumption, simp)
  qed
next
  case MTimeout
  from send_timeout [OF assms(1-3) this, of E] show ?thesis by (intro exI conjI) (assumption, simp)
qed (use assms(4) in simp)

lemma serve_stuck:
  assumes "serve_inv s" "e_timeout E \<noteq> 0" "\<And>t. \<not> serve_step E s t"
  shows "crashed s \<or> reader s = Closed"
proof (rule ccontr)
  assume "\<not> (crashed s \<or> reader s = Closed)"
  then have c: "\<not> crashed s" and r: "reader s \<noteq> Closed" by auto
  show False
  proof (cases "reader s")
    case Reading
    with read_progress [OF c, of E] assms(3) show False by blast
  next
    case (Replying h e)
    then show False using assms(3) c reply_err by blast
  next
    case Draining
    then obtain h where "h \<in> set (hs s)" "h_main h \<noteq> MDone" using assms(3) c close by blast
    then obtain i where i: "i < length (hs s)" "h_main (hs s ! i) \<noteq> MDone" by (auto simp: in_set_conv_nth)
    from handler_progress [OF c i(1) refl i(2) handler_okD [OF assms(1) c i(1)], of E] assms(2,3) show False by blast
  qed (use r in simp)
qed

section \<open>Properties\<close>

text \<open>A server with the service \<open>Foo\<close>, whose method \<open>Sum\<close> never returns, and a timeout.\<close>

definition foo_services :: serviceMap where
  "foo_services = [''Foo'' \<mapsto> \<lparr>s_name = ''Foo'', s_typ = [sum_method], s_method = [''Sum'' \<mapsto> method_of sum_method]\<rparr>]"

definition hanging :: "nat env" where
  "hanging = \<lparr>e_decode = (\<lambda>t. Some), e_encH = (\<lambda>h. None), e_encB = (\<lambda>x. None), e_call = (\<lambda>q. Hang),
     invalidRequest = 0, e_timeout = 1, e_timeout_String = ''1ns''\<rparr>"

definition foo_header :: Header where
  "foo_header = \<lparr>ServiceMethod = ''Foo.Sum'', Seq = 1, h_Error = ''''\<rparr>"

lemma foo_served: "served (e_decode hanging) foo_services (foo_header, 3)"
proof -
  have "LastIndex ''Foo.Sum'' ''.'' = 3" by (simp add: LastIndex_def HasPrefix_def)
  then have "findService foo_services (ServiceMethod foo_header) =
      Inr (\<lparr>s_name = ''Foo'', s_typ = [sum_method], s_method = [''Sum'' \<mapsto> method_of sum_method]\<rparr>, method_of sum_method)"
    by (simp add: findService_def foo_services_def foo_header_def)
  moreover have "\<exists>a. newArgv (method_of sum_method) = Ret a" "\<exists>r. newReplyv (method_of sum_method) = Ret r"
    by (simp_all add: newArgv_def newReplyv_def method_of_def sum_method_def)
  ultimately show ?thesis by (auto simp: served_def hanging_def)
qed

lemma hanging_run:
  fixes err
  defines "s0 \<equiv> ServeConn foo_services (Inr (DefaultOption\<lparr>HandleTimeout := 1\<rparr>)) (msgs [(foo_header, 3)]) err"
  shows "\<exists>s. reach (\<lambda>s. s = s0) (serve_step hanging) s \<and> reader s = Closed \<and> \<not> crashed s"
proof -
  let ?E = hanging
  have s0: "s0 = serveCodec foo_services (NewGobCodec [WHeader foo_header, WBody 3] err)"
    by (simp add: s0_def ServeConn_def DefaultOption_def NewCodecFuncMap_def)
  from readRequest_served [OF foo_served, of "cc s0" "[]"] obtain q where
    q: "readRequest (e_decode ?E) (smap s0) (cc s0) = Ret (ReadOk q, (cc s0)\<lparr>inp := []\<rparr>)"
    by (auto simp: s0 serveCodec_def NewGobCodec_def)
  define h where "h = \<lparr>h_req = q, h_sub = SNew :: nat sub, h_main = MWait\<rparr>"
  define s1 where "s1 = s0\<lparr>cc := (cc s0)\<lparr>inp := []\<rparr>, hs := hs s0 @ [h], got := got s0 @ [Seq (r_h q)]\<rparr>"
  define h2 where "h2 = h\<lparr>h_main := MTimeout\<rparr>"
  define s2 where "s2 = set_handler 0 h2 s1"
  define s3 where "s3 = set_handler 0 (h2\<lparr>h_main := MDone\<rparr>)
    (sendResponse ?E s2 (with_error (r_h (h_req h2)) (Some (timeout_error ?E))) (invalidRequest ?E))"
  define s4 where "s4 = s3\<lparr>cc := cc s3, reader := Draining\<rparr>"
  define s5 where "s5 = s4\<lparr>cc := gob_Close (cc s4), reader := Closed\<rparr>"
  have 0: "reader s0 = Reading" "\<not> crashed s0" "hs s0 = []" by (simp_all add: s0 serveCodec_def)
  have c3: "\<not> crashed s3"
    using 0 by (simp add: s3_def s2_def s1_def sendResponse_def gob_Write_def hanging_def)
  have i3: "inp (cc s3) = []" "reader s3 = Reading" "hs s3 = [h2\<lparr>h_main := MDone\<rparr>]"
    using 0 by (simp_all add: s3_def s2_def s1_def)
  have "serve_step ?E s0 s1" unfolding s1_def h_def by (rule read_ok [OF 0(2,1) q])
  moreover have "serve_step ?E s1 s2"
    unfolding s2_def h2_def by (rule timeout) (use 0 in \<open>simp_all add: s1_def h_def hanging_def\<close>)
  moreover have "serve_step ?E s2 s3"
    unfolding s3_def by (rule send_timeout) (use 0 in \<open>simp_all add: s2_def s1_def h2_def\<close>)
  moreover have "serve_step ?E s3 s4"
    unfolding s4_def using c3 i3
    by (intro read_fail [where e = "inp_err (cc s3)"]) (auto simp: readRequest_def readRequestHeader_def ReadHeader_def)
  moreover have "serve_step ?E s4 s5"
    unfolding s5_def using c3 i3 by (intro close) (simp_all add: s4_def)
  moreover have "reader s5 = Closed" "\<not> crashed s5" using c3 by (simp_all add: s5_def s4_def)
  ultimately have "(serve_step ?E)\<^sup>*\<^sup>* s0 s5" "reader s5 = Closed" "\<not> crashed s5" by auto
  then show ?thesis using reach_rtranclp [OF reach_init [of "\<lambda>s. s = s0" s0]] by blast
qed



definition desync_inv :: "Header \<Rightarrow> 'b \<Rightarrow> 'b wire list \<Rightarrow> serviceMap \<Rightarrow> 'b conn \<Rightarrow> bool" where
  [invs]: "desync_inv h x rest sm s \<longleftrightarrow> hs s = [] \<and> smap s = sm \<and>
     (inp (cc s) = WHeader h # WBody x # rest \<and> reader s = Reading \<and> got s = [] \<or>
      inp (cc s) = WBody x # rest \<and> (reader s = Reading \<or> (\<exists>e. reader s = Replying h e)) \<and> got s = [Seq h] \<or>
      reader s \<in> {Draining, Closed} \<and> got s = [Seq h])"

lemma desync_inv_step:
  assumes "findService sm (ServiceMethod h) = Inl e" "desync_inv h x rest sm s" "serve_step E s t"
  shows "desync_inv h x rest sm t"
  using assms(3,2,1)
  by (induction rule: serve_step.induct)
    (auto simp: desync_inv_def readRequest_def readRequestHeader_def ReadHeader_def gob_Close_def)



end
