(* ===== verification/RpcClient.thy ===== *)
theory RpcClient
  imports RpcServer "HOL-Library.AList"
begin

text \<open>
  \<^verbatim>\<open>geerpc/client.go\<close>: the client of a connection, shared by any number of goroutines. The
  operations under \<open>client.mu\<close> are functions; the goroutines around them (the callers in
  \<open>send\<close> and in \<open>Call\<close>, and the loop of \<open>receive\<close>) form a transition system in which the
  network answers in any way: writes and reads succeed or fail, and headers have any content.
\<close>

section \<open>Calls and the client\<close>

text \<open>
  The goroutine that made a call: holding \<open>sending\<close> while it writes the request; past \<open>send\<close>;
  in the \<open>select\<close> of \<open>Call\<close>; returned from \<open>Call\<close> with an error or nil.
\<close>

datatype caller = Writing u64 | Sent | Selecting | Returned "error option"

text \<open>
  \<open>chan\<close> counts the values in the channel \<open>Done\<close> and \<open>dones\<close> the calls of \<open>done()\<close> so far; \<open>sync\<close>
  tells a caller of \<open>Call\<close> from one of \<open>Go\<close>.
\<close>

record 'b Call =
  c_Seq :: u64
  c_ServiceMethod :: string
  c_Args :: 'b
  c_Reply :: "'b option"
  c_Error :: "error option"
  chan :: nat
  dones :: nat
  sync :: bool
  pc :: caller

record 'b Client =
  header :: Header
  seq :: u64
  pending :: "(u64 \<times> nat) list"
  closing :: bool
  shutdown :: bool
  calls :: "nat \<Rightarrow> 'b Call"
  ncalls :: nat
  cc_closed :: bool

definition ErrShutdown :: error where
  "ErrShutdown = Errorf ''connection is shut down''"

definition client_Close :: "'b Client \<Rightarrow> error option \<times> 'b Client" where
  "client_Close c = (if closing c then (Some ErrShutdown, c) else (None, c\<lparr>closing := True, cc_closed := True\<rparr>))"

definition IsAvailable :: "'b Client \<Rightarrow> bool" where
  "IsAvailable c \<longleftrightarrow> \<not> closing c \<and> \<not> shutdown c"

definition upd_call :: "nat \<Rightarrow> ('b Call \<Rightarrow> 'b Call) \<Rightarrow> 'b Client \<Rightarrow> 'b Client" where
  "upd_call i f c = c\<lparr>calls := (calls c)(i := f (calls c i))\<rparr>"

definition registerCall :: "'b Client \<Rightarrow> nat \<Rightarrow> (error + u64) \<times> 'b Client" where
  "registerCall c i =
     (if closing c \<or> shutdown c then (Inl ErrShutdown, c)
      else (Inr (seq c), (upd_call i (\<lambda>x. x\<lparr>c_Seq := seq c\<rparr>) c)
              \<lparr>pending := AList.update (seq c) i (pending c), seq := seq c + 1\<rparr>))"

definition removeCall :: "'b Client \<Rightarrow> u64 \<Rightarrow> nat option \<times> 'b Client" where
  "removeCall c q = (map_of (pending c) q, c\<lparr>pending := AList.delete q (pending c)\<rparr>)"

text \<open>\<open>call.Error = err; call.done()\<close>, with a buffered channel that has room.\<close>

definition call_done :: "'b Call \<Rightarrow> 'b Call" where
  "call_done x = x\<lparr>chan := chan x + 1, dones := dones x + 1\<rparr>"

definition fail_call :: "error \<Rightarrow> 'b Call \<Rightarrow> 'b Call" where
  "fail_call e x = call_done (x\<lparr>c_Error := Some e\<rparr>)"

definition terminateCalls :: "'b Client \<Rightarrow> error \<Rightarrow> 'b Client" where
  "terminateCalls c e = fold (\<lambda>(q, i). upd_call i (fail_call e)) (pending c) (c\<lparr>shutdown := True\<rparr>)"

definition newClientCodec :: "'b Call \<Rightarrow> 'b Client" where
  "newClientCodec x = \<lparr>header = \<lparr>ServiceMethod = '''', Seq = 0, h_Error = ''''\<rparr>, seq = 1, pending = [],
     closing = False, shutdown = False, calls = (\<lambda>i. x), ncalls = 0, cc_closed = False\<rparr>"

section \<open>Options and connecting\<close>

definition parseOption :: "Option option list \<Rightarrow> error + Option" where
  "parseOption opts =
     (if length opts = 0 \<or> opts ! 0 = None then Inr DefaultOption
      else if length opts \<noteq> 1 then Inl (Errorf ''number of option is more than 1'')
      else
        (let opt = (the (opts ! 0))\<lparr>opt_MagicNumber := opt_MagicNumber DefaultOption\<rparr> in
         Inr (if CodcType opt = '''' then opt\<lparr>CodcType := CodcType DefaultOption\<rparr> else opt)))"

text \<open>
  \<open>NewClient\<close>: \<open>conn\<close> is nil, or a connection on which writing the options has the given
  outcome. A nil connection is dereferenced by the JSON encoder. \<open>x\<close> fills the unused calls.
\<close>

definition NewClient :: "'b Call \<Rightarrow> error option option \<Rightarrow> Option \<Rightarrow> (error + 'b Client) exec" where
  "NewClient x conn opt =
     (case (NewCodecFuncMap (CodcType opt) :: ('b wire list \<Rightarrow> error \<Rightarrow> 'b GobCodec) option) of
        None \<Rightarrow> Ret (Inl (Errorf (''invalid codec type '' @ CodcType opt)))
      | Some f \<Rightarrow>
          (case conn of
             None \<Rightarrow> Panic ''nil pointer dereference''
           | Some None \<Rightarrow> Ret (Inr (newClientCodec x))
           | Some (Some e) \<Rightarrow> Ret (Inl e)))"

text \<open>
  \<open>dialTimeout\<close>: \<open>dialed\<close> is the result of \<open>net.DialTimeout\<close>, whose error the code drops; \<open>late\<close>
  says that \<open>time.After\<close> fires before \<open>f\<close> has returned, \<open>within\<close> is the text of the timeout. The deferred
  function closes the connection, if there is one to close, when no client is returned. A
  connection in \<open>closed\<close> is reported in the result.
\<close>

definition dialTimeout ::
  "(error option option \<Rightarrow> Option \<Rightarrow> (error + 'b Client) exec) \<Rightarrow> error + error option \<Rightarrow> bool \<Rightarrow> string \<Rightarrow>
   Option option list \<Rightarrow> ((error + 'b Client) \<times> bool) exec" where
  "dialTimeout f dialed late within opts =
     (case parseOption opts of
        Inl e \<Rightarrow> Ret (Inl e, False)
      | Inr opt \<Rightarrow>
          (let conn = (case dialed of Inl e \<Rightarrow> None | Inr w \<Rightarrow> Some w) in
           bind_exec (f conn opt) (\<lambda>r.
             let result = (if ConnectTimeout opt \<noteq> 0 \<and> late
                           then Inl (Errorf (''rpc client: connect timeout: expect within '' @ within)) else r)
             in case result of
                  Inr c \<Rightarrow> Ret (Inr c, False)
                | Inl e \<Rightarrow> if conn = None then Panic ''nil pointer dereference'' else Ret (Inl e, True))))"

definition Dial ::
  "'b Call \<Rightarrow> error + error option \<Rightarrow> bool \<Rightarrow> string \<Rightarrow> Option option list \<Rightarrow> ((error + 'b Client) \<times> bool) exec" where
  "Dial x dialed late within opts = dialTimeout (NewClient x) dialed late within opts"

section \<open>The goroutines of a client\<close>

datatype receiver =
    RRead                      \<comment> \<open>in \<open>ReadHeader\<close>\<close>
  | RGot Header "nat option"   \<comment> \<open>after \<open>removeCall\<close>, in \<open>ReadBody\<close>\<close>
  | RTerm error                \<comment> \<open>left the loop, before \<open>terminateCalls\<close>\<close>
  | RStop

record 'b net =
  client :: "'b Client"
  sending :: "nat option"
  receiver :: receiver

definition make_call :: "string \<Rightarrow> 'b \<Rightarrow> bool \<Rightarrow> 'b Call" where
  "make_call sm args s = \<lparr>c_Seq = 0, c_ServiceMethod = sm, c_Args = args, c_Reply = None, c_Error = None,
     chan = 0, dones = 0, sync = s, pc = Sent\<rparr>"

text \<open>
  The capacity of the channel \<open>Done\<close> that \<open>Go\<close> gives a call, for a \<open>done\<close> argument that is nil or a
  channel of some capacity.
\<close>

definition Go_done :: "nat option \<Rightarrow> nat exec" where
  "Go_done cap =
     (case cap of
        None \<Rightarrow> Ret 10
      | Some n \<Rightarrow> if n = 0 then Panic ''rpc client: done channel is unbuffered'' else Ret n)"

text \<open>\<open>Go\<close> makes the call that the next goroutine to get \<open>sending\<close> sends.\<close>

definition add_call_to :: "'b Client \<Rightarrow> 'b Call \<Rightarrow> 'b Client" where
  "add_call_to c x = c\<lparr>calls := (calls c)(ncalls c := x), ncalls := Suc (ncalls c)\<rparr>"

definition set_pc :: "nat \<Rightarrow> caller \<Rightarrow> 'b Client \<Rightarrow> 'b Client" where
  "set_pc i p = upd_call i (\<lambda>x. x\<lparr>pc := p\<rparr>)"

text \<open>The part of \<open>send\<close> up to the write: the call is registered and the header prepared, or
  the call fails at once.\<close>

definition send_begin :: "'b Client \<Rightarrow> nat \<Rightarrow> (u64 option) \<times> 'b Client" where
  "send_begin c i =
     (case registerCall c i of
        (Inl e, c1) \<Rightarrow> (None, upd_call i (fail_call e) c1)
      | (Inr q, c1) \<Rightarrow>
          (Some q, (set_pc i (Writing q) c1)
             \<lparr>header := \<lparr>ServiceMethod = c_ServiceMethod (calls c1 i), Seq = q, h_Error = ''''\<rparr>\<rparr>))"

text \<open>The part of \<open>send\<close> after a write with the outcome \<open>w\<close>.\<close>

definition send_end :: "'b Client \<Rightarrow> u64 \<Rightarrow> error option \<Rightarrow> 'b Client" where
  "send_end c q w =
     (case w of
        None \<Rightarrow> c
      | Some e \<Rightarrow>
          (case removeCall c q of
             (None, c1) \<Rightarrow> c1
           | (Some i, c1) \<Rightarrow> upd_call i (fail_call e) c1))"

text \<open>
  What \<open>receive\<close> does with the call of a header once the body has been read, with the outcome \<open>r\<close>:
  \<open>Errorf\<close> stands for \<open>fmt.Errorf\<close> applied to the text of the header.
\<close>

definition deliver :: "(string \<Rightarrow> error) \<Rightarrow> Header \<Rightarrow> error + 'b option \<Rightarrow> 'b Call \<Rightarrow> 'b Call" where
  "deliver errorf h r x =
     call_done
       (if h_Error h \<noteq> '''' then x\<lparr>c_Error := Some (errorf (h_Error h))\<rparr>
        else
          (case r of
             Inl e \<Rightarrow> x\<lparr>c_Error := Some (Errorf (''reading body'' @ Error e))\<rparr>
           | Inr y \<Rightarrow> x\<lparr>c_Reply := y\<rparr>))"

definition receive_body :: "(string \<Rightarrow> error) \<Rightarrow> Header \<Rightarrow> nat option \<Rightarrow> error + 'b option \<Rightarrow> 'b Client \<Rightarrow> 'b Client" where
  "receive_body errorf h call r c = (case call of None \<Rightarrow> c | Some i \<Rightarrow> upd_call i (deliver errorf h r) c)"

inductive client_step :: "(string \<Rightarrow> error) \<Rightarrow> 'b net \<Rightarrow> 'b net \<Rightarrow> bool" for errorf :: "string \<Rightarrow> error" where
  go: "sending s = None \<Longrightarrow> i = ncalls (client s) \<Longrightarrow>
    send_begin (add_call_to (client s) (make_call sm args sy)) i = (q, c) \<Longrightarrow>
    client_step errorf s (s\<lparr>client := c, sending := map_option (\<lambda>_. i) q\<rparr>)"
| written: "sending s = Some i \<Longrightarrow> pc (calls (client s) i) = Writing q \<Longrightarrow>
    client_step errorf s (s\<lparr>client := set_pc i Sent (send_end (client s) q w), sending := None\<rparr>)"
| recv_header: "receiver s = RRead \<Longrightarrow> removeCall (client s) (Seq h) = (call, c) \<Longrightarrow>
    client_step errorf s (s\<lparr>client := c, receiver := RGot h call\<rparr>)"
| recv_error: "receiver s = RRead \<Longrightarrow> client_step errorf s (s\<lparr>receiver := RTerm e\<rparr>)"
| recv_body: "receiver s = RGot h call \<Longrightarrow>
    client_step errorf s (s\<lparr>client := receive_body errorf h call r (client s),
      receiver := (case r of Inl e \<Rightarrow> RTerm e | Inr y \<Rightarrow> RRead)\<rparr>)"
| terminate: "receiver s = RTerm e \<Longrightarrow> sending s = None \<Longrightarrow>
    client_step errorf s (s\<lparr>client := terminateCalls (client s) e, receiver := RStop\<rparr>)"
| user_close: "client_step errorf s (s\<lparr>client := snd (client_Close (client s))\<rparr>)"
| call_wait: "i < ncalls (client s) \<Longrightarrow> x = calls (client s) i \<Longrightarrow> sync x \<Longrightarrow> pc x = Sent \<Longrightarrow> 0 < chan x \<Longrightarrow>
    client_step errorf s (s\<lparr>client := upd_call i (\<lambda>x. x\<lparr>chan := chan x - 1, pc := Selecting\<rparr>) (client s)\<rparr>)"
| call_reply: "i < ncalls (client s) \<Longrightarrow> x = calls (client s) i \<Longrightarrow> pc x = Selecting \<Longrightarrow> 0 < chan x \<Longrightarrow>
    client_step errorf s (s\<lparr>client := upd_call i (\<lambda>x. x\<lparr>chan := chan x - 1, pc := Returned (c_Error x)\<rparr>) (client s)\<rparr>)"
| call_ctx: "i < ncalls (client s) \<Longrightarrow> x = calls (client s) i \<Longrightarrow> pc x = Selecting \<Longrightarrow>
    removeCall (client s) (c_Seq x) = (call, c) \<Longrightarrow>
    client_step errorf s (s\<lparr>client := set_pc i (Returned (Some (Errorf (''rpc client:call failed: '' @ ctx_err)))) c\<rparr>)"

definition client_start :: "'b net \<Rightarrow> bool" where
  "client_start s \<longleftrightarrow> (\<exists>x. s = \<lparr>client = newClientCodec x, sending = None, receiver = RRead\<rparr>)"

section \<open>Invariant\<close>

text \<open>Sequence numbers: every registered call has its own, and \<open>pending\<close> maps it to the call.\<close>

definition seq_inv :: "'b Client \<Rightarrow> bool" where
  "seq_inv c \<longleftrightarrow> distinct (map fst (pending c)) \<and>
     (\<forall>q i. (q, i) \<in> set (pending c) \<longrightarrow> i < ncalls c \<and> q = c_Seq (calls c i) \<and> q \<noteq> 0) \<and>
     0 < unat (seq c) \<and> unat (seq c) \<le> ncalls c + 1 \<and>
     (\<forall>i < ncalls c. unat (c_Seq (calls c i)) < unat (seq c)) \<and>
     (\<forall>i < ncalls c. \<forall>j < ncalls c. c_Seq (calls c i) = c_Seq (calls c j) \<longrightarrow> c_Seq (calls c i) \<noteq> 0 \<longrightarrow> i = j)"

lemma seq_invD:
  assumes "seq_inv c"
  shows "distinct (map fst (pending c))"
    and "(q, i) \<in> set (pending c) \<Longrightarrow> i < ncalls c \<and> q = c_Seq (calls c i) \<and> q \<noteq> 0"
    and "0 < unat (seq c)" "unat (seq c) \<le> ncalls c + 1"
    and "i < ncalls c \<Longrightarrow> unat (c_Seq (calls c i)) < unat (seq c)"
    and "i < ncalls c \<Longrightarrow> j < ncalls c \<Longrightarrow> c_Seq (calls c i) = c_Seq (calls c j) \<Longrightarrow> c_Seq (calls c i) \<noteq> 0 \<Longrightarrow> i = j"
  using assms unfolding seq_inv_def by blast+

lemma seq_invI:
  assumes "distinct (map fst (pending c))"
    and "\<And>q i. (q, i) \<in> set (pending c) \<Longrightarrow> i < ncalls c \<and> q = c_Seq (calls c i) \<and> q \<noteq> 0"
    and "0 < unat (seq c)" "unat (seq c) \<le> ncalls c + 1"
    and "\<And>i. i < ncalls c \<Longrightarrow> unat (c_Seq (calls c i)) < unat (seq c)"
    and "\<And>i j. i < ncalls c \<Longrightarrow> j < ncalls c \<Longrightarrow> c_Seq (calls c i) = c_Seq (calls c j) \<Longrightarrow> c_Seq (calls c i) \<noteq> 0 \<Longrightarrow> i = j"
  shows "seq_inv c"
  unfolding seq_inv_def using assms by blast

text \<open>A call is open while it is pending or with the receiver, which has taken it out.\<close>

definition pend :: "'b Client \<Rightarrow> nat \<Rightarrow> bool" where
  "pend c i \<longleftrightarrow> i \<in> snd ` set (pending c)"

definition taken :: "'b net \<Rightarrow> nat \<Rightarrow> bool" where
  "taken s i \<longleftrightarrow> (\<exists>h. receiver s = RGot h (Some i))"

definition due :: "'b net \<Rightarrow> nat \<Rightarrow> nat" where
  "due s i = (if receiver s \<noteq> RStop \<and> (pend (client s) i \<or> taken s i) then 0 else 1)"

fun caller_inv :: "nat \<Rightarrow> nat \<Rightarrow> caller \<Rightarrow> bool" where
  "caller_inv n d (Writing q) = (n = d)"
| "caller_inv n d Sent = (n = d)"
| "caller_inv n d Selecting = (n = 0 \<and> d = 1)"
| "caller_inv n d (Returned r) = (n = 0 \<and> d = 1 \<and> (\<exists>m. r = Some (Errorf (''rpc client:call failed: '' @ m))))"

definition calls_inv :: "'b net \<Rightarrow> bool" where
  "calls_inv s \<longleftrightarrow> (\<forall>i < ncalls (client s). let x = calls (client s) i in
     dones x = due s i \<and> caller_inv (chan x) (dones x) (pc x))"

definition take_inv :: "'b net \<Rightarrow> bool" where
  "take_inv s \<longleftrightarrow> (\<forall>h i. receiver s = RGot h (Some i) \<longrightarrow>
     i < ncalls (client s) \<and> \<not> pend (client s) i \<and> c_Seq (calls (client s) i) = Seq h \<and> Seq h \<noteq> 0)"

definition send_inv :: "'b net \<Rightarrow> bool" where
  "send_inv s \<longleftrightarrow> (\<forall>i. sending s = Some i \<longrightarrow> i < ncalls (client s)) \<and>
     (receiver s = RStop \<longrightarrow> shutdown (client s) \<and> sending s = None)"

definition client_inv :: "'b net \<Rightarrow> bool" where
  [invs]: "client_inv s \<longleftrightarrow> seq_inv (client s) \<and> calls_inv s \<and> take_inv s \<and> send_inv s"

lemma upd_call_simps [simp]:
  "header (upd_call i f c) = header c" "seq (upd_call i f c) = seq c" "pending (upd_call i f c) = pending c"
  "closing (upd_call i f c) = closing c" "shutdown (upd_call i f c) = shutdown c"
  "ncalls (upd_call i f c) = ncalls c" "calls (upd_call i f c) = (calls c)(i := f (calls c i))"
  by (simp_all add: upd_call_def)

lemma pend_upd_call [simp]: "pend (upd_call i f c) = pend c"
  by (simp add: pend_def fun_eq_iff)

lemma call_done_simps [simp]:
  "c_Seq (call_done x) = c_Seq x" "pc (call_done x) = pc x" "chan (call_done x) = chan x + 1"
  "dones (call_done x) = dones x + 1"
  by (simp_all add: call_done_def)

lemma fail_call_simps [simp]:
  "c_Seq (fail_call e x) = c_Seq x" "pc (fail_call e x) = pc x" "chan (fail_call e x) = chan x + 1"
  "dones (fail_call e x) = dones x + 1"
  by (simp_all add: fail_call_def)

lemma deliver_simps [simp]:
  "c_Seq (deliver F h r x) = c_Seq x" "pc (deliver F h r x) = pc x" "chan (deliver F h r x) = chan x + 1"
  "dones (deliver F h r x) = dones x + 1"
  by (simp_all add: deliver_def split: sum.split)

text \<open>Changes of a call that keep its sequence number keep the numbering.\<close>

lemma seq_inv_cong:
  assumes "seq_inv c" "pending c' = pending c" "seq c' = seq c" "ncalls c' = ncalls c"
    "\<And>i. c_Seq (calls c' i) = c_Seq (calls c i)"
  shows "seq_inv c'"
  using assms(1) unfolding seq_inv_def assms(2-5) .

lemma seq_inv_upd: "seq_inv c \<Longrightarrow> c_Seq (f (calls c i)) = c_Seq (calls c i) \<Longrightarrow> seq_inv (upd_call i f c)"
  by (erule seq_inv_cong) auto

lemma seq_inv_delete:
  assumes "seq_inv c"
  shows "seq_inv (c\<lparr>pending := AList.delete q (pending c)\<rparr>)"
proof -
  have "set (AList.delete q (pending c)) \<subseteq> set (pending c)" by (auto simp: AList.delete_eq)
  with assms show ?thesis unfolding seq_inv_def by (auto simp: distinct_delete)
qed

lemma pend_delete:
  assumes "seq_inv c"
  shows "pend (c\<lparr>pending := AList.delete q (pending c)\<rparr>) i \<longleftrightarrow> pend c i \<and> c_Seq (calls c i) \<noteq> q"
proof -
  have "\<forall>q i. (q, i) \<in> set (pending c) \<longrightarrow> q = c_Seq (calls c i)" using assms by (simp add: seq_inv_def)
  then show ?thesis by (force simp: pend_def AList.delete_eq image_iff)
qed

lemma map_of_pending:
  assumes "seq_inv c"
  shows "map_of (pending c) q = Some i \<longleftrightarrow> pend c i \<and> q = c_Seq (calls c i)"
proof -
  have d: "distinct (map fst (pending c))" and q: "\<forall>q i. (q, i) \<in> set (pending c) \<longrightarrow> q = c_Seq (calls c i)"
    using assms by (simp_all add: seq_inv_def)
  show ?thesis unfolding map_of_eq_Some_iff [OF d] using q by (force simp: pend_def image_iff)
qed

lemma pend_less: "seq_inv c \<Longrightarrow> pend c i \<Longrightarrow> i < ncalls c \<and> c_Seq (calls c i) \<noteq> 0"
  by (auto simp: seq_inv_def pend_def)

lemma seq_inj:
  "seq_inv c \<Longrightarrow> pend c i \<Longrightarrow> j < ncalls c \<Longrightarrow> c_Seq (calls c i) = c_Seq (calls c j) \<Longrightarrow> i = j"
  using pend_less [of c i] by (auto simp: seq_inv_def)

lemma pending_values_distinct:
  assumes "seq_inv c"
  shows "distinct (map snd (pending c))"
proof -
  have "\<forall>q i. (q, i) \<in> set (pending c) \<longrightarrow> q = c_Seq (calls c i)" using assms by (simp add: seq_inv_def)
  then have "inj_on snd (set (pending c))" unfolding inj_on_def by (metis prod.collapse)
  moreover have "distinct (pending c)" using assms by (auto simp: seq_inv_def distinct_map)
  ultimately show ?thesis by (simp add: distinct_map)
qed

lemma fold_fail_calls:
  "distinct (map snd ps) \<Longrightarrow> calls (fold (\<lambda>(q, i). upd_call i (fail_call e)) ps c) j =
     (if j \<in> snd ` set ps then fail_call e (calls c j) else calls c j)"
  by (induction ps arbitrary: c) (auto simp: rev_image_eqI)

lemma fold_fail_frame [simp]:
  "pending (fold (\<lambda>(q, i). upd_call i (fail_call e)) ps c) = pending c"
  "seq (fold (\<lambda>(q, i). upd_call i (fail_call e)) ps c) = seq c"
  "shutdown (fold (\<lambda>(q, i). upd_call i (fail_call e)) ps c) = shutdown c"
  "ncalls (fold (\<lambda>(q, i). upd_call i (fail_call e)) ps c) = ncalls c"
  by (induction ps arbitrary: c) auto

lemma terminateCalls_simps [simp]:
  "pending (terminateCalls c e) = pending c" "seq (terminateCalls c e) = seq c"
  "shutdown (terminateCalls c e) = True" "ncalls (terminateCalls c e) = ncalls c"
  by (simp_all add: terminateCalls_def)

lemma terminateCalls_calls:
  "seq_inv c \<Longrightarrow> calls (terminateCalls c e) j = (if pend c j then fail_call e (calls c j) else calls c j)"
  by (simp add: terminateCalls_def fold_fail_calls [OF pending_values_distinct] pend_def)

lemma set_pc_simps [simp]:
  "pending (set_pc i p c) = pending c" "seq (set_pc i p c) = seq c" "ncalls (set_pc i p c) = ncalls c"
  "shutdown (set_pc i p c) = shutdown c" "calls (set_pc i p c) = (calls c)(i := (calls c i)\<lparr>pc := p\<rparr>)"
  "pend (set_pc i p c) = pend c"
  by (simp_all add: set_pc_def)

lemma seq_inv_set_pc: "seq_inv c \<Longrightarrow> seq_inv (set_pc i p c)"
  unfolding set_pc_def by (rule seq_inv_upd) auto

lemma update_fresh: "q \<notin> fst ` set ps \<Longrightarrow> AList.update q i ps = ps @ [(q, i)]"
  by (induction ps) auto

lemma caller_inv_open: "caller_inv n 0 p \<Longrightarrow> caller_inv (Suc n) (Suc 0) p"
  by (cases p) auto

lemma client_inv_call:
  assumes "client_inv s" "i < ncalls (client s)"
  shows "dones (calls (client s) i) = due s i"
    and "caller_inv (chan (calls (client s) i)) (due s i) (pc (calls (client s) i))"
  using assms by (auto simp: client_inv_def calls_inv_def Let_def)

lemma client_inv_user_close:
  assumes "client_inv s"
  shows "client_inv (s\<lparr>client := snd (client_Close (client s))\<rparr>)"
proof -
  let ?c = "snd (client_Close (client s))"
  have c: "pending ?c = pending (client s)" "seq ?c = seq (client s)" "ncalls ?c = ncalls (client s)"
    "calls ?c = calls (client s)" "shutdown ?c = shutdown (client s)"
    by (simp_all add: client_Close_def)
  then have "seq_inv ?c" using assms by (auto simp: client_inv_def elim: seq_inv_cong)
  moreover have "pend ?c = pend (client s)" using c by (simp add: pend_def fun_eq_iff)
  moreover from this have "due (s\<lparr>client := ?c\<rparr>) = due s" by (simp add: due_def taken_def fun_eq_iff)
  ultimately show ?thesis using assms c by (simp add: client_inv_def calls_inv_def take_inv_def send_inv_def)
qed

lemma client_inv_recv_header:
  assumes "client_inv s" "receiver s = RRead" "removeCall (client s) (Seq h) = (call, c)"
  shows "client_inv (s\<lparr>client := c, receiver := RGot h call\<rparr>)"
proof -
  have inv: "seq_inv (client s)" using assms(1) by (simp add: client_inv_def)
  have c: "c = (client s)\<lparr>pending := AList.delete (Seq h) (pending (client s))\<rparr>"
      "call = map_of (pending (client s)) (Seq h)"
    using assms(3) by (auto simp: removeCall_def)
  have p: "pend c i \<longleftrightarrow> pend (client s) i \<and> c_Seq (calls (client s) i) \<noteq> Seq h" for i
    unfolding c by (rule pend_delete [OF inv])
  have m: "call = Some i \<longleftrightarrow> pend (client s) i \<and> Seq h = c_Seq (calls (client s) i)" for i
    unfolding c by (rule map_of_pending [OF inv])
  have "due (s\<lparr>client := c, receiver := RGot h call\<rparr>) i = due s i" for i
    using assms(2) p m by (auto simp: due_def taken_def)
  then have "calls_inv (s\<lparr>client := c, receiver := RGot h call\<rparr>)"
    using assms(1) c(1) by (simp add: client_inv_def calls_inv_def)
  moreover have "take_inv (s\<lparr>client := c, receiver := RGot h call\<rparr>)"
    using p m pend_less [OF inv] c(1) by (auto simp: take_inv_def)
  moreover have "send_inv (s\<lparr>client := c, receiver := RGot h call\<rparr>)"
    using assms(1) c(1) by (simp add: client_inv_def send_inv_def)
  ultimately show ?thesis using seq_inv_delete [OF inv, of "Seq h"] c(1) by (simp add: client_inv_def)
qed

lemma client_inv_recv_body:
  assumes "client_inv s" "receiver s = RGot h call"
  shows "client_inv (s\<lparr>client := receive_body F h call r (client s),
    receiver := (case r of Inl e \<Rightarrow> RTerm e | Inr y \<Rightarrow> RRead)\<rparr>)" (is "client_inv ?t")
proof -
  have inv: "seq_inv (client s)" using assms(1) by (simp add: client_inv_def)
  have r: "receiver ?t \<noteq> RStop" "\<not> taken ?t i" for i
    by (auto simp: taken_def split: sum.split)
  show ?thesis
  proof (cases call)
    case None
    then have "due ?t i = due s i" for i using r assms(2) by (auto simp: due_def receive_body_def taken_def)
    with None r assms show ?thesis
      by (auto simp: client_inv_def calls_inv_def take_inv_def send_inv_def receive_body_def taken_def)
  next
    case (Some i)
    have i: "i < ncalls (client s)" "\<not> pend (client s) i"
      using assms Some by (auto simp: client_inv_def take_inv_def)
    have d: "due s i = 0" "due ?t i = 1" using r assms(2) Some i by (auto simp: due_def taken_def receive_body_def)
    have d': "due ?t j = due s j" if "j \<noteq> i" for j
      using r assms(2) Some that by (auto simp: due_def taken_def receive_body_def)
    note call = client_inv_call [OF assms(1) i(1)]
    have "calls_inv ?t"
      using assms(1) d d' Some call caller_inv_open
      by (auto simp: client_inv_def calls_inv_def receive_body_def Let_def)
    moreover have "seq_inv (client ?t)" using inv Some by (auto simp: receive_body_def intro: seq_inv_upd)
    moreover have "take_inv ?t" using r by (auto simp: take_inv_def taken_def)
    moreover have "send_inv ?t" using r assms(1) Some by (auto simp: client_inv_def send_inv_def receive_body_def)
    ultimately show ?thesis by (simp add: client_inv_def)
  qed
qed

lemma client_inv_terminate:
  assumes "client_inv s" "receiver s = RTerm e" "sending s = None"
  shows "client_inv (s\<lparr>client := terminateCalls (client s) e, receiver := RStop\<rparr>)" (is "client_inv ?t")
proof -
  have inv: "seq_inv (client s)" using assms(1) by (simp add: client_inv_def)
  note tc = terminateCalls_calls [OF inv, of e]
  have "c_Seq (calls (terminateCalls (client s) e) i) = c_Seq (calls (client s) i)" for i by (simp add: tc)
  then have "seq_inv (client ?t)" using inv by (auto elim: seq_inv_cong)
  moreover have "calls_inv ?t"
    using assms(1,2) caller_inv_open
    by (auto simp: client_inv_def calls_inv_def Let_def tc due_def taken_def)
  ultimately show ?thesis using assms by (simp add: client_inv_def take_inv_def send_inv_def)
qed

lemma client_inv_set_pc:
  assumes "client_inv s" "\<And>n d. caller_inv n d (pc (calls (client s) i)) \<Longrightarrow> caller_inv n d p"
  shows "client_inv (s\<lparr>client := set_pc i p (client s)\<rparr>)"
proof -
  have "due (s\<lparr>client := set_pc i p (client s)\<rparr>) = due s" by (simp add: due_def taken_def fun_eq_iff)
  with assms show ?thesis
    by (auto simp: client_inv_def calls_inv_def take_inv_def send_inv_def Let_def intro: seq_inv_set_pc)
qed

text \<open>A call is removed before it is completed with an error.\<close>

lemma client_inv_send_end:
  assumes "client_inv s" "sending s = Some k"
  shows "client_inv (s\<lparr>client := send_end (client s) q w\<rparr>)"
proof -
  have inv: "seq_inv (client s)" using assms(1) by (simp add: client_inv_def)
  have run: "receiver s \<noteq> RStop" using assms by (auto simp: client_inv_def send_inv_def)
  let ?c1 = "(client s)\<lparr>pending := AList.delete q (pending (client s))\<rparr>"
  have p: "pend ?c1 i \<longleftrightarrow> pend (client s) i \<and> c_Seq (calls (client s) i) \<noteq> q" for i
    by (rule pend_delete [OF inv])
  note m = map_of_pending [OF inv, of q]
  have inv1: "seq_inv ?c1" by (rule seq_inv_delete [OF inv])
  show ?thesis
  proof (cases w)
    case None
    with assms(1) show ?thesis by (simp add: send_end_def)
  next
    case (Some e)
    show ?thesis
    proof (cases "map_of (pending (client s)) q")
      case None
      then have c: "send_end (client s) q w = ?c1" using Some by (simp add: send_end_def removeCall_def)
      have "pend ?c1 = pend (client s)" using p m None by (auto simp: fun_eq_iff)
      moreover from this have "due (s\<lparr>client := ?c1\<rparr>) = due s" by (simp add: due_def taken_def fun_eq_iff)
      ultimately show ?thesis
        using assms(1) inv1 unfolding c by (simp add: client_inv_def calls_inv_def take_inv_def send_inv_def)
    next
      case k: (Some i)
      then have c: "send_end (client s) q w = upd_call i (fail_call e) ?c1"
        using Some by (simp add: send_end_def removeCall_def)
      let ?t = "s\<lparr>client := upd_call i (fail_call e) ?c1\<rparr>"
      have i: "pend (client s) i" "q = c_Seq (calls (client s) i)" using k m by auto
      have il: "i < ncalls (client s)" using pend_less [OF inv i(1)] by simp
      have nt: "\<not> taken s i" using i assms(1) by (auto simp: client_inv_def take_inv_def taken_def)
      have pj: "pend ?c1 j \<longleftrightarrow> pend (client s) j" if "j \<noteq> i" "j < ncalls (client s)" for j
        using p [of j] i that seq_inj [OF inv i(1), of j] by auto
      have d: "due s i = 0" "due ?t i = 1" using run i p nt by (auto simp: due_def taken_def)
      have d': "due ?t j = due s j" if "j \<noteq> i" "j < ncalls (client s)" for j
        using pj [OF that] by (simp add: due_def taken_def)
      note call = client_inv_call [OF assms(1) il]
      have "calls_inv ?t"
        using assms(1) d d' call caller_inv_open by (auto simp: client_inv_def calls_inv_def Let_def)
      moreover have "seq_inv (client ?t)" using inv1 by (auto intro: seq_inv_upd)
      moreover have "take_inv ?t" using assms(1) p by (auto simp: client_inv_def take_inv_def)
      moreover have "send_inv ?t" using assms(1) by (simp add: client_inv_def send_inv_def)
      ultimately show ?thesis unfolding c by (simp add: client_inv_def)
    qed
  qed
qed

lemma client_inv_call_ctx:
  assumes "client_inv s" "i < ncalls (client s)" "pc (calls (client s) i) = Selecting"
    "removeCall (client s) (c_Seq (calls (client s) i)) = (call, c)"
  shows "client_inv (s\<lparr>client := set_pc i (Returned (Some (Errorf (''rpc client:call failed: '' @ m)))) c\<rparr>)"
proof -
  have inv: "seq_inv (client s)" using assms(1) by (simp add: client_inv_def)
  have c: "c = (client s)\<lparr>pending := AList.delete (c_Seq (calls (client s) i)) (pending (client s))\<rparr>"
    using assms(4) by (simp add: removeCall_def)
  have "due s i = 1" using client_inv_call(2) [OF assms(1,2)] assms(3) by simp
  then have "receiver s = RStop \<or> \<not> pend (client s) i" by (auto simp: due_def split: if_splits)
  moreover have p: "pend c j \<longleftrightarrow> pend (client s) j \<and> c_Seq (calls (client s) j) \<noteq> c_Seq (calls (client s) i)" for j
    unfolding c by (rule pend_delete [OF inv])
  moreover have "j = i" if "pend (client s) j" "c_Seq (calls (client s) j) = c_Seq (calls (client s) i)" for j
    using seq_inj [OF inv that(1) assms(2) that(2)] .
  ultimately have d: "due (s\<lparr>client := c\<rparr>) j = due s j" for j by (auto simp: due_def taken_def)
  have c': "calls c = calls (client s)" "ncalls c = ncalls (client s)" "shutdown c = shutdown (client s)"
    by (simp_all add: c)
  have "client_inv (s\<lparr>client := c\<rparr>)"
    using assms(1) d p seq_inv_delete [OF inv, of "c_Seq (calls (client s) i)"] c c'
    by (simp add: client_inv_def calls_inv_def take_inv_def send_inv_def)
  from client_inv_set_pc [OF this, of i "Returned (Some (Errorf (''rpc client:call failed: '' @ m)))"]
  show ?thesis using assms(3) c'(1) by simp
qed

lemma client_inv_call_wait:
  assumes "client_inv s" "i < ncalls (client s)" "pc (calls (client s) i) = Sent" "0 < chan (calls (client s) i)"
  shows "client_inv (s\<lparr>client := upd_call i (\<lambda>x. x\<lparr>chan := chan x - 1, pc := Selecting\<rparr>) (client s)\<rparr>)"
    (is "client_inv (s\<lparr>client := ?c\<rparr>)")
proof -
  have d: "due (s\<lparr>client := ?c\<rparr>) = due s" by (simp add: due_def taken_def fun_eq_iff)
  have "due s i = 1" using client_inv_call(2) [OF assms(1,2)] assms(3,4) by (auto simp: due_def split: if_splits)
  with assms(1,3) d client_inv_call [OF assms(1,2)] have "calls_inv (s\<lparr>client := ?c\<rparr>)"
    by (auto simp: client_inv_def calls_inv_def Let_def)
  moreover have "seq_inv ?c" using assms(1) by (auto simp: client_inv_def intro: seq_inv_upd)
  ultimately show ?thesis using assms(1) by (simp add: client_inv_def take_inv_def send_inv_def)
qed

lemma add_call_to_simps [simp]:
  "pending (add_call_to c x) = pending c" "seq (add_call_to c x) = seq c" "ncalls (add_call_to c x) = Suc (ncalls c)"
  "calls (add_call_to c x) = (calls c)(ncalls c := x)" "shutdown (add_call_to c x) = shutdown c"
  "closing (add_call_to c x) = closing c" "pend (add_call_to c x) = pend c"
  by (simp_all add: add_call_to_def pend_def fun_eq_iff)

lemma make_call_simps [simp]:
  "c_Seq (make_call sm a sy) = 0" "chan (make_call sm a sy) = 0" "dones (make_call sm a sy) = 0"
  "pc (make_call sm a sy) = Sent"
  by (simp_all add: make_call_def)

lemma seq_inv_add:
  assumes "seq_inv c"
  shows "seq_inv (add_call_to c (make_call sm a sy))"
proof (rule seq_invI, unfold add_call_to_simps)
  let ?f = "(calls c)(ncalls c := make_call sm a sy)"
  show "distinct (map fst (pending c))" "0 < unat (seq c)" "unat (seq c) \<le> Suc (ncalls c) + 1"
    using seq_invD(1,3,4) [OF assms] by simp_all
  show "i < Suc (ncalls c) \<and> q = c_Seq (?f i) \<and> q \<noteq> 0" if "(q, i) \<in> set (pending c)" for q i
    using seq_invD(2) [OF assms that] by auto
  show "unat (c_Seq (?f i)) < unat (seq c)" if "i < Suc (ncalls c)" for i
  proof (cases "i = ncalls c")
    case True
    then show ?thesis using seq_invD(3) [OF assms] by simp
  next
    case False
    then show ?thesis using seq_invD(5) [OF assms, of i] that by simp
  qed
  show "i = j" if "i < Suc (ncalls c)" "j < Suc (ncalls c)" "c_Seq (?f i) = c_Seq (?f j)" "c_Seq (?f i) \<noteq> 0" for i j
  proof -
    have "i < ncalls c" "j < ncalls c" using that by (auto simp: less_Suc_eq split: if_splits)
    with that show ?thesis using seq_invD(6) [OF assms, of i j] by simp
  qed
qed

text \<open>Registering a call that has no number yet, before the numbers wrap around.\<close>

lemma seq_inv_register:
  assumes "seq_inv c" "i < ncalls c" "c_Seq (calls c i) = 0" "unat (seq c) \<le> ncalls c" "ncalls c < 2 ^ 64 - 1"
    "registerCall c i = (Inr q, c')"
  shows "seq_inv c'" "pend c' j \<longleftrightarrow> pend c j \<or> j = i" "q = seq c" "\<not> shutdown c"
    "calls c' = (calls c)(i := (calls c i)\<lparr>c_Seq := seq c\<rparr>)" "ncalls c' = ncalls c" "shutdown c' = shutdown c"
proof -
  have fresh: "seq c \<notin> fst ` set (pending c)"
  proof
    assume "seq c \<in> fst ` set (pending c)"
    then obtain k where "(seq c, k) \<in> set (pending c)" by auto
    then have "k < ncalls c" "seq c = c_Seq (calls c k)" using assms(1) by (auto simp: seq_inv_def)
    moreover from this have "unat (c_Seq (calls c k)) < unat (seq c)" using seq_invD(5) [OF assms(1)] by blast
    ultimately show False by simp
  qed
  then have c': "c' = (upd_call i (\<lambda>x. x\<lparr>c_Seq := seq c\<rparr>) c)\<lparr>pending := pending c @ [(seq c, i)], seq := seq c + 1\<rparr>"
      "q = seq c" "\<not> shutdown c"
    using assms(6) by (auto simp: registerCall_def update_fresh split: if_splits)
  then show "q = seq c" "\<not> shutdown c" "calls c' = (calls c)(i := (calls c i)\<lparr>c_Seq := seq c\<rparr>)"
    "ncalls c' = ncalls c" "shutdown c' = shutdown c" "pend c' j \<longleftrightarrow> pend c j \<or> j = i"
    by (auto simp: pend_def)
  have u: "unat (seq c + 1) = unat (seq c) + 1"
    using unat_add_lem [of "seq c" 1] assms(4,5) by simp
  have ni: "k \<noteq> i" if "(q, k) \<in> set (pending c)" for q k
    using seq_invD(2) [OF assms(1) that] assms(3) by auto
  have old: "c_Seq (calls c j) \<noteq> seq c" if "j < ncalls c" for j
    using seq_invD(5) [OF assms(1) that] by auto
  let ?f = "(calls c)(i := (calls c i)\<lparr>c_Seq := seq c\<rparr>)"
  have sel: "pending c' = pending c @ [(seq c, i)]" "ncalls c' = ncalls c" "calls c' = ?f" "seq c' = seq c + 1"
    unfolding c' by simp_all
  show "seq_inv c'"
  proof (rule seq_invI, unfold sel u)
    show "distinct (map fst (pending c @ [(seq c, i)]))" using seq_invD(1) [OF assms(1)] fresh by simp
    show "0 < unat (seq c) + 1" "unat (seq c) + 1 \<le> ncalls c + 1" using assms(4) by simp_all
    show "k < ncalls c \<and> q = c_Seq (?f k) \<and> q \<noteq> 0" if "(q, k) \<in> set (pending c @ [(seq c, i)])" for q k
      using that seq_invD(2) [OF assms(1), of q k] seq_invD(3) [OF assms(1)] ni [of q k] assms(2)
      by (cases "k = i") auto
    show "unat (c_Seq (?f k)) < unat (seq c) + 1" if "k < ncalls c" for k
      using seq_invD(5) [OF assms(1) that] by simp
    show "k = j" if "k < ncalls c" "j < ncalls c" "c_Seq (?f k) = c_Seq (?f j)" "c_Seq (?f k) \<noteq> 0" for k j
      using that seq_invD(6) [OF assms(1) that(1,2)] old [OF that(1)] old [OF that(2)] by (simp split: if_splits)
  qed
qed

lemma client_inv_go:
  assumes "client_inv s" "sending s = None" "i = ncalls (client s)" "ncalls (client s) < 2 ^ 64 - 2"
    "send_begin (add_call_to (client s) (make_call sm args sy)) i = (q, c)"
  shows "client_inv (s\<lparr>client := c, sending := map_option (\<lambda>_. i) q\<rparr>)" (is "client_inv ?t")
proof -
  have inv: "seq_inv (client s)" using assms(1) by (simp add: client_inv_def)
  let ?c0 = "add_call_to (client s) (make_call sm args sy)"
  have inv0: "seq_inv ?c0" by (rule seq_inv_add [OF inv])
  have new: "\<not> pend (client s) i" "\<not> taken s i"
    using pend_less [OF inv, of i] assms(1,3) by (auto simp: client_inv_def take_inv_def taken_def)
  obtain r c1 where r: "registerCall ?c0 i = (r, c1)" by fastforce
  show ?thesis
  proof (cases r)
    case (Inl e)
    then have c: "c = upd_call i (fail_call e) ?c0" "q = None"
      using assms(5) r by (auto simp: send_begin_def registerCall_def split: if_splits)
    have d: "due ?t j = due s j" for j using c by (simp add: due_def taken_def)
    have "due s i = 1" using new by (simp add: due_def)
    then have "calls_inv ?t"
      using assms(1,3) c d by (auto simp: client_inv_def calls_inv_def Let_def less_Suc_eq)
    moreover have "take_inv ?t" using assms(1,3) c by (auto simp: client_inv_def take_inv_def)
    moreover have "send_inv ?t" using assms(1,2) c by (auto simp: client_inv_def send_inv_def)
    moreover have "seq_inv c" unfolding c by (rule seq_inv_upd [OF inv0]) simp
    ultimately show ?thesis by (simp add: client_inv_def)
  next
    case (Inr q')
    have "unat (seq ?c0) \<le> ncalls ?c0" using inv by (auto simp: seq_inv_def)
    note reg = seq_inv_register [OF inv0 _ _ this _ r [unfolded Inr], simplified assms(3)]
    have regs: "seq_inv c1" "\<And>j. pend c1 j \<longleftrightarrow> pend (client s) j \<or> j = i" "\<not> shutdown (client s)"
        "calls c1 = (calls ?c0)(i := (calls ?c0 i)\<lparr>c_Seq := seq (client s)\<rparr>)" "ncalls c1 = Suc i"
        "shutdown c1 = shutdown (client s)"
      using reg assms(3,4) by auto
    have c: "q = Some q'" "\<And>j. pend c j \<longleftrightarrow> pend c1 j" "ncalls c = ncalls c1" "shutdown c = shutdown c1"
        "calls c = (calls c1)(i := (calls c1 i)\<lparr>pc := Writing q'\<rparr>)" "pending c = pending c1" "seq c = seq c1"
      using assms(5) r Inr by (auto simp: send_begin_def pend_def)
    have run: "receiver s \<noteq> RStop" using regs(3) assms(1) by (auto simp: client_inv_def send_inv_def)
    have "due ?t j = due s j" if "j \<noteq> i" for j using c regs(2) that by (simp add: due_def taken_def)
    moreover have "due ?t i = 0" using c regs(2) run by (simp add: due_def)
    ultimately have "calls_inv ?t"
      using assms(1,3) c regs(4,5) by (auto simp: client_inv_def calls_inv_def Let_def less_Suc_eq)
    moreover have "take_inv ?t"
      using assms(1,3) c regs(2,4,5) new(2) by (auto simp: client_inv_def take_inv_def taken_def)
    moreover have "send_inv ?t" using run c regs(5) assms(3) by (simp add: send_inv_def)
    moreover have "seq_inv c" using regs(1) c by (auto elim: seq_inv_cong)
    ultimately show ?thesis by (simp add: client_inv_def)
  qed
qed

lemma ncalls_step: "client_step F s t \<Longrightarrow> ncalls (client s) \<le> ncalls (client t)"
  by (induction rule: client_step.induct)
    (auto simp: send_begin_def registerCall_def removeCall_def send_end_def receive_body_def client_Close_def
      split: if_splits option.splits sum.splits prod.splits)

interpretation cl: inductive_invariant client_start "client_step F"
  "\<lambda>s. ncalls (client s) < 2 ^ 64 - 1 \<longrightarrow> client_inv s" for F
proof (unfold_locales, goal_cases)
  case (1 s)
  then show ?case
    by (auto simp: client_start_def newClientCodec_def client_inv_def seq_inv_def calls_inv_def take_inv_def send_inv_def)
next
  case (2 s t)
  show ?case
  proof
    assume b: "ncalls (client t) < 2 ^ 64 - 1"
    with 2 ncalls_step [OF 2(2)] have inv: "client_inv s" by auto
    from 2(2) inv b show "client_inv t"
    proof (induction rule: client_step.induct)
      case (go s i sm args sy q c)
      then have "ncalls c = Suc (ncalls (client s))"
        by (auto simp: send_begin_def registerCall_def split: if_splits)
      with go show ?case by (intro client_inv_go) auto
    next
      case (written s i q w)
      from client_inv_send_end [OF written.prems(1) written(1), of q w]
      have "client_inv (s\<lparr>client := send_end (client s) q w\<rparr>)" .
      moreover have "pc (calls (send_end (client s) q w) i) = Writing q"
        using written(2) by (auto simp: send_end_def removeCall_def split: option.splits)
      ultimately have "client_inv (s\<lparr>client := set_pc i Sent (send_end (client s) q w)\<rparr>)"
        using client_inv_set_pc [of "s\<lparr>client := send_end (client s) q w\<rparr>" i Sent] by simp
      then show ?case by (auto simp: client_inv_def calls_inv_def take_inv_def send_inv_def due_def taken_def)
    next
      case (recv_error s e)
      then show ?case by (auto simp: client_inv_def calls_inv_def take_inv_def send_inv_def due_def taken_def Let_def)
    next
      case (call_reply i s x)
      then have False using client_inv_call(2) [OF call_reply.prems(1) call_reply(1)] by simp
      then show ?case ..
    next
      case (call_wait i s x)
      show ?case
        by (rule client_inv_call_wait [OF call_wait.prems(1) call_wait(1)]) (use call_wait in simp_all)
    next
      case (call_ctx i s x call c ctx_err)
      show ?case
        by (rule client_inv_call_ctx [OF call_ctx.prems(1) call_ctx(1)]) (use call_ctx in simp_all)
    qed (auto intro: client_inv_recv_header client_inv_recv_body client_inv_terminate client_inv_user_close)
  qed
qed

section \<open>A run\<close>

text \<open>One synchronous call that is answered before its write returns, and whose context then ends.\<close>

definition run_header :: Header where
  "run_header = \<lparr>ServiceMethod = ''Foo.Sum'', Seq = 1, h_Error = ''''\<rparr>"

definition run_start :: "nat net" where
  "run_start = \<lparr>client = newClientCodec (make_call '''' 0 True), sending = None, receiver = RRead\<rparr>"

definition run_call :: "nat Call" where
  "run_call = (make_call ''Foo.Sum'' 3 True)\<lparr>c_Seq := 1, pc := Writing 1\<rparr>"

lemma run_taken:
  "\<exists>s :: nat net. reach client_start (client_step F) s \<and> ncalls (client s) = 1 \<and> sending s = Some 0 \<and>
     receiver s = RGot run_header (Some 0) \<and> calls (client s) 0 = run_call"
proof -
  define c1 where "c1 = snd (send_begin (add_call_to (client run_start) (make_call ''Foo.Sum'' 3 True)) 0)"
  have 1: "send_begin (add_call_to (client run_start) (make_call ''Foo.Sum'' 3 True)) 0 = (Some 1, c1)"
    by (simp add: c1_def send_begin_def registerCall_def run_start_def newClientCodec_def add_call_to_def)
  have c1: "ncalls c1 = 1" "pending c1 = [(1, 0)]" "calls c1 0 = run_call"
    by (simp_all add: c1_def send_begin_def registerCall_def run_start_def newClientCodec_def add_call_to_def
        set_pc_def upd_call_def run_call_def)
  let ?s1 = "run_start\<lparr>client := c1, sending := map_option (\<lambda>_. 0) (Some (1 :: u64))\<rparr>"
  have "client_step F run_start ?s1"
    by (rule go [OF _ _ 1]) (simp_all add: run_start_def newClientCodec_def)
  moreover have "client_step F ?s1 (?s1\<lparr>client := snd (removeCall c1 1), receiver := RGot run_header (Some 0)\<rparr>)"
    by (rule recv_header) (simp_all add: run_start_def removeCall_def run_header_def c1)
  moreover have "reach client_start (client_step F) run_start"
    by (rule reach_init) (auto simp: client_start_def run_start_def)
  ultimately have "reach client_start (client_step F)
      (?s1\<lparr>client := snd (removeCall c1 1), receiver := RGot run_header (Some 0)\<rparr>)"
    by (blast intro: reach_step)
  then show ?thesis
    by (intro exI [of _ "?s1\<lparr>client := snd (removeCall c1 1), receiver := RGot run_header (Some 0)\<rparr>"])
      (simp add: removeCall_def c1)
qed

lemma run_returned:
  "\<exists>s :: nat net. reach client_start (client_step F) s \<and> ncalls (client s) = 1 \<and> receiver s = RRead \<and>
     (\<exists>r. pc (calls (client s) 0) = Returned r)"
proof -
  obtain s :: "nat net" where s: "reach client_start (client_step F) s" "ncalls (client s) = 1" "sending s = Some 0"
      "receiver s = RGot run_header (Some 0)" "calls (client s) 0 = run_call"
    using run_taken by blast
  define s1 where "s1 = s\<lparr>client := receive_body F run_header (Some 0) (Inr (Some 7)) (client s), receiver := RRead\<rparr>"
  define s2 where "s2 = s1\<lparr>client := set_pc 0 Sent (send_end (client s1) 1 None), sending := None\<rparr>"
  define s3 where "s3 = s2\<lparr>client := upd_call 0 (\<lambda>x. x\<lparr>chan := chan x - 1, pc := Selecting\<rparr>) (client s2)\<rparr>"
  define s4 where "s4 = s3\<lparr>client := set_pc 0 (Returned (Some (Errorf (''rpc client:call failed: '' @ ''context canceled''))))
    (snd (removeCall (client s3) (c_Seq (calls (client s3) 0))))\<rparr>"
  have x1: "calls (client s1) 0 = deliver F run_header (Inr (Some 7)) run_call" "ncalls (client s1) = 1"
    using s by (simp_all add: s1_def receive_body_def)
  have x2: "pc (calls (client s2) 0) = Sent" "chan (calls (client s2) 0) = 1" "sync (calls (client s2) 0)" "ncalls (client s2) = 1"
    using x1 by (simp_all add: s2_def send_end_def deliver_def run_call_def call_done_def run_header_def make_call_def)
  have x3: "pc (calls (client s3) 0) = Selecting" "ncalls (client s3) = 1" using x2 by (simp_all add: s3_def)
  have "client_step F s s1" unfolding s1_def using recv_body [OF s(4), of F "Inr (Some 7)"] by simp
  moreover have "client_step F s1 s2"
    unfolding s2_def by (rule written) (use s x1 in \<open>simp_all add: s1_def run_call_def\<close>)
  moreover have "client_step F s2 s3" unfolding s3_def by (rule call_wait [OF _ refl]) (use x2 in simp_all)
  moreover have "client_step F s3 s4"
    unfolding s4_def by (rule call_ctx [OF _ refl]) (use x3 in \<open>simp_all add: removeCall_def\<close>)
  ultimately have "reach client_start (client_step F) s4" using s(1) by (blast intro: reach_step)
  moreover have "ncalls (client s4) = 1 \<and> receiver s4 = RRead \<and> (\<exists>r. pc (calls (client s4) 0) = Returned r)"
    using x3 by (simp add: s4_def s3_def s2_def s1_def removeCall_def)
  ultimately show ?thesis by blast
qed

section \<open>Properties\<close>

text \<open>
  C5. Every call is completed exactly once: in every reachable state of a client with fewer than
  \<open>2^64 - 1\<close> calls, \<open>done()\<close> has been called not at all for a call that is pending or whose
  response is being read while the receiver runs, and once for every other; so once the
  receiver has stopped, every call ever made is complete, whatever the network and the other
  callers did.
\<close>

theorem client_calls_complete_once:
  assumes "reach client_start (client_step F) s" "ncalls (client s) < 2 ^ 64 - 1" "i < ncalls (client s)"
  shows "dones (calls (client s) i) =
    (if receiver s \<noteq> RStop \<and> (i \<in> snd ` set (pending (client s)) \<or> (\<exists>h. receiver s = RGot h (Some i))) then 0 else 1)"
  using client_inv_call(1) [of s i] cl.reach_Inv [OF assms(1)] assms(2,3) by (simp add: due_def pend_def taken_def)

theorem client_calls_complete_once_witness:
  "\<exists>s :: nat net. reach client_start (client_step Errorf) s \<and> receiver s = RGot run_header (Some 0) \<and>
     dones (calls (client s) 0) = 0"
proof -
  obtain s :: "nat net" where s: "reach client_start (client_step Errorf) s" "ncalls (client s) = 1"
      "receiver s = RGot run_header (Some 0)"
    using run_taken [of Errorf] by blast
  with client_calls_complete_once [OF s(1), of 0] show ?thesis by auto
qed

text \<open>
  A response goes to the call it answers: when the receiver has taken a call for a header, that
  call has the header's sequence number, and no other call has it.
\<close>

lemma client_response_to_its_call:
  assumes "reach client_start (client_step F) s" "ncalls (client s) < 2 ^ 64 - 1" "receiver s = RGot h (Some i)"
    and "j < ncalls (client s)"
  shows "c_Seq (calls (client s) j) = Seq h \<longleftrightarrow> j = i"
proof -
  have inv: "client_inv s" using cl.reach_Inv [OF assms(1)] assms(2) by simp
  then have i: "i < ncalls (client s)" "c_Seq (calls (client s) i) = Seq h" "Seq h \<noteq> 0"
    using assms(3) by (auto simp: client_inv_def take_inv_def)
  have "seq_inv (client s)" using inv by (simp add: client_inv_def)
  from seq_invD(6) [OF this assms(4) i(1)] i show ?thesis by auto
qed

text \<open>
  \<open>done()\<close> does not block: a channel that \<open>Go\<close> accepts, with room for the calls that use it (\<open>dn\<close> is
  the channel of each call), is never sent more values than it holds, even if nobody receives from it.
\<close>

lemma done_has_room:
  assumes "reach client_start (client_step F) s" "ncalls (client s) < 2 ^ 64 - 1" "Go_done cap = Ret n"
    and "card {i. i < ncalls (client s) \<and> dn i = ch} \<le> n"
  shows "(\<Sum>i | i < ncalls (client s) \<and> dn i = ch. dones (calls (client s) i)) \<le> n"
proof -
  have "dones (calls (client s) i) \<le> 1" if "i < ncalls (client s)" for i
    using client_inv_call(1) [of s i] cl.reach_Inv [OF assms(1)] assms(2) that by (simp add: due_def)
  then have "(\<Sum>i | i < ncalls (client s) \<and> dn i = ch. dones (calls (client s) i)) \<le>
      (\<Sum>i | i < ncalls (client s) \<and> dn i = ch. 1)" by (intro sum_mono) simp
  with assms(4) show ?thesis by simp
qed

text \<open>A channel of one call, as \<open>Call\<close> makes it or \<open>Go\<close> for nil, has room.\<close>

lemma own_done_has_room:
  assumes "reach client_start (client_step F) s" "ncalls (client s) < 2 ^ 64 - 1" "Go_done cap = Ret n" "i < ncalls (client s)"
  shows "dones (calls (client s) i) \<le> n"
proof -
  have "{j. j < ncalls (client s) \<and> j = i} = {i}" using assms(4) by auto
  moreover have "1 \<le> n" using assms(3) by (auto simp: Go_done_def split: option.splits if_splits)
  ultimately show ?thesis using done_has_room [OF assms(1-3), of "\<lambda>j. j" i] by simp
qed

text \<open>
  C29. \<open>Call\<close> never returns a reply: it receives from \<open>Done\<close> before it enters the \<open>select\<close>, and
  \<open>Done\<close> is never sent to again, so every \<open>Call\<close> that returns does so because its context ended,
  with an error, also when the server has answered.
\<close>

theorem client_Call_returns_only_by_context:
  assumes "reach client_start (client_step F) s" "ncalls (client s) < 2 ^ 64 - 1" "i < ncalls (client s)"
    and "pc (calls (client s) i) = Returned r"
  shows "\<exists>m. r = Some (Errorf (''rpc client:call failed: '' @ m))"
proof -
  have "client_inv s" using cl.reach_Inv [OF assms(1)] assms(2) by simp
  from client_inv_call(2) [OF this assms(3)] assms(4) show ?thesis by (metis caller_inv.simps(4))
qed

theorem client_Call_returns_only_by_context_witness:
  "\<exists>(s :: nat net) m. reach client_start (client_step Errorf) s \<and>
     pc (calls (client s) 0) = Returned (Some (Errorf (''rpc client:call failed: '' @ m)))"
proof -
  obtain s :: "nat net" and r where s: "reach client_start (client_step Errorf) s" "ncalls (client s) = 1"
      "pc (calls (client s) 0) = Returned r"
    using run_returned [of Errorf] by blast
  from client_Call_returns_only_by_context [OF s(1) _ _ s(3)] s(2) have "\<exists>m. r = Some (Errorf (''rpc client:call failed: '' @ m))"
    by simp
  with s show ?thesis by blast
qed

text \<open>
  A failed connection attempt is a crash and not an error: the error of \<open>net.DialTimeout\<close> is
  dropped, so with an acceptable option \<open>Dial\<close> dereferences the nil connection.
\<close>

lemma Dial_crashes_on_dial_error:
  "Dial x (Inl e) late within opts =
     (case parseOption opts of Inl e' \<Rightarrow> Ret (Inl e', False) | Inr opt \<Rightarrow> Panic ''nil pointer dereference'')"
  by (auto simp: Dial_def dialTimeout_def NewClient_def Let_def split: sum.split option.split)

end
