(* ===== verification/Registry.thy ===== *)
theory Registry
  imports GoLib
begin

text \<open>
  \<^verbatim>\<open>geerpc/registry/registry.go\<close>: the registry of server addresses. Servers announce
  themselves with POST requests and expire when no announcement came for \<open>timeout\<close>; a GET lists
  the servers that have not expired. Instants and durations are integers (nanoseconds); every
  reading of the clock is an argument. \<open>range\<close> over a map visits its keys in an arbitrary order,
  so the order is an argument too, with the clock reading of each iteration.
\<close>

section \<open>The registry\<close>

record ServerItem =
  Addr :: string
  start :: int

record GeeRegistry =
  timeout :: int
  servers :: "string \<Rightarrow> ServerItem option"

definition defaultPath :: string where
  "defaultPath = ''/_geerpc_/registry''"

definition Minute :: int where
  "Minute = 60 * 10 ^ 9"

definition defaultTimeout :: int where
  "defaultTimeout = Minute * 5"

definition registry_New :: "int \<Rightarrow> GeeRegistry" where
  "registry_New d = \<lparr>timeout = d, servers = Map.empty\<rparr>"

definition putServer :: "GeeRegistry \<Rightarrow> string \<Rightarrow> int \<Rightarrow> GeeRegistry" where
  "putServer r addr now =
     (case servers r addr of
        None \<Rightarrow> r\<lparr>servers := (servers r)(addr \<mapsto> \<lparr>Addr = addr, start = now\<rparr>)\<rparr>
      | Some s \<Rightarrow> r\<lparr>servers := (servers r)(addr \<mapsto> s\<lparr>start := now\<rparr>)\<rparr>)"

fun alive_loop :: "GeeRegistry \<Rightarrow> (string \<times> int) list \<Rightarrow> string list \<Rightarrow> GeeRegistry \<times> string list" where
  "alive_loop r [] alive = (r, alive)"
| "alive_loop r ((addr, now) # rest) alive =
     (case servers r addr of
        None \<Rightarrow> alive_loop r rest alive
      | Some s \<Rightarrow>
          if timeout r = 0 \<or> start s + timeout r > now then alive_loop r rest (alive @ [addr])
          else alive_loop (r\<lparr>servers := (servers r)(addr := None)\<rparr>) rest alive)"

definition aliveServers :: "GeeRegistry \<Rightarrow> (string \<times> int) list \<Rightarrow> GeeRegistry \<times> string list" where
  "aliveServers r order = (case alive_loop r order [] of (r', alive) \<Rightarrow> (r', sort alive))"

text \<open>The request: its method, the header \<open>X-Geerpc-Server\<close> (empty when absent).\<close>

record registry_request =
  Method :: string
  X_Geerpc_Server :: string

text \<open>
  The response: the status, \<open>200\<close> unless the handler sets another, and the header
  \<open>X-Geerpc-Servers\<close>. \<open>now\<close> is what \<open>putServer\<close> reads from the clock, \<open>order\<close> what the loop of
  \<open>aliveServers\<close> visits.
\<close>

record registry_response =
  status :: nat
  X_Geerpc_Servers :: string

definition registry_ServeHTTP ::
  "GeeRegistry \<Rightarrow> registry_request \<Rightarrow> int \<Rightarrow> (string \<times> int) list \<Rightarrow> GeeRegistry \<times> registry_response" where
  "registry_ServeHTTP r req now order =
     (if Method req = ''GET'' then
        (case aliveServers r order of
           (r', alive) \<Rightarrow> (r', \<lparr>status = 200, X_Geerpc_Servers = Join alive '',''\<rparr>))
      else if Method req = ''POST'' then
        (let addr = X_Geerpc_Server req in
         if addr = '''' then (r, \<lparr>status = 500, X_Geerpc_Servers = ''''\<rparr>)
         else (putServer r addr now, \<lparr>status = 200, X_Geerpc_Servers = ''''\<rparr>))
      else (r, \<lparr>status = 405, X_Geerpc_Servers = ''''\<rparr>))"

text \<open>
  \<open>Heartbeat\<close>: the request each beat sends, and the beats' instants. \<open>results\<close> says for each
  beat whether \<open>httpClient.Do\<close> succeeded; the loop ends with the first failure, whose beat is the
  last one.
\<close>

definition sendHeartbeat :: "string \<Rightarrow> registry_request" where
  "sendHeartbeat addr = \<lparr>Method = ''POST'', X_Geerpc_Server = addr\<rparr>"

definition heartbeat_period :: "int \<Rightarrow> int" where
  "heartbeat_period duration = (if duration = 0 then defaultTimeout - 1 * Minute else duration)"

fun heartbeat_loop :: "int \<Rightarrow> int \<Rightarrow> bool list \<Rightarrow> int list" where
  "heartbeat_loop t period [] = []"
| "heartbeat_loop t period (ok # oks) = t # (if ok then heartbeat_loop (t + period) period oks else [])"

definition Heartbeat :: "int \<Rightarrow> int \<Rightarrow> bool list \<Rightarrow> int list" where
  "Heartbeat t duration results = heartbeat_loop t (heartbeat_period duration) results"

section \<open>What the loop computes\<close>

text \<open>A server is alive at an instant if it announced itself less than \<open>timeout\<close> before.\<close>

definition alive_at :: "GeeRegistry \<Rightarrow> string \<Rightarrow> int \<Rightarrow> bool" where
  "alive_at r addr now \<longleftrightarrow>
     (\<exists>s. servers r addr = Some s \<and> (timeout r = 0 \<or> now < start s + timeout r))"

text \<open>A loop over the map visits each of its keys once.\<close>

definition visits :: "(string \<times> int) list \<Rightarrow> GeeRegistry \<Rightarrow> bool" where
  "visits order r \<longleftrightarrow> distinct (map fst order) \<and> set (map fst order) = dom (servers r)"

lemma alive_loop_result:
  "distinct (map fst order) \<Longrightarrow> alive_loop r order alive = (r', xs) \<Longrightarrow>
     xs = alive @ map fst (filter (\<lambda>(addr, now). alive_at r addr now) order) \<and>
     timeout r' = timeout r \<and>
     servers r' = servers r |` (- {addr. \<exists>now. (addr, now) \<in> set order \<and> \<not> alive_at r addr now})"
proof (induction r order alive rule: alive_loop.induct)
  case (1 r alive)
  then show ?case by (simp add: restrict_map_def)
next
  case (2 r addr now rest alive)
  have fresh: "addr \<notin> fst ` set rest" using "2.prems"(1) by auto
  consider (none) "servers r addr = None"
    | (live) s where "servers r addr = Some s" "timeout r = 0 \<or> start s + timeout r > now"
    | (dead) s where "servers r addr = Some s" "\<not> (timeout r = 0 \<or> start s + timeout r > now)"
    by (cases "servers r addr") auto
  then show ?case
  proof cases
    case none
    with 2 show ?thesis by (auto simp: alive_at_def restrict_map_def fun_eq_iff)
  next
    case (live s)
    with 2 show ?thesis by (auto simp: alive_at_def restrict_map_def fun_eq_iff)
  next
    case (dead s)
    let ?r = "r\<lparr>servers := (servers r)(addr := None)\<rparr>"
    have same: "alive_at ?r a n = alive_at r a n" if "(a, n) \<in> set rest" for a n
      using that fresh by (force simp: alive_at_def)
    have f: "filter (\<lambda>(a, n). alive_at ?r a n) rest = filter (\<lambda>(a, n). alive_at r a n) rest"
      using same by (auto intro: filter_cong)
    have "\<not> alive_at r addr now" using dead by (auto simp: alive_at_def)
    then have m: "(servers ?r) |` (- {a. \<exists>n. (a, n) \<in> set rest \<and> \<not> alive_at ?r a n}) =
        servers r |` (- {a. \<exists>n. (a, n) \<in> set ((addr, now) # rest) \<and> \<not> alive_at r a n})"
      using same by (force simp: restrict_map_def fun_eq_iff)
    have "alive_loop ?r rest alive = (r', xs)" "distinct (map fst rest)" using "2.prems" dead by simp_all
    from "2.IH"(3) [OF dead this(2,1)] \<open>\<not> alive_at r addr now\<close> show ?thesis unfolding m f by simp
  qed
qed

lemma aliveServers_result:
  assumes "visits order r" "aliveServers r order = (r', xs)"
  shows "xs = sort (map fst (filter (\<lambda>(addr, now). alive_at r addr now) order))"
    and "timeout r' = timeout r"
    and "servers r' addr = (if \<exists>now. (addr, now) \<in> set order \<and> alive_at r addr now then servers r addr else None)"
proof -
  obtain ys where ys: "alive_loop r order [] = (r', ys)" "xs = sort ys"
    using assms(2) by (auto simp: aliveServers_def split: prod.splits)
  note res = alive_loop_result [OF _ ys(1)]
  have d: "distinct (map fst order)" using assms(1) by (simp add: visits_def)
  show "xs = sort (map fst (filter (\<lambda>(addr, now). alive_at r addr now) order))"
    using res d ys(2) by simp
  show "timeout r' = timeout r" using res d by simp
  have "(\<exists>now. (addr, now) \<in> set order \<and> \<not> alive_at r addr now) \<longleftrightarrow>
      \<not> (\<exists>now. (addr, now) \<in> set order \<and> alive_at r addr now)" if "addr \<in> dom (servers r)"
  proof -
    have "addr \<in> fst ` set order" using that assms(1) by (auto simp: visits_def)
    then obtain now where "(addr, now) \<in> set order" by auto
    then show ?thesis using d by (auto simp: distinct_map inj_on_def dest: eq_key_imp_eq_value [OF d])
  qed
  with res d show "servers r' addr =
      (if \<exists>now. (addr, now) \<in> set order \<and> alive_at r addr now then servers r addr else None)"
    by (cases "servers r addr") (auto simp: restrict_map_def)
qed

section \<open>Announcements over time\<close>

text \<open>
  A run of the registry: the state \<open>(r, h, t)\<close> has the registry, the announcements so far with
  their instants, the newest first, and the latest clock reading. A request is served at a later
  instant than the ones before; a GET visits the map in any order.
\<close>

type_synonym registry_run = "GeeRegistry \<times> (string \<times> int) list \<times> int"

definition registry_start :: "int \<Rightarrow> registry_run \<Rightarrow> bool" where
  "registry_start D s \<longleftrightarrow> fst s = registry_New D \<and> fst (snd s) = []"

definition announces :: "registry_request \<Rightarrow> bool" where
  "announces req \<longleftrightarrow> Method req = ''POST'' \<and> X_Geerpc_Server req \<noteq> ''''"

inductive registry_step :: "registry_run \<Rightarrow> registry_run \<Rightarrow> bool" where
  announce: "announces req \<Longrightarrow> t \<le> now \<Longrightarrow> registry_ServeHTTP r req now order = (r', resp) \<Longrightarrow>
    registry_step (r, h, t) (r', (X_Geerpc_Server req, now) # h, now)"
| other: "\<not> announces req \<Longrightarrow> visits order r \<Longrightarrow> \<forall>(a, n) \<in> set order. t \<le> n \<and> n \<le> t' \<Longrightarrow> t \<le> t' \<Longrightarrow>
    registry_ServeHTTP r req now order = (r', resp) \<Longrightarrow> registry_step (r, h, t) (r', h, t')"

text \<open>
  An announced server is in the map with the instant of its last announcement, unless that
  announcement has expired.
\<close>

definition registry_inv :: "int \<Rightarrow> registry_run \<Rightarrow> bool" where
  [invs]: "registry_inv D s \<longleftrightarrow> (case s of (r, h, t) \<Rightarrow> timeout r = D \<and>
     (\<forall>a. servers r a = map_option (\<lambda>s. \<lparr>Addr = a, start = s\<rparr>) (map_of h a) \<or>
       servers r a = None \<and> (\<exists>s. map_of h a = Some s \<and> D \<noteq> 0 \<and> s + D \<le> t)))"

lemma registry_invD:
  "registry_inv D (r, h, t) \<Longrightarrow> servers r a = map_option (\<lambda>s. \<lparr>Addr = a, start = s\<rparr>) (map_of h a) \<or>
     servers r a = None \<and> (\<exists>s. map_of h a = Some s \<and> D \<noteq> 0 \<and> s + D \<le> t)"
  by (simp add: registry_inv_def)

lemma registry_inv_later: "registry_inv D (r, h, t) \<Longrightarrow> t \<le> t' \<Longrightarrow> registry_inv D (r, h, t')"
  by (fastforce simp: registry_inv_def)

lemma registry_inv_announce:
  assumes "registry_inv D (r, h, t)" "t \<le> now"
  shows "registry_inv D (putServer r addr now, (addr, now) # h, now)"
proof -
  have "timeout (putServer r addr now) = timeout r"
    by (simp add: putServer_def split: option.split)
  moreover have "servers (putServer r addr now) = (servers r)(addr \<mapsto> \<lparr>Addr = addr, start = now\<rparr>)"
    using registry_invD [OF assms(1), of addr] by (auto simp: putServer_def split: option.split)
  ultimately show ?thesis using registry_inv_later [OF assms] by (auto simp: registry_inv_def)
qed

lemma registry_inv_alive:
  assumes "registry_inv D (r, h, t)" "visits order r" "\<forall>(a, n) \<in> set order. t \<le> n \<and> n \<le> t'" "t \<le> t'"
    "aliveServers r order = (r', xs)"
  shows "registry_inv D (r', h, t')"
proof -
  note res = aliveServers_result [OF assms(2,5)]
  have "servers r' a = map_option (\<lambda>s. \<lparr>Addr = a, start = s\<rparr>) (map_of h a) \<or>
       servers r' a = None \<and> (\<exists>s. map_of h a = Some s \<and> D \<noteq> 0 \<and> s + D \<le> t')" for a
  proof (cases "servers r a")
    case None
    with res(3) [of a] registry_invD [OF registry_inv_later [OF assms(1,4)], of a] show ?thesis by auto
  next
    case (Some s)
    then have s: "map_of h a = Some (start s)" "s = \<lparr>Addr = a, start = start s\<rparr>"
      using registry_invD [OF assms(1), of a] by (cases "map_of h a"; auto)+
    have "a \<in> fst ` set order" using Some assms(2) by (auto simp: visits_def)
    then obtain n where n: "(a, n) \<in> set order" by auto
    then have "n \<le> t'" using assms(3) by auto
    show ?thesis
    proof (cases "alive_at r a n")
      case True
      with n res(3) [of a] Some s show ?thesis by auto
    next
      case False
      then have "D \<noteq> 0 \<and> start s + D \<le> t'"
        using Some assms(1) \<open>n \<le> t'\<close> by (auto simp: alive_at_def registry_inv_def)
      with res(3) [of a] Some s show ?thesis by auto
    qed
  qed
  with res(2) assms(1) show ?thesis by (simp add: registry_inv_def)
qed

interpretation reg: inductive_invariant "registry_start D" registry_step "registry_inv D" for D
proof (unfold_locales, goal_cases)
  case (1 s)
  then show ?case by (cases s) (simp add: registry_start_def registry_inv_def registry_New_def)
next
  case (2 s s')
  from 2(2,1) show ?case
  proof (induction rule: registry_step.induct)
    case (announce req t now r order r' resp h)
    then show ?case
      using registry_inv_announce [of D r h t now] by (auto simp: registry_ServeHTTP_def announces_def Let_def)
  next
    case (other req order r t t' now r' resp h)
    then show ?case
      using registry_inv_alive [of D r h t order t'] registry_inv_later [of D r h t t']
      by (auto simp: registry_ServeHTTP_def announces_def Let_def split: if_splits prod.splits)
  qed
qed

section \<open>Properties\<close>

text \<open>What the loop over the servers finds alive.\<close>

lemma alive_recent:
  assumes "reach (registry_start D) registry_step (r, h, t)" "t \<le> now"
    and "visits order r" "\<forall>(a, n) \<in> set order. n = now"
  shows "\<exists>r'. aliveServers r order = (r', sorted_list_of_set {a. \<exists>s. map_of h a = Some s \<and> (D = 0 \<or> now < s + D)})"
proof -
  have inv: "registry_inv D (r, h, t)" using reg.reach_Inv [OF assms(1)] .
  obtain r' xs where xs: "aliveServers r order = (r', xs)" by fastforce
  have "set (map fst (filter (\<lambda>(a, n). alive_at r a n) order)) = {a. alive_at r a now}"
  proof -
    have "a \<in> fst ` {p \<in> set order. case p of (a, n) \<Rightarrow> alive_at r a n}" if "alive_at r a now" for a
    proof -
      have "a \<in> fst ` set order" using that assms(3) by (auto simp: visits_def alive_at_def)
      with that assms(4) show ?thesis by (force simp: image_iff)
    qed
    with assms(4) show ?thesis by auto
  qed
  moreover have "{a. alive_at r a now} = {a. \<exists>s. map_of h a = Some s \<and> (D = 0 \<or> now < s + D)}"
  proof (rule Collect_cong)
    fix a
    from inv have "servers r a = map_option (\<lambda>s. \<lparr>Addr = a, start = s\<rparr>) (map_of h a) \<or>
       servers r a = None \<and> (\<exists>s. map_of h a = Some s \<and> D \<noteq> 0 \<and> s + D \<le> t)" "timeout r = D"
      by (simp_all add: registry_inv_def)
    with assms(2) show "alive_at r a now \<longleftrightarrow> (\<exists>s. map_of h a = Some s \<and> (D = 0 \<or> now < s + D))"
      by (cases "map_of h a") (auto simp: alive_at_def)
  qed
  moreover have "distinct (map fst (filter (\<lambda>(a, n). alive_at r a n) order))"
    using assms(3) by (simp add: visits_def distinct_map_filter)
  ultimately have "xs = sorted_list_of_set {a. \<exists>s. map_of h a = Some s \<and> (D = 0 \<or> now < s + D)}"
    using aliveServers_result(1) [OF assms(3) xs] by (metis distinct_remdups_id sorted_list_of_set_sort_remdups)
  with xs show ?thesis by blast
qed

text \<open>
  C11. The registry lists exactly the servers that announced themselves recently: after any run,
  a GET at the instant \<open>now\<close> returns, sorted and separated by commas, the addresses whose last
  announcement is less than the timeout ago (all announced addresses if the timeout is 0),
  whatever order the map is visited in; the deletion of expired entries by earlier requests
  cannot be observed.
\<close>

theorem registry_lists_recent:
  assumes "reach (registry_start D) registry_step (r, h, t)" "t \<le> now"
    and "visits order r" "\<forall>(a, n) \<in> set order. n = now" "Method req = ''GET''"
  shows "\<exists>r'. registry_ServeHTTP r req now order = (r', \<lparr>status = 200, X_Geerpc_Servers =
    Join (sorted_list_of_set {a. \<exists>s. map_of h a = Some s \<and> (D = 0 \<or> now < s + D)}) '',''\<rparr>)"
  using alive_recent [OF assms(1-4)] assms(5) by (auto simp: registry_ServeHTTP_def)

theorem registry_lists_recent_witness:
  "\<exists>r r'. registry_ServeHTTP (registry_New 10) \<lparr>Method = ''POST'', X_Geerpc_Server = ''tcp@b''\<rparr> 1 [] =
       (r, \<lparr>status = 200, X_Geerpc_Servers = ''''\<rparr>) \<and>
     registry_ServeHTTP r \<lparr>Method = ''GET'', X_Geerpc_Server = ''''\<rparr> 5 [(''tcp@b'', 5)] =
       (r', \<lparr>status = 200, X_Geerpc_Servers = ''tcp@b''\<rparr>)"
proof -
  let ?post = "\<lparr>Method = ''POST'', X_Geerpc_Server = ''tcp@b''\<rparr>"
  let ?r = "putServer (registry_New 10) ''tcp@b'' 1"
  have 1: "registry_ServeHTTP (registry_New 10) ?post 1 [] = (?r, \<lparr>status = 200, X_Geerpc_Servers = ''''\<rparr>)"
    by (simp add: registry_ServeHTTP_def)
  have "registry_step (registry_New 10, [], 0) (?r, [(''tcp@b'', 1)], 1)"
    using announce [of ?post 0 1 "registry_New 10" "[]" ?r _ "[]"] 1 by (simp add: announces_def)
  moreover have "reach (registry_start 10) registry_step (registry_New 10, [], 0)"
    by (rule reach_init) (simp add: registry_start_def)
  ultimately have "reach (registry_start 10) registry_step (?r, [(''tcp@b'', 1)], 1)"
    by (rule reach_step [rotated])
  from registry_lists_recent [OF this, of 5 "[(''tcp@b'', 5)]" "\<lparr>Method = ''GET'', X_Geerpc_Server = ''''\<rparr>"]
  have "\<exists>r'. registry_ServeHTTP ?r \<lparr>Method = ''GET'', X_Geerpc_Server = ''''\<rparr> 5 [(''tcp@b'', 5)] =
      (r', \<lparr>status = 200, X_Geerpc_Servers = ''tcp@b''\<rparr>)"
    by (auto simp: visits_def putServer_def registry_New_def)
  with 1 show ?thesis by blast
qed

text \<open>
  The default heartbeat keeps a server listed: with the default period and beats that all
  succeed, every instant from the first beat to a period after the last has a beat at most that
  long ago that is still a minute from the default timeout.
\<close>

lemma heartbeat_keeps_alive:
  assumes "list_all (\<lambda>ok. ok) oks" "t \<le> now" "now < t + int (length oks) * heartbeat_period 0"
  shows "\<exists>beat \<in> set (Heartbeat t 0 oks). beat \<le> now \<and> now + Minute < beat + defaultTimeout"
  using assms
proof (induction oks arbitrary: t)
  case (Cons ok oks)
  have P: "heartbeat_period 0 + Minute = defaultTimeout" by (simp add: heartbeat_period_def)
  show ?case
  proof (cases "now < t + heartbeat_period 0")
    case True
    with Cons.prems P show ?thesis by (intro bexI [of _ t]) (simp_all add: Heartbeat_def)
  next
    case False
    have "t + int (length (ok # oks)) * heartbeat_period 0 =
        t + heartbeat_period 0 + int (length oks) * heartbeat_period 0" by (simp add: distrib_right)
    with False Cons.prems have "\<exists>beat \<in> set (Heartbeat (t + heartbeat_period 0) 0 oks).
        beat \<le> now \<and> now + Minute < beat + defaultTimeout"
      by (intro Cons.IH) simp_all
    with Cons.prems(1) show ?thesis by (auto simp: Heartbeat_def)
  qed
qed simp

end
