(* ===== verification/Discovery.thy ===== *)
theory Discovery
  imports Registry "HOL-Library.Stream" "HOL-Library.Multiset"
begin

text \<open>
  \<^verbatim>\<open>geerpc/xclient/discovery.go\<close> and \<^verbatim>\<open>discovery_gee.go\<close>: service discovery, from a fixed
  list of servers and from the registry, with random and round-robin selection. The \<open>RWMutex\<close> of
  a discovery is part of its state, since one operation releases it the wrong way.
\<close>

section \<open>\<open>sync.RWMutex\<close> and \<open>math/rand\<close>\<close>

text \<open>
  A mutex of a single caller: waiting for it never ends, and releasing for writing a mutex that
  is not locked for writing is a fatal error.
\<close>

datatype rwlock = Unlocked | RLocked nat | Locked

fun rw_Lock :: "rwlock \<Rightarrow> rwlock exec" where
  "rw_Lock Unlocked = Ret Locked"
| "rw_Lock _ = Hang"

fun rw_Unlock :: "rwlock \<Rightarrow> rwlock exec" where
  "rw_Unlock Locked = Ret Unlocked"
| "rw_Unlock _ = Panic ''fatal error: sync: Unlock of unlocked RWMutex''"

fun rw_RLock :: "rwlock \<Rightarrow> rwlock exec" where
  "rw_RLock Locked = Hang"
| "rw_RLock (RLocked n) = Ret (RLocked (n + 1))"
| "rw_RLock Unlocked = Ret (RLocked 1)"

text \<open>
  A source of random numbers is an arbitrary stream of draws; \<open>Intn(n)\<close> for \<open>n > 0\<close> is some
  number below \<open>n\<close>.
\<close>

definition Intn :: "nat \<Rightarrow> nat stream \<Rightarrow> nat \<times> nat stream" where
  "Intn n s = (shd s mod n, stl s)"

section \<open>Discovery from a list\<close>

type_synonym SelectMode = int

definition RandomSelect :: SelectMode where
  "RandomSelect = 0"

definition RoundRobinSelect :: SelectMode where
  "RoundRobinSelect = 1"

text \<open>\<open>index\<close> is the result of \<open>Intn\<close> or of a remainder, so it is a natural number below \<open>2^31\<close>.\<close>

record MultiServersDiscovery =
  rnd :: "nat stream"
  mu :: rwlock
  d_servers :: "string list"
  index :: nat

definition MaxInt32 :: nat where
  "MaxInt32 = 2 ^ 31 - 1"

definition NewMultiServerDiscovery :: "nat stream \<Rightarrow> string list \<Rightarrow> MultiServersDiscovery" where
  "NewMultiServerDiscovery s ss =
     (case Intn (MaxInt32 - 1) s of
        (i, s') \<Rightarrow> \<lparr>rnd = s', mu = Unlocked, d_servers = ss, index = i\<rparr>)"

definition msd_Refresh :: "'a MultiServersDiscovery_scheme \<Rightarrow> error option" where
  "msd_Refresh d = None"

text \<open>\<open>d.mu.Lock(); defer d.mu.Unlock()\<close> around the rest of a method.\<close>

definition locked ::
  "'a MultiServersDiscovery_scheme \<Rightarrow> ('a MultiServersDiscovery_scheme \<Rightarrow> 'x \<times> 'a MultiServersDiscovery_scheme) \<Rightarrow>
   ('x \<times> 'a MultiServersDiscovery_scheme) exec" where
  "locked d body =
     bind_exec (rw_Lock (mu d)) (\<lambda>m.
       case body (d\<lparr>mu := m\<rparr>) of
         (x, d') \<Rightarrow> bind_exec (rw_Unlock (mu d')) (\<lambda>m'. Ret (x, d'\<lparr>mu := m'\<rparr>)))"

definition msd_Update ::
  "'a MultiServersDiscovery_scheme \<Rightarrow> string list \<Rightarrow> (error option \<times> 'a MultiServersDiscovery_scheme) exec" where
  "msd_Update d ss = locked d (\<lambda>d. (None, d\<lparr>d_servers := ss\<rparr>))"

definition msd_Get ::
  "'a MultiServersDiscovery_scheme \<Rightarrow> SelectMode \<Rightarrow> ((error + string) \<times> 'a MultiServersDiscovery_scheme) exec" where
  "msd_Get d mode = locked d (\<lambda>d.
     let n = length (d_servers d) in
     if n = 0 then (Inl (Errorf ''rpc discovery: no available servers''), d)
     else if mode = RandomSelect then
       (case Intn n (rnd d) of (i, s) \<Rightarrow> (Inr (d_servers d ! i), d\<lparr>rnd := s\<rparr>))
     else if mode = RoundRobinSelect then
       (let s = d_servers d ! (index d mod n) in (Inr s, d\<lparr>index := (index d + 1) mod n\<rparr>))
     else (Inl (Errorf ''rpc discovery: not supported select mode''), d))"

definition msd_GetAll ::
  "'a MultiServersDiscovery_scheme \<Rightarrow> (string list \<times> 'a MultiServersDiscovery_scheme) exec" where
  "msd_GetAll d =
     bind_exec (rw_RLock (mu d)) (\<lambda>m.
       let ss = d_servers d in
       bind_exec (rw_Unlock m) (\<lambda>m'. Ret (ss, d\<lparr>mu := m'\<rparr>)))"

section \<open>Discovery from the registry\<close>

text \<open>\<open>lastUpdate\<close> starts as the zero \<open>time.Time\<close>, the first instant of year 1.\<close>

record GeeRegistryDiscovery = MultiServersDiscovery +
  registry :: string
  d_timeout :: int
  lastUpdate :: int

definition zeroTime :: int where
  "zeroTime = - 62135596800 * 10 ^ 9"

definition defaultUpdateTimeout :: int where
  "defaultUpdateTimeout = 10 * 10 ^ 9"

definition NewGeeRegistryDiscovery :: "nat stream \<Rightarrow> string \<Rightarrow> int \<Rightarrow> GeeRegistryDiscovery" where
  "NewGeeRegistryDiscovery s addr dur =
     (let dur' = (if dur = 0 then defaultUpdateTimeout else dur) in
      MultiServersDiscovery.extend (NewMultiServerDiscovery s [])
        (GeeRegistryDiscovery.fields addr dur' zeroTime))"

definition gd_Update ::
  "GeeRegistryDiscovery \<Rightarrow> string list \<Rightarrow> int \<Rightarrow> (error option \<times> GeeRegistryDiscovery) exec" where
  "gd_Update d ss now = locked d (\<lambda>d. (None, d\<lparr>d_servers := ss, lastUpdate := now\<rparr>))"

text \<open>
  \<open>http\<close> stands for \<open>http.Get\<close>: the header \<open>X-Geerpc-Servers\<close> of the response, or an error. \<open>now\<close>
  and \<open>now'\<close> are the two readings of the clock.
\<close>

definition gd_Refresh ::
  "(string \<Rightarrow> error + string) \<Rightarrow> GeeRegistryDiscovery \<Rightarrow> int \<Rightarrow> int \<Rightarrow>
   (error option \<times> GeeRegistryDiscovery) exec" where
  "gd_Refresh http d now now' = locked d (\<lambda>d.
     if lastUpdate d + d_timeout d > now then (None, d)
     else
       (case http (registry d) of
          Inl e \<Rightarrow> (Some e, d)
        | Inr header \<Rightarrow>
            (None, d\<lparr>d_servers := [TrimSpace s. s \<leftarrow> Split header '','', TrimSpace s \<noteq> ''''],
                     lastUpdate := now'\<rparr>)))"

definition gd_Get ::
  "(string \<Rightarrow> error + string) \<Rightarrow> GeeRegistryDiscovery \<Rightarrow> SelectMode \<Rightarrow> int \<Rightarrow> int \<Rightarrow>
   ((error + string) \<times> GeeRegistryDiscovery) exec" where
  "gd_Get http d mode now now' =
     bind_exec (gd_Refresh http d now now') (\<lambda>(e, d').
       case e of Some x \<Rightarrow> Ret (Inl x, d') | None \<Rightarrow> msd_Get d' mode)"

definition gd_GetAll ::
  "(string \<Rightarrow> error + string) \<Rightarrow> GeeRegistryDiscovery \<Rightarrow> int \<Rightarrow> int \<Rightarrow>
   ((error + string list) \<times> GeeRegistryDiscovery) exec" where
  "gd_GetAll http d now now' =
     bind_exec (gd_Refresh http d now now') (\<lambda>(e, d').
       case e of
         Some x \<Rightarrow> Ret (Inl x, d')
       | None \<Rightarrow> bind_exec (msd_GetAll d') (\<lambda>(ss, d''). Ret (Inr ss, d'')))"

section \<open>The contract of a discovery\<close>

text \<open>
  What a client relies on: while no other caller holds the mutex, \<open>Get\<close> returns, and it returns
  an error or one of the servers the discovery lists.
\<close>

locale discovery =
  fixes ok :: "'d \<Rightarrow> bool"
    and listed :: "'d \<Rightarrow> string list"
    and get :: "'d \<Rightarrow> SelectMode \<Rightarrow> ((error + string) \<times> 'd) exec"
  assumes get_ok: "ok d \<Longrightarrow> \<exists>x d'. get d m = Ret (x, d') \<and> ok d' \<and> (\<forall>s. x = Inr s \<longrightarrow> s \<in> set (listed d'))"
begin

lemma get_listed: "ok d \<Longrightarrow> get d m = Ret (Inr s, d') \<Longrightarrow> ok d' \<and> s \<in> set (listed d')"
  using get_ok [of d m] by auto

lemma get_cases:
  assumes "ok d"
  obtains (err) e d' where "get d m = Ret (Inl e, d')" "ok d'"
    | (server) s d' where "get d m = Ret (Inr s, d')" "ok d'" "s \<in> set (listed d')"
  using get_ok [OF assms, of m] by (metis sum.exhaust)

end

definition free :: "'a MultiServersDiscovery_scheme \<Rightarrow> bool" where
  "free d \<longleftrightarrow> mu d = Unlocked"

lemma msd_Get_ok:
  assumes "free d"
  shows "\<exists>x d'. msd_Get d m = Ret (x, d') \<and> free d' \<and> (\<forall>s. x = Inr s \<longrightarrow> s \<in> set (d_servers d'))"
  using assms by (auto simp: msd_Get_def locked_def free_def Intn_def Let_def)

lemma msd_Get_lists:
  assumes "free d" "d_servers d \<noteq> []" "m \<in> {RandomSelect, RoundRobinSelect}"
  shows "\<exists>s d'. msd_Get d m = Ret (Inr s, d') \<and> s \<in> set (d_servers d)"
  using assms by (auto simp: msd_Get_def locked_def free_def Intn_def Let_def)

lemma gd_Refresh_ok:
  assumes "free d"
  shows "\<exists>x d'. gd_Refresh http d now now' = Ret (x, d') \<and> free d'"
  using assms by (auto simp: gd_Refresh_def locked_def free_def split: sum.splits)

interpretation msd: discovery free d_servers msd_Get
  by unfold_locales (rule msd_Get_ok)

interpretation gd: discovery free d_servers "\<lambda>d m. gd_Get http d m now now'" for http now now'
proof
  fix d :: GeeRegistryDiscovery and m
  assume "free d"
  then obtain e d' where d': "gd_Refresh http d now now' = Ret (e, d')" "free d'"
    using gd_Refresh_ok by blast
  with msd_Get_ok [OF d'(2), of m]
  show "\<exists>x d'. gd_Get http d m now now' = Ret (x, d') \<and> free d' \<and> (\<forall>s. x = Inr s \<longrightarrow> s \<in> set (d_servers d'))"
    by (cases e) (auto simp: gd_Get_def)
qed

text \<open>A sequence of selections.\<close>

fun msd_Gets ::
  "'a MultiServersDiscovery_scheme \<Rightarrow> SelectMode list \<Rightarrow> ((error + string) list \<times> 'a MultiServersDiscovery_scheme) exec" where
  "msd_Gets d [] = Ret ([], d)"
| "msd_Gets d (m # ms) =
     bind_exec (msd_Get d m) (\<lambda>(x, d1). bind_exec (msd_Gets d1 ms) (\<lambda>(xs, d2). Ret (x # xs, d2)))"

lemma msd_Get_round_robin:
  assumes "free d" "d_servers d \<noteq> []"
  shows "msd_Get d RoundRobinSelect = Ret (Inr (d_servers d ! (index d mod length (d_servers d))),
    d\<lparr>index := (index d + 1) mod length (d_servers d)\<rparr>)"
  using assms by (cases d) (auto simp: msd_Get_def locked_def free_def RandomSelect_def RoundRobinSelect_def Let_def)

lemma msd_Gets_round_robin:
  assumes "free d" "d_servers d \<noteq> []"
  shows "\<exists>d'. msd_Gets d (replicate k RoundRobinSelect) =
      Ret (map (\<lambda>i. Inr (d_servers d ! ((index d + i) mod length (d_servers d)))) [0..<k], d') \<and>
    (0 < k \<longrightarrow> d' = d\<lparr>index := (index d + k) mod length (d_servers d)\<rparr>)"
  using assms
proof (induction k arbitrary: d)
  case (Suc k)
  let ?n = "length (d_servers d)"
  let ?d = "d\<lparr>index := (index d + 1) mod ?n\<rparr>"
  have "free ?d" "d_servers ?d \<noteq> []" using Suc.prems by (simp_all add: free_def)
  from Suc.IH [OF this] obtain d' where d': "msd_Gets ?d (replicate k RoundRobinSelect) =
      Ret (map (\<lambda>i. Inr (d_servers d ! (((index d + 1) mod ?n + i) mod ?n))) [0..<k], d')"
      "0 < k \<longrightarrow> d' = d\<lparr>index := ((index d + 1) mod ?n + k) mod ?n\<rparr>" by auto
  have "map f [0..<Suc k] = f 0 # map (\<lambda>i. f (Suc i)) [0..<k]" for f :: "nat \<Rightarrow> error + string"
    by (simp add: upt_conv_Cons map_Suc_upt [symmetric] del: upt_Suc)
  moreover have "((index d + 1) mod ?n + k) mod ?n = (index d + Suc k) mod ?n"
    using mod_add_left_eq [of "index d + 1" ?n k] by simp
  then have "d' = d\<lparr>index := (index d + Suc k) mod ?n\<rparr>" using d' by (cases k) auto
  ultimately show ?case using d'(1) msd_Get_round_robin [OF Suc.prems] by (simp add: mod_simps del: upt_Suc)
qed simp

section \<open>Properties\<close>

text \<open>
  Round robin is fair: as many selections as there are servers return every server exactly
  once, in the order of the list from the current position on, and leave the discovery at the
  same position, so the next round is the same rotation.
\<close>

lemma round_robin_fair:
  assumes "free d" "d_servers d \<noteq> []"
  shows "msd_Gets d (replicate (length (d_servers d)) RoundRobinSelect) =
    Ret (map Inr (rotate (index d) (d_servers d)), d\<lparr>index := index d mod length (d_servers d)\<rparr>)"
proof -
  let ?n = "length (d_servers d)"
  have "map (\<lambda>i. Inr (d_servers d ! ((index d + i) mod ?n))) [0..<?n] =
      (map Inr (rotate (index d) (d_servers d)) :: (error + string) list)"
    by (rule nth_equalityI) (simp_all add: nth_rotate)
  with msd_Gets_round_robin [OF assms, of ?n] assms(2) show ?thesis by auto
qed

text \<open>
  \<open>GetAll\<close> never returns: it takes the mutex for reading and releases it for writing, which is
  a fatal error of the runtime, unless a writer holds it and \<open>GetAll\<close> waits.
\<close>

lemma GetAll_never_returns:
  "msd_GetAll d =
     (if mu d = Locked then Hang else Panic ''fatal error: sync: Unlock of unlocked RWMutex'')"
  by (cases "mu d") (simp_all add: msd_GetAll_def)

definition clean :: "string \<Rightarrow> bool" where
  "clean a \<longleftrightarrow> a \<noteq> '''' \<and> CHR '','' \<notin> set a \<and> \<not> is_space (hd a) \<and> \<not> is_space (last a)"

lemma split_servers:
  assumes "\<forall>a \<in> set xs. clean a"
  shows "[TrimSpace s. s \<leftarrow> Split (Join xs '','') '','', TrimSpace s \<noteq> ''''] = xs"
proof (cases "xs = []")
  case True
  then show ?thesis by (simp add: Split_def)
next
  case False
  have "Split (Join xs '','') '','' = xs" using assms False by (intro Split_Join) (auto simp: clean_def)
  moreover have "[TrimSpace s. s \<leftarrow> ys, TrimSpace s \<noteq> ''''] = ys" if "set ys \<subseteq> set xs" for ys
    using that assms by (induction ys) (auto simp: clean_def TrimSpace_id)
  ultimately show ?thesis by simp
qed

lemma gd_Refresh_reads:
  assumes "free d" "lastUpdate d + d_timeout d \<le> now"
    and "aliveServers r order = (r', xs)" "\<forall>a \<in> set xs. clean a"
    and "http (registry d) = Inr (X_Geerpc_Servers (snd (registry_ServeHTTP r \<lparr>Method = ''GET'', X_Geerpc_Server = h\<rparr> t order)))"
  shows "gd_Refresh http d now now' = Ret (None, d\<lparr>d_servers := xs, lastUpdate := now'\<rparr>)"
proof -
  have "http (registry d) = Inr (Join xs '','')" using assms(3,5) by (simp add: registry_ServeHTTP_def)
  with assms(1,2) split_servers [OF assms(4)] show ?thesis
    by (cases d) (simp add: gd_Refresh_def locked_def free_def)
qed

text \<open>
  C27. What the registry lists is what a discovery selects from: a refresh that is due reads from
  the registry's answer to a GET exactly the addresses the registry lists, for addresses that are
  not empty and contain neither a comma nor white space at an end.
\<close>

theorem discovery_reads_registry:
  assumes "free d" "lastUpdate d + d_timeout d \<le> now"
    and "aliveServers r order = (r', xs)" "\<forall>a \<in> set xs. clean a"
    and "http (registry d) = Inr (X_Geerpc_Servers (snd (registry_ServeHTTP r \<lparr>Method = ''GET'', X_Geerpc_Server = h\<rparr> t order)))"
  shows "gd_Refresh http d now now' = Ret (None, d\<lparr>d_servers := xs, lastUpdate := now'\<rparr>)"
  using assms by (rule gd_Refresh_reads)

theorem discovery_reads_registry_witness:
  "let d = NewGeeRegistryDiscovery (sconst 0) ''http://r'' 0;
       r = putServer (putServer (registry_New 0) ''tcp@b'' 1) ''tcp@a'' 2;
       header = X_Geerpc_Servers (snd (registry_ServeHTTP r \<lparr>Method = ''GET'', X_Geerpc_Server = ''''\<rparr> 3
         [(''tcp@b'', 3), (''tcp@a'', 3)]))
   in gd_Refresh (\<lambda>url. Inr header) d 4 5 = Ret (None, d\<lparr>d_servers := [''tcp@a'', ''tcp@b''], lastUpdate := 5\<rparr>)"
proof -
  have "\<exists>r'. aliveServers (putServer (putServer (registry_New 0) ''tcp@b'' 1) ''tcp@a'' 2)
      [(''tcp@b'', 3), (''tcp@a'', 3)] = (r', [''tcp@a'', ''tcp@b''])"
    by (simp add: aliveServers_def putServer_def registry_New_def)
  then show ?thesis
    unfolding Let_def
    by (elim exE) (rule discovery_reads_registry, auto simp: NewGeeRegistryDiscovery_def NewMultiServerDiscovery_def Intn_def free_def
        clean_def is_space_def MultiServersDiscovery.defs GeeRegistryDiscovery.defs zeroTime_def defaultUpdateTimeout_def Let_def)
qed

end
