(* ===== verification/XClient.thy ===== *)
theory XClient
  imports RpcClient Discovery
begin

text \<open>
  \<^verbatim>\<open>geerpc/xclient/xclient.go\<close>: a client of many servers, which selects a server through a
  discovery, keeps one connection per address and can broadcast. Clients are objects on a heap,
  since the table and a caller share them. \<open>XDial\<close>, which the repository calls and does not
  define, and the call on a connection are parameters.
\<close>

section \<open>Connections\<close>

record 'b XClient =
  mode :: SelectMode
  opt :: Option
  clients :: "(string \<times> nat) list"
  heap :: "nat \<Rightarrow> 'b Client"
  fresh :: nat

definition NewXClient :: "SelectMode \<Rightarrow> Option \<Rightarrow> (nat \<Rightarrow> 'b Client) \<Rightarrow> 'b XClient" where
  "NewXClient m op h = \<lparr>mode = m, opt = op, clients = [], heap = h, fresh = 0\<rparr>"

definition close_client :: "'b XClient \<Rightarrow> nat \<Rightarrow> 'b XClient" where
  "close_client xc i = xc\<lparr>heap := (heap xc)(i := snd (client_Close (heap xc i)))\<rparr>"

definition xc_Close :: "'b XClient \<Rightarrow> error option \<times> 'b XClient" where
  "xc_Close xc =
     (None, fold (\<lambda>(a, i) xc. (close_client xc i)\<lparr>clients := AList.delete a (clients xc)\<rparr>) (clients xc) xc)"

definition xc_dial :: "(string \<Rightarrow> Option \<Rightarrow> error + 'b Client) \<Rightarrow> 'b XClient \<Rightarrow> string \<Rightarrow> (error + nat) \<times> 'b XClient" where
  "xc_dial XDial xc rpcAddr =
     (let client = map_of (clients xc) rpcAddr;
          xc1 = (case client of
                   Some i \<Rightarrow> if \<not> IsAvailable (heap xc i)
                             then (close_client xc i)\<lparr>clients := AList.delete rpcAddr (clients xc)\<rparr> else xc
                 | None \<Rightarrow> xc)
      in case client of
           Some i \<Rightarrow> (Inr i, xc1)
         | None \<Rightarrow>
             (case XDial rpcAddr (opt xc) of
                Inl e \<Rightarrow> (Inl e, xc1)
              | Inr c \<Rightarrow>
                  (Inr (fresh xc1), xc1\<lparr>heap := (heap xc1)(fresh xc1 := c), fresh := Suc (fresh xc1),
                      clients := AList.update rpcAddr (fresh xc1) (clients xc1)\<rparr>)))"

text \<open>
  \<open>call\<close> is \<open>client.Call\<close> with its context, method and arguments: the error and the reply, if it
  returns. The result of an operation also has the address that was contacted.
\<close>

definition xc_call ::
  "(string \<Rightarrow> Option \<Rightarrow> error + 'b Client) \<Rightarrow> ('b Client \<Rightarrow> (error option \<times> 'b) exec) \<Rightarrow> 'b XClient \<Rightarrow> string \<Rightarrow>
   ((error option \<times> 'b option \<times> string option) \<times> 'b XClient) exec" where
  "xc_call XDial call xc rpcAddr =
     (case xc_dial XDial xc rpcAddr of
        (Inl e, xc') \<Rightarrow> Ret ((Some e, None, None), xc')
      | (Inr i, xc') \<Rightarrow> bind_exec (call (heap xc' i)) (\<lambda>(e, r). Ret ((e, Some r, Some rpcAddr), xc')))"

definition xc_Call ::
  "('d \<Rightarrow> SelectMode \<Rightarrow> ((error + string) \<times> 'd) exec) \<Rightarrow> (string \<Rightarrow> Option \<Rightarrow> error + 'b Client) \<Rightarrow>
   ('b Client \<Rightarrow> (error option \<times> 'b) exec) \<Rightarrow> 'd \<Rightarrow> 'b XClient \<Rightarrow>
   ((error option \<times> 'b option \<times> string option) \<times> 'd \<times> 'b XClient) exec" where
  "xc_Call Get XDial call d xc =
     bind_exec (Get d (mode xc)) (\<lambda>(r, d').
       case r of
         Inl e \<Rightarrow> Ret ((Some e, None, None), d', xc)
       | Inr rpcAddr \<Rightarrow> bind_exec (xc_call XDial call xc rpcAddr) (\<lambda>(res, xc'). Ret (res, d', xc')))"

section \<open>Broadcast\<close>

text \<open>
  What a goroutine of \<open>Broadcast\<close> does under \<open>mu\<close> with its result: \<open>e\<close> is the first error, \<open>reply\<close>
  the reply if it has been set.
\<close>

record 'b bcast =
  b_err :: "error option"
  b_reply :: "'b option"
  replyDone :: bool

definition bcast_finish :: "error option \<times> 'b \<Rightarrow> 'b bcast \<Rightarrow> 'b bcast" where
  "bcast_finish res s =
     (let s1 = (if fst res \<noteq> None \<and> b_err s = None then s\<lparr>b_err := fst res\<rparr> else s)
      in if fst res = None \<and> \<not> replyDone s1 then s1\<lparr>b_reply := Some (snd res), replyDone := True\<rparr> else s1)"

text \<open>
  \<open>results\<close> gives, for the list of servers, the results of the calls in the order in which the
  goroutines get \<open>mu\<close>; \<open>wanted\<close> says that \<open>reply\<close> is not nil.
\<close>

definition Broadcast ::
  "('d \<Rightarrow> ((error + string list) \<times> 'd) exec) \<Rightarrow> (string list \<Rightarrow> (error option \<times> 'b) list) \<Rightarrow> bool \<Rightarrow> 'd \<Rightarrow>
   ((error option \<times> 'b option) \<times> 'd) exec" where
  "Broadcast GetAll results wanted d =
     bind_exec (GetAll d) (\<lambda>(r, d').
       case r of
         Inl e \<Rightarrow> Ret ((Some e, None), d')
       | Inr ss \<Rightarrow>
           (let s = fold bcast_finish (results ss) \<lparr>b_err = None, b_reply = None, replyDone = \<not> wanted\<rparr>
            in Ret ((b_err s, b_reply s), d')))"

section \<open>Lemmas\<close>

text \<open>The address of a call is the one given, if a connection to it can be had.\<close>

lemma xc_call_address:
  assumes "\<And>c. \<exists>x. call c = Ret x"
  shows "\<exists>e r addr xc'. xc_call XDial call xc s = Ret ((e, r, addr), xc') \<and> addr \<in> {None, Some s} \<and>
    ((\<forall>op. \<exists>c. XDial s op = Inr c) \<longrightarrow> addr = Some s)"
proof (cases "fst (xc_dial XDial xc s)")
  case (Inl e)
  then have "\<exists>op. XDial s op = Inl e" by (auto simp: xc_dial_def Let_def split: option.splits sum.splits)
  then have "\<not> (\<forall>op. \<exists>c. XDial s op = Inr c)" by (metis sum.distinct(1))
  with Inl show ?thesis by (cases "xc_dial XDial xc s") (simp add: xc_call_def)
next
  case (Inr i)
  then obtain xc' where x: "xc_dial XDial xc s = (Inr i, xc')" by (cases "xc_dial XDial xc s") auto
  obtain e r where "call (heap xc' i) = Ret (e, r)" using assms [of "heap xc' i"] by auto
  with x show ?thesis by (simp add: xc_call_def)
qed

text \<open>A client of a discovery contacts only a server that the discovery lists.\<close>

context discovery
begin

lemma xc_Call_listed:
  assumes "ok d" "\<And>c. \<exists>x. call c = Ret x"
  shows "\<exists>e r addr d' xc'. xc_Call get XDial call d xc = Ret ((e, r, addr), d', xc') \<and> ok d' \<and>
    (\<forall>a. addr = Some a \<longrightarrow> a \<in> set (listed d'))"
  using assms(1)
proof (cases rule: get_cases [of d "mode xc"])
  case (err e d')
  then show ?thesis by (simp add: xc_Call_def)
next
  case (server s d')
  obtain e r addr xc' where "xc_call XDial call xc s = Ret ((e, r, addr), xc')" "addr \<in> {None, Some s}"
    using xc_call_address [of call XDial xc s, OF assms(2)] by blast
  with server show ?thesis by (auto simp: xc_Call_def)
qed

end

lemma fold_bcast:
  "fold bcast_finish rs s =
     \<lparr>b_err = (if b_err s \<noteq> None then b_err s else
         (case filter (\<lambda>e. e \<noteq> None) (map fst rs) of [] \<Rightarrow> None | e # es \<Rightarrow> e)),
      b_reply = (if replyDone s then b_reply s else
         (case filter (\<lambda>r. fst r = None) rs of [] \<Rightarrow> b_reply s | r # rs \<Rightarrow> Some (snd r))),
      replyDone = (replyDone s \<or> (\<exists>r \<in> set rs. fst r = None))\<rparr>"
proof (induction rs arbitrary: s)
  case (Cons r rs)
  then show ?case by (cases s) (auto simp: bcast_finish_def Let_def split: list.splits)
qed simp

lemma filter_find: "(case filter P rs of [] \<Rightarrow> None | r # ys \<Rightarrow> Some (f r)) = map_option f (find P rs)"
  by (induction rs) auto

lemma find_bind: "(case filter (\<lambda>e. e \<noteq> None) es of [] \<Rightarrow> None | e # ys \<Rightarrow> e) = Option.bind (find (\<lambda>e. e \<noteq> None) es) id"
  by (induction es) auto

section \<open>Properties\<close>

text \<open>Over a discovery from the registry, a call that can return contacts a server that is listed, or none.\<close>

lemma xclient_contacts_listed_server:
  assumes "free d" "\<And>c. \<exists>x. call c = Ret x"
  shows "\<exists>e r addr d' xc'. xc_Call (\<lambda>d m. gd_Get http d m now now') XDial call d xc = Ret ((e, r, addr), d', xc') \<and>
    (\<forall>a. addr = Some a \<longrightarrow> a \<in> set (d_servers d'))"
  using gd.xc_Call_listed [where call = call and XDial = XDial and xc = xc, OF assms] by blast



text \<open>
  A dead connection is handed out once more: if the connection kept for an address is no longer
  available, \<open>dial\<close> removes it from the table and returns it all the same, without dialing.
\<close>

lemma dial_returns_dead_client:
  assumes "map_of (clients xc) a = Some i" "\<not> IsAvailable (heap xc i)"
  shows "\<exists>xc'. xc_dial XDial xc a = (Inr i, xc') \<and> \<not> IsAvailable (heap xc' i) \<and> map_of (clients xc') a = None"
  using assms
  by (auto simp: xc_dial_def close_client_def client_Close_def IsAvailable_def AList.delete_conv Let_def)

text \<open>
  What a broadcast reports: over a discovery that lists the servers, the error is the first one
  that occurred (so there is one iff some call failed) and the reply, if wanted, is that of the
  first call that succeeded, in the order in which the calls ended.
\<close>

lemma Broadcast_first_error_first_reply:
  "Broadcast (\<lambda>d. Ret (Inr ss, d)) results wanted d =
     Ret ((Option.bind (find (\<lambda>e. e \<noteq> None) (map fst (results ss))) id,
           if wanted then map_option snd (find (\<lambda>r. fst r = None) (results ss)) else None), d)"
  by (simp add: Broadcast_def fold_bcast filter_find find_bind Let_def del: not_None_eq cong: list.case_cong)

end
