(* ===== verification/FooService.thy ===== *)
theory FooService
  imports RpcServer
begin

text \<open>
  The service of \<^verbatim>\<open>geerpc/main/main.go\<close>: the type \<open>Foo\<close> with its methods \<open>Sum\<close> and \<open>Sleep\<close>, as
  reflection presents them to \<open>newService\<close>, and as code that a connection's environment runs. The
  values on the wire are those the program sends: the arguments, an integer reply, and the empty
  struct of an error response.
\<close>

datatype goval = VArgs i64 i64 | VInt i64 | VEmpty

definition Args_type :: rtype where
  "Args_type = Named ''main'' ''Args'' StructT"

definition int_type :: rtype where
  "int_type = Basic ''int''"

definition Foo_type :: rtype where
  "Foo_type = Named ''main'' ''Foo'' int_type"

definition Foo_Sum :: "i64 \<Rightarrow> i64 \<Rightarrow> error option \<times> i64" where
  "Foo_Sum Num1 Num2 = (None, Num1 + Num2)"

text \<open>\<open>Sleep\<close> first sleeps \<open>time.Second * time.Duration(args.Num1)\<close>, in nanoseconds.\<close>

definition Foo_Sleep :: "i64 \<Rightarrow> i64 \<Rightarrow> i64 \<times> error option \<times> i64" where
  "Foo_Sleep Num1 Num2 = (1000000000 * Num1, None, Num1 + Num2)"

text \<open>The method set of \<open>*Foo\<close>, which reflection lists in the order of the names.\<close>

definition foo_method :: "string \<Rightarrow> rmethod" where
  "foo_method n = \<lparr>m_Name = n, m_In = [Ptr Foo_type, Args_type, Ptr int_type], m_Out = [error_type]\<rparr>"

definition foo_methods :: "rmethod list" where
  "foo_methods = [foo_method ''Sleep'', foo_method ''Sum'']"

text \<open>A value on the wire decodes into its own type only.\<close>

definition foo_decode :: "rtype \<Rightarrow> goval \<Rightarrow> goval option" where
  "foo_decode t x =
     (case x of
        VArgs a b \<Rightarrow> if t = Args_type then Some x else None
      | VInt a \<Rightarrow> if t = int_type then Some x else None
      | VEmpty \<Rightarrow> None)"

definition foo_call :: "goval request \<Rightarrow> (error option \<times> goval) exec" where
  "foo_call q =
     (case r_argv q of
        VArgs a b \<Rightarrow>
          (if m_Name (mt_method (r_mtype q)) = ''Sum'' then (case Foo_Sum a b of (e, r) \<Rightarrow> Ret (e, VInt r))
           else if m_Name (mt_method (r_mtype q)) = ''Sleep'' then (case Foo_Sleep a b of (d, e, r) \<Rightarrow> Ret (e, VInt r))
           else Panic ''no such method'')
      | _ \<Rightarrow> Panic ''reflect: Call using wrong type'')"

definition foo_env :: "goval env" where
  "foo_env = \<lparr>e_decode = foo_decode, e_encH = (\<lambda>h. None), e_encB = (\<lambda>x. None), e_call = foo_call,
     invalidRequest = VEmpty, e_timeout = 0, e_timeout_String = ''0s''\<rparr>"

definition foo_svc :: service where
  "foo_svc = \<lparr>s_name = ''Foo'', s_typ = foo_methods,
     s_method = [''Sleep'' \<mapsto> method_of (foo_method ''Sleep''), ''Sum'' \<mapsto> method_of (foo_method ''Sum'')]\<rparr>"

lemma foo_method_suitable: "suitable (foo_method n)"
  by (simp add: suitable_def foo_method_def IsExportedOrBuildinType_def IsExported_def Args_type_def)

text \<open>\<open>server.Register(&foo)\<close> on a new server.\<close>

lemma Register_foo: "Register Map.empty (Ptr Foo_type) foo_methods = Ret (None, [''Foo'' \<mapsto> foo_svc])"
proof -
  have "fold register_method foo_methods Map.empty = s_method foo_svc"
    by (simp add: foo_methods_def register_method_suitable foo_method_suitable foo_svc_def) (simp add: foo_method_def)
  then have "newService (Ptr Foo_type) foo_methods = Ret foo_svc"
    by (simp add: newService_def registerMethods_def foo_svc_def Foo_type_def IsExported_def)
  then show ?thesis by (simp add: Register_def foo_svc_def)
qed

lemma findService_foo:
  "findService [''Foo'' \<mapsto> foo_svc] ''Foo.Sum'' = Inr (foo_svc, method_of (foo_method ''Sum''))"
  "findService [''Foo'' \<mapsto> foo_svc] ''Foo.Sleep'' = Inr (foo_svc, method_of (foo_method ''Sleep''))"
  by (simp_all add: findService_def LastIndex_def HasPrefix_def foo_svc_def Let_def)

abbreviation foo_table :: serviceMap where
  "foo_table \<equiv> [''Foo'' \<mapsto> foo_svc]"

text \<open>A request for \<open>Foo.Sum\<close>, as it arrives and as the server reads it.\<close>

definition sum_header :: Header where
  "sum_header = \<lparr>ServiceMethod = ''Foo.Sum'', Seq = 1, h_Error = ''''\<rparr>"

definition foo_request :: "goval request" where
  "foo_request = \<lparr>r_h = sum_header, r_argv = VArgs 3 4, r_mtype = method_of (foo_method ''Sum''), r_svc = foo_svc\<rparr>"

definition foo_handler :: "goval sub \<Rightarrow> main \<Rightarrow> goval handler" where
  "foo_handler s m = \<lparr>h_req = foo_request, h_sub = s, h_main = m\<rparr>"

lemma foo_read:
  "readRequest (e_decode foo_env) foo_table (NewGobCodec [WHeader sum_header, WBody (VArgs 3 4)] EOF) =
     Ret (ReadOk foo_request, NewGobCodec [] EOF)"
proof -
  have "\<exists>a. newArgv (r_mtype foo_request) = Ret a" "\<exists>r. newReplyv (r_mtype foo_request) = Ret r"
    by (simp_all add: newArgv_def newReplyv_def foo_request_def method_of_def foo_method_def Args_type_def int_type_def)
  then show ?thesis
    using findService_foo(1)
    by (auto simp: NewGobCodec_def readRequest_def readRequestHeader_def ReadHeader_def ReadBody_def
        sum_header_def foo_request_def foo_env_def foo_decode_def method_of_def foo_method_def)
qed

lemma foo_env_headers [simp]: "headers_encode foo_env"
  by (simp add: headers_encode_def foo_env_def)

end
