(* ===== verification/RpcFront.thy ===== *)
theory RpcFront
  imports FooService
begin

text \<open>
  The outer parts of \<^verbatim>\<open>geerpc/server.go\<close> and \<^verbatim>\<open>geerpc/debug.go\<close>: the accept loop, the HTTP
  handlers and the default server, and the page that shows the services with the numbers of their
  calls. The handlers of \<open>net/http\<close> are kept in a table from patterns to handlers; the patterns of
  this program have no trailing slash, so a pattern serves its own path only.
\<close>

section \<open>Serving\<close>

definition DefaultServer :: serviceMap where
  "DefaultServer = Map.empty"

text \<open>\<open>Register\<close> of the package publishes in the default server.\<close>

definition package_Register :: "rtype \<Rightarrow> rmethod list \<Rightarrow> (error option \<times> serviceMap) exec" where
  "package_Register t ms = Register DefaultServer t ms"

text \<open>
  \<open>Accept\<close> on a sequence of results of \<open>lis.Accept\<close>, a connection given by its options, its input
  and the error at the end of the input: the connections it serves. The first error ends the loop.
\<close>

type_synonym 'b dialed = "(error + Option) \<times> 'b wire list \<times> error"

fun rpc_Accept :: "serviceMap \<Rightarrow> (error + 'b dialed) list \<Rightarrow> 'b conn list" where
  "rpc_Accept sm [] = []"
| "rpc_Accept sm (Inl e # rs) = []"
| "rpc_Accept sm (Inr (opt, i, e) # rs) = ServeConn sm opt i e # rpc_Accept sm rs"

definition package_Accept :: "(error + 'b dialed) list \<Rightarrow> 'b conn list" where
  "package_Accept rs = rpc_Accept DefaultServer rs"

definition http_Handle :: "(string \<Rightarrow> 'h option) \<Rightarrow> string \<Rightarrow> 'h \<Rightarrow> (string \<Rightarrow> 'h option) exec" where
  "http_Handle mux pattern h =
     (if pattern = '''' then Panic ''http: invalid pattern''
      else if mux pattern \<noteq> None then Panic (''http: multiple registrations for '' @ pattern)
      else Ret (mux(pattern \<mapsto> h)))"

definition defaultRPCPath :: string where
  "defaultRPCPath = ''/_geerpc_''"

definition HandleHTTP :: "(string \<Rightarrow> serviceMap option) \<Rightarrow> serviceMap \<Rightarrow> (string \<Rightarrow> serviceMap option) exec" where
  "HandleHTTP mux server = http_Handle mux defaultRPCPath server"

definition package_HandleHTTP :: "(string \<Rightarrow> serviceMap option) \<Rightarrow> (string \<Rightarrow> serviceMap option) exec" where
  "package_HandleHTTP mux = HandleHTTP mux DefaultServer"

section \<open>The debug page\<close>

text \<open>The template visits a map in the order of its keys, so \<open>Method\<close> is the sorted list of its entries.\<close>

record debugService =
  ds_Name :: string
  ds_Method :: "(string \<times> methodType) list"

definition method_entries :: "service \<Rightarrow> (string \<times> methodType) list" where
  "method_entries svc =
     List.map_filter (\<lambda>n. map_option (Pair n) (s_method svc n)) (sort (remdups (map m_Name (s_typ svc))))"

text \<open>\<open>order\<close> is the order in which \<open>Range\<close> visits the keys of the table.\<close>

fun debug_range :: "serviceMap \<Rightarrow> string list \<Rightarrow> debugService list \<Rightarrow> debugService list" where
  "debug_range sm [] services = services"
| "debug_range sm (namei # order) services =
     (case sm namei of
        None \<Rightarrow> debug_range sm order services
      | Some svc \<Rightarrow> debug_range sm order (services @ [\<lparr>ds_Name = namei, ds_Method = method_entries svc\<rparr>]))"

text \<open>The escaping of text by \<open>html/template\<close>.\<close>

definition html_escape_char :: "char \<Rightarrow> string" where
  "html_escape_char c =
     (if c = CHR ''&'' then ''&amp;'' else if c = CHR ''<'' then ''&lt;'' else if c = CHR ''>'' then ''&gt;''
      else if c = CHR 0x22 then ''&#34;'' else if c = CHR 0x27 then ''&#39;'' else if c = CHR ''+'' then ''&#43;''
      else [c])"

definition html_escape :: "string \<Rightarrow> string" where
  "html_escape s = concat (map html_escape_char s)"

definition nl :: "nat \<Rightarrow> string" where
  "nl n = CHR 0x0A # replicate n (CHR 0x09)"

text \<open>\<open>tstr\<close> is the \<open>String\<close> method of \<open>reflect.Type\<close>.\<close>

definition debug_row :: "(rtype \<Rightarrow> string) \<Rightarrow> string \<times> methodType \<Rightarrow> string" where
  "debug_row tstr e =
     nl 3 @ ''<tr>'' @ nl 3 @ ''<td align=left font=fixed>'' @ html_escape (fst e) @ ''('' @
     html_escape (tstr (ArgType (snd e))) @ '', '' @ html_escape (tstr (ReplyType (snd e))) @ '') error</td>'' @ nl 3 @
     ''<td align=center>'' @ Itoa (unat (NumCalls (snd e))) @ ''</td>'' @ nl 3 @ ''</tr>'' @ nl 2"

definition debug_service :: "(rtype \<Rightarrow> string) \<Rightarrow> debugService \<Rightarrow> string" where
  "debug_service tstr d =
     nl 1 @ ''<hr>'' @ nl 1 @ ''Service '' @ html_escape (ds_Name d) @ nl 1 @ ''<hr>'' @ nl 2 @ ''<table>'' @ nl 2 @
     ''<th align=center>Method</th><th align=center>Calls</th>'' @ nl 2 @
     concat (map (debug_row tstr) (ds_Method d)) @ nl 2 @ ''</table>'' @ nl 1"

definition debugText :: "(rtype \<Rightarrow> string) \<Rightarrow> debugService list \<Rightarrow> string" where
  "debugText tstr services =
     ''<html>'' @ nl 1 @ ''<body>'' @ nl 1 @ ''<title>GeeRPC Services</title>'' @ nl 1 @
     concat (map (debug_service tstr) services) @ nl 1 @ ''</body>'' @ nl 1 @ ''</html>''"

definition debug_ServeHTTP :: "(rtype \<Rightarrow> string) \<Rightarrow> serviceMap \<Rightarrow> string list \<Rightarrow> string" where
  "debug_ServeHTTP tstr sm order = debugText tstr (debug_range sm order [])"

section \<open>Lemmas\<close>

lemma debug_range_eq:
  "debug_range sm order ds =
     ds @ List.map_filter (\<lambda>n. map_option (\<lambda>svc. \<lparr>ds_Name = n, ds_Method = method_entries svc\<rparr>) (sm n)) order"
  by (induction sm order ds rule: debug_range.induct) (simp_all split: option.split)

text \<open>A key that occurs once is found once.\<close>

lemma filter_key: "(k, v) \<in> set xs \<Longrightarrow> distinct (map fst xs) \<Longrightarrow> filter (\<lambda>e. fst e = k) xs = [(k, v)]"
proof (induction xs)
  case (Cons x xs)
  show ?case
  proof (cases "x = (k, v)")
    case True
    with Cons.prems have "\<forall>e \<in> set xs. fst e \<noteq> k" by force
    with True show ?thesis by (simp add: filter_empty_conv)
  next
    case False
    with Cons.prems have "(k, v) \<in> set xs" "fst x \<noteq> k" by (auto simp: rev_image_eqI)
    with Cons show ?thesis by simp
  qed
qed simp

lemma map_filter_one:
  assumes "sn \<in> set order" "distinct order" "sm sn = Some svc"
  shows "filter (\<lambda>d. ds_Name d = sn)
    (List.map_filter (\<lambda>n. map_option (\<lambda>svc. \<lparr>ds_Name = n, ds_Method = method_entries svc\<rparr>) (sm n)) order) =
    [\<lparr>ds_Name = sn, ds_Method = method_entries svc\<rparr>]"
  using assms
proof (induction order)
  case (Cons n order)
  have no: "filter (\<lambda>d. ds_Name d = sn)
      (List.map_filter (\<lambda>n. map_option (\<lambda>svc. \<lparr>ds_Name = n, ds_Method = method_entries svc\<rparr>) (sm n)) ns) = []"
    if "sn \<notin> set ns" for ns
    using that by (induction ns) (auto split: option.split)
  from Cons no [of order] show ?case by (cases "n = sn") (auto split: option.split)
qed simp

definition service_wf :: "service \<Rightarrow> bool" where
  "service_wf svc \<longleftrightarrow> (\<forall>n. s_method svc n \<noteq> None \<longrightarrow> n \<in> m_Name ` set (s_typ svc))"

lemma fold_register_wf:
  "fold register_method ms M n \<noteq> None \<Longrightarrow> n \<in> m_Name ` set ms \<or> M n \<noteq> None"
proof (induction ms arbitrary: M)
  case (Cons m ms)
  from Cons.prems have "fold register_method ms (register_method m M) n \<noteq> None" by simp
  from Cons.IH [OF this] show ?case by (auto simp: register_method_def Let_def split: if_splits)
qed simp

lemma newService_wf: "newService t ms = Ret svc \<Longrightarrow> service_wf svc"
  using fold_register_wf [of ms Map.empty]
  by (auto simp: newService_def registerMethods_def service_wf_def bind_exec_Ret_iff split: if_splits)

lemma method_entries_set:
  "service_wf svc \<Longrightarrow> (n, m) \<in> set (method_entries svc) \<longleftrightarrow> s_method svc n = Some m"
  by (force simp: method_entries_def service_wf_def List.map_filter_def image_iff)

lemma method_entries_distinct: "distinct (map fst (method_entries svc))"
proof -
  have "map fst (List.map_filter (\<lambda>n. map_option (Pair n) (s_method svc n)) ns) = filter (\<lambda>n. s_method svc n \<noteq> None) ns" for ns
    by (induction ns) auto
  then show ?thesis by (simp add: method_entries_def)
qed

section \<open>The numbers of calls\<close>

text \<open>The requests for a method that a connection has started to handle.\<close>

definition started :: "string \<Rightarrow> string \<Rightarrow> 'b handler \<Rightarrow> bool" where
  "started sn mn h \<longleftrightarrow> h_sub h \<noteq> SNew \<and> s_name (r_svc (h_req h)) = sn \<and> m_Name (mt_method (r_mtype (h_req h))) = mn"

definition nstarted :: "string \<Rightarrow> string \<Rightarrow> 'b conn \<Rightarrow> nat" where
  "nstarted sn mn s = length (filter (started sn mn) (hs s))"

lemma length_filter_update:
  "i < length xs \<Longrightarrow> length (filter P (xs[i := x])) + of_bool (P (xs ! i)) = length (filter P xs) + of_bool (P x)"
proof -
  have "length (filter P ys) = (\<Sum>y\<leftarrow>ys. of_bool (P y))" for ys by (induction ys) auto
  moreover assume "i < length xs"
  ultimately show ?thesis using sum_list_map_update [of i xs "\<lambda>y. of_bool (P y) :: nat" x] by simp
qed

lemma nstarted_start:
  assumes "i < length (hs s)" "h_sub (hs s ! i) = SNew"
  shows "nstarted sn mn (set_handler i ((hs s ! i)\<lparr>h_sub := SRun\<rparr>) s) =
    nstarted sn mn s + of_bool (s_name (r_svc (h_req (hs s ! i))) = sn \<and> m_Name (mt_method (r_mtype (h_req (hs s ! i)))) = mn)"
  using length_filter_update [OF assms(1), of "started sn mn" "(hs s ! i)\<lparr>h_sub := SRun\<rparr>"] assms(2)
  by (auto simp: nstarted_def started_def split: if_splits)

text \<open>A step starts no call, or one, which is counted in the table.\<close>

definition starts :: "'b request \<Rightarrow> string \<Rightarrow> string \<Rightarrow> bool" where
  "starts q sn mn \<longleftrightarrow> s_name (r_svc q) = sn \<and> m_Name (mt_method (r_mtype q)) = mn"

lemma nstarted_quiet:
  assumes "i < length (hs s)" "hs s' = hs s" "started sn mn h = started sn mn (hs s ! i)"
  shows "nstarted sn mn (set_handler i h s') = nstarted sn mn s"
  using length_filter_update [OF assms(1), of "started sn mn" h] assms(2,3) by (simp add: nstarted_def)

lemma serve_step_counts:
  assumes "serve_step E s t"
  shows "(smap t = smap s \<and> (\<forall>sn mn. nstarted sn mn t = nstarted sn mn s)) \<or>
    (\<exists>h \<in> set (hs s). smap t = count_call (smap s) (h_req h) \<and>
      (\<forall>sn mn. nstarted sn mn t = nstarted sn mn s + of_bool (starts (h_req h) sn mn)))"
  using assms
proof (induction rule: serve_step.induct)
  case (read_ok s q c)
  then show ?case by (simp add: nstarted_def started_def)
next
  case (call_start s i h)
  then have "nstarted sn mn (set_handler i (h\<lparr>h_sub := SRun\<rparr>) s) = nstarted sn mn s + of_bool (starts (h_req h) sn mn)" for sn mn
    by (simp add: nstarted_start starts_def)
  with call_start(2,3) show ?case by (auto simp: nstarted_def)
next
  case (call_return s i h e r)
  then show ?case by (auto simp: started_def intro!: disjI1 nstarted_quiet)
next
  case (called s i h e r)
  then show ?case by (auto simp: started_def intro!: disjI1 nstarted_quiet)
next
  case (send s i h e r)
  then show ?case by (auto simp: started_def intro!: disjI1 nstarted_quiet)
next
  case (sent s i h)
  then show ?case by (auto simp: started_def intro!: disjI1 nstarted_quiet)
next
  case (timeout s i h)
  then show ?case by (auto simp: started_def intro!: disjI1 nstarted_quiet)
next
  case (send_timeout s i h)
  then show ?case by (auto simp: started_def intro!: disjI1 nstarted_quiet)
qed (simp_all add: nstarted_def)

section \<open>The page\<close>

text \<open>
  The page shows each service and each of its methods once, with the method's entry in the table, in
  whatever order \<open>Range\<close> visits the table.
\<close>

lemma debug_page_entry:
  assumes "distinct order" "set order = dom sm" "sm sn = Some svc" "service_wf svc" "s_method svc mn = Some m"
  shows "\<exists>d. filter (\<lambda>d. ds_Name d = sn) (debug_range sm order []) = [d] \<and>
    filter (\<lambda>e. fst e = mn) (ds_Method d) = [(mn, m)]"
proof -
  define d where "d = \<lparr>ds_Name = sn, ds_Method = method_entries svc\<rparr>"
  have "sn \<in> set order" using assms(2,3) by auto
  then have "filter (\<lambda>d. ds_Name d = sn) (debug_range sm order []) = [d]"
    using assms(1,3) unfolding debug_range_eq append_Nil d_def by (rule map_filter_one)
  moreover have "(mn, m) \<in> set (method_entries svc)" using assms(4,5) by (simp add: method_entries_set)
  then have "filter (\<lambda>e. fst e = mn) (ds_Method d) = [(mn, m)]"
    using method_entries_distinct [of svc] unfolding d_def by (simp add: filter_key)
  ultimately show ?thesis by blast
qed

end
