(* ===== verification/RpcLink.thy ===== *)
theory RpcLink
  imports RpcClient FooService
begin

text \<open>
  The composition of \<^verbatim>\<open>geerpc/client.go\<close>, \<^verbatim>\<open>geerpc/codec/god.go\<close> and
  \<^verbatim>\<open>geerpc/server.go\<close>: a client and the server's end of its connection. What one side's codec
  flushes arrives at the input of the other side's codec, in order; the connection can break at any
  moment, and then nothing arrives any more. The steps of the client are those of
  \<^const>\<open>client_step\<close>, restricted to the headers and bodies the server has really sent; the steps of
  the server are those of \<^const>\<open>serve_step\<close>. The end result is that a call that completes without
  an error holds the reply that the called method computed from the caller's arguments.
\<close>

section \<open>A client and its connection\<close>

text \<open>\<open>wrote\<close> records the requests that the client has written, for the statements below.\<close>

record 'b link =
  lnet :: "'b net"
  lcodec :: "'b GobCodec"
  lconn :: "'b conn"
  up :: bool
  wrote :: "(Header \<times> 'b) list"

definition arrive :: "'b wire list \<Rightarrow> 'b GobCodec \<Rightarrow> 'b GobCodec" where
  "arrive ws c = c\<lparr>inp := inp c @ ws\<rparr>"

definition flushed_by :: "'b GobCodec \<Rightarrow> 'b GobCodec \<Rightarrow> 'b wire list" where
  "flushed_by c c' = drop (length (out c)) (out c')"

text \<open>
  The destination \<open>receive\<close> gives to \<open>ReadBody\<close>: the reply of the call, or nil when there is no
  call or the header has an error. \<open>rdec i\<close> decodes into the type of the reply of call \<open>i\<close>.
\<close>

definition body_dest :: "(nat \<Rightarrow> 'b \<Rightarrow> 'b option) \<Rightarrow> Header \<Rightarrow> nat option \<Rightarrow> ('b \<Rightarrow> 'b option) option" where
  "body_dest rdec h call =
     (case call of None \<Rightarrow> None | Some i \<Rightarrow> if h_Error h \<noteq> '''' then None else Some (rdec i))"

text \<open>
  A step of the client that is not on the wire, or in which a read fails: it neither finishes a
  write nor takes a header or body.
\<close>

definition off_wire :: "'b net \<Rightarrow> 'b net \<Rightarrow> bool" where
  "off_wire n n' \<longleftrightarrow> (receiver n' = receiver n \<or> receiver n' = RStop \<or> (\<exists>e. receiver n' = RTerm e)) \<and>
     (sending n = None \<or> sending n' = sending n)"

text \<open>The server sees the end of its input only when the client has closed or the connection broke.\<close>

definition hung_up :: "'b link \<Rightarrow> bool" where
  "hung_up l \<longleftrightarrow> \<not> up l \<or> cc_closed (client (lnet l))"

definition sees_end :: "'b conn \<Rightarrow> 'b conn \<Rightarrow> bool" where
  "sees_end s t \<longleftrightarrow> reader s = Reading \<and> reader t = Draining \<and> inp (cc s) = []"

inductive link_step ::
  "(string \<Rightarrow> error) \<Rightarrow> (nat \<Rightarrow> 'b \<Rightarrow> 'b option) \<Rightarrow> 'b env \<Rightarrow> 'b link \<Rightarrow> 'b link \<Rightarrow> bool"
  for errorf :: "string \<Rightarrow> error" and rdec :: "nat \<Rightarrow> 'b \<Rightarrow> 'b option" and E :: "'b env" where
  l_local: "client_step errorf (lnet l) n \<Longrightarrow> off_wire (lnet l) n \<Longrightarrow> link_step errorf rdec E l (l\<lparr>lnet := n\<rparr>)"
| l_write: "n = lnet l \<Longrightarrow> sending n = Some i \<Longrightarrow> x = calls (client n) i \<Longrightarrow> pc x = Writing q \<Longrightarrow>
    gob_Write (e_encH E) (e_encB E) (lcodec l) (header (client n)) (c_Args x) = (c, Ret w) \<Longrightarrow>
    link_step errorf rdec E l (l\<lparr>lnet := n\<lparr>client := set_pc i Sent (send_end (client n) q w), sending := None\<rparr>,
      lcodec := c,
      lconn := (lconn l)\<lparr>cc := arrive (if up l then flushed_by (lcodec l) c else []) (cc (lconn l))\<rparr>,
      wrote := wrote l @ (if w = None then [(header (client n), c_Args x)] else [])\<rparr>)"
| l_header: "n = lnet l \<Longrightarrow> receiver n = RRead \<Longrightarrow> inp (lcodec l) \<noteq> [] \<Longrightarrow> ReadHeader (lcodec l) = (Inr h, c) \<Longrightarrow>
    removeCall (client n) (Seq h) = (call, cl) \<Longrightarrow>
    link_step errorf rdec E l (l\<lparr>lnet := n\<lparr>client := cl, receiver := RGot h call\<rparr>, lcodec := c\<rparr>)"
| l_body: "n = lnet l \<Longrightarrow> receiver n = RGot h call \<Longrightarrow> inp (lcodec l) \<noteq> [] \<Longrightarrow>
    ReadBody (body_dest rdec h call) (lcodec l) = (r, c) \<Longrightarrow>
    link_step errorf rdec E l (l\<lparr>lnet := n\<lparr>client := receive_body errorf h call r (client n),
      receiver := (case r of Inl e \<Rightarrow> RTerm e | Inr y \<Rightarrow> RRead)\<rparr>, lcodec := c\<rparr>)"
| l_serve: "serve_step E (lconn l) s \<Longrightarrow> (sees_end (lconn l) s \<Longrightarrow> hung_up l) \<Longrightarrow>
    link_step errorf rdec E l (l\<lparr>lconn := s,
      lcodec := arrive (if up l then flushed_by (cc (lconn l)) (cc s) else []) (lcodec l)\<rparr>)"
| l_break: "link_step errorf rdec E l (l\<lparr>up := False\<rparr>)"

text \<open>
  The start: \<open>NewClient\<close> has sent the options \<open>opt\<close> that \<open>parseOption\<close> made of the caller's, and
  \<open>ServeConn\<close> has decoded them; neither side has received anything yet.
\<close>

definition link_start :: "'b env \<Rightarrow> serviceMap \<Rightarrow> 'b link \<Rightarrow> bool" where
  "link_start E sm l \<longleftrightarrow> (\<exists>x opts opt c err err'. parseOption opts = Inr opt \<and> e_timeout E = HandleTimeout opt \<and>
     NewClient x (Some None) opt = Ret (Inr c) \<and>
     l = \<lparr>lnet = \<lparr>client = c, sending = None, receiver = RRead\<rparr>, lcodec = NewGobCodec [] err,
          lconn = ServeConn sm (Inr opt) [] err', up = True, wrote = []\<rparr>)"

text \<open>The two ends agree on the options: the server serves every client that \<open>NewClient\<close> returns.\<close>

lemma ServeConn_accepts_client:
  assumes "parseOption opts = Inr opt" "NewClient x (Some None) opt = Ret (Inr c)"
  shows "ServeConn sm (Inr opt) i e = serveCodec sm (NewGobCodec i e) \<and> c = newClientCodec x"
  using assms
  by (auto simp: parseOption_def NewClient_def ServeConn_def NewCodecFuncMap_def DefaultOption_def Let_def split: if_splits)

section \<open>The projection on the client\<close>

lemma link_client:
  "link_step F rdec E l l' \<Longrightarrow> client_step F (lnet l) (lnet l') \<or> lnet l' = lnet l"
  by (induction rule: link_step.induct)
    (auto intro: client_step.written client_step.recv_header client_step.recv_body)

lemma link_reach_client:
  "reach (link_start E sm) (link_step F rdec E) l \<Longrightarrow> reach client_start (client_step F) (lnet l)"
proof (induction rule: reach.induct)
  case (reach_init l)
  then have "client_start (lnet l)" by (fastforce simp: link_start_def client_start_def dest: ServeConn_accepts_client)
  then show ?case by (rule reach.reach_init)
next
  case (reach_step l l')
  with link_client [OF reach_step(2)] show ?case by (auto intro: reach.reach_step)
qed

section \<open>What travels on the connection\<close>

definition call_header :: "'b Call \<Rightarrow> Header" where
  "call_header x = \<lparr>ServiceMethod = c_ServiceMethod x, Seq = c_Seq x, h_Error = ''''\<rparr>"

text \<open>A method of the table \<open>sm\<close>, up to the number of its calls.\<close>

definition method_for :: "serviceMap \<Rightarrow> string \<Rightarrow> methodType \<Rightarrow> bool" where
  "method_for sm name m \<longleftrightarrow> (\<exists>svc mt. findService sm name = Inr (svc, mt) \<and> mt_method m = mt_method mt \<and>
     ArgType m = ArgType mt \<and> ReplyType m = ReplyType mt)"

text \<open>The server made the request \<open>q\<close> of the message \<open>(h, x)\<close>.\<close>

definition request_for :: "'b env \<Rightarrow> serviceMap \<Rightarrow> Header \<times> 'b \<Rightarrow> 'b request \<Rightarrow> bool" where
  "request_for E sm m q \<longleftrightarrow> r_h q = fst m \<and> method_for sm (ServiceMethod (fst m)) (r_mtype q) \<and>
     e_decode E (ArgType (r_mtype q)) (snd m) = Some (r_argv q)"

text \<open>An error a client cannot tell from success has an empty text.\<close>

definition silent :: "error option \<Rightarrow> bool" where
  "silent e \<longleftrightarrow> (\<forall>x. e = Some x \<longrightarrow> Error x = '''')"

definition reply_ok :: "'b env \<Rightarrow> serviceMap \<Rightarrow> (Header \<times> 'b) set \<Rightarrow> Header \<times> 'b \<Rightarrow> bool" where
  "reply_ok E sm W m \<longleftrightarrow> (h_Error (fst m) = '''' \<longrightarrow>
     (\<exists>w \<in> W. \<exists>q e. request_for E sm w q \<and> Seq (fst w) = Seq (fst m) \<and> e_call E q = Ret (e, snd m) \<and> silent e))"

definition handler_good :: "'b env \<Rightarrow> serviceMap \<Rightarrow> (Header \<times> 'b) set \<Rightarrow> 'b handler \<Rightarrow> bool" where
  "handler_good E sm W h \<longleftrightarrow> (\<exists>w \<in> W. request_for E sm w (h_req h)) \<and>
     (\<forall>e r. h_sub h = SCalled e r \<or> h_sub h = SSend e r \<longrightarrow> e_call E (h_req h) = Ret (e, r))"

text \<open>
  The server's input: complete requests, possibly after the body of a request whose method was not
  found.
\<close>

definition aligned :: "(Header \<times> 'b) set \<Rightarrow> 'b wire list \<Rightarrow> bool" where
  "aligned W ws \<longleftrightarrow> (\<exists>rest. set rest \<subseteq> W \<and> (ws = msgs rest \<or> (\<exists>x. ws = WBody x # msgs rest)))"

text \<open>What the client has still to read: complete responses, and at the end of a crashed server a header alone.\<close>

definition responses :: "'b env \<Rightarrow> serviceMap \<Rightarrow> (Header \<times> 'b) set \<Rightarrow> bool \<Rightarrow> 'b wire list \<Rightarrow> bool" where
  "responses E sm W crash ws \<longleftrightarrow> (\<exists>ms tl. ws = msgs ms @ tl \<and> (\<forall>m \<in> set ms. reply_ok E sm W m) \<and>
     (tl = [] \<or> crash \<and> (\<exists>h. tl = [WHeader h])))"

definition server_good :: "'b env \<Rightarrow> serviceMap \<Rightarrow> (Header \<times> 'b) set \<Rightarrow> 'b conn \<Rightarrow> bool" where
  "server_good E sm W s \<longleftrightarrow> flushed (cc s) \<and> (\<forall>h \<in> set (hs s). handler_good E sm W h) \<and>
     (\<forall>name svc mt. findService (smap s) name = Inr (svc, mt) \<longrightarrow> method_for sm name mt) \<and>
     (reader s \<notin> {Draining, Closed} \<longrightarrow> aligned W (inp (cc s))) \<and>
     (\<forall>h e. reader s = Replying h e \<longrightarrow> Error e \<noteq> '''')"

lemma msgs_append [simp]: "msgs (xs @ ys) = msgs xs @ msgs ys"
  by (simp add: msgs_def)

lemma reply_ok_mono: "reply_ok E sm W m \<Longrightarrow> W \<subseteq> W' \<Longrightarrow> reply_ok E sm W' m"
  unfolding reply_ok_def by blast

lemma handler_good_mono: "handler_good E sm W h \<Longrightarrow> W \<subseteq> W' \<Longrightarrow> handler_good E sm W' h"
  unfolding handler_good_def by blast

lemma aligned_mono: "aligned W ws \<Longrightarrow> W \<subseteq> W' \<Longrightarrow> aligned W' ws"
  unfolding aligned_def by blast

lemma server_good_mono: "server_good E sm W s \<Longrightarrow> W \<subseteq> W' \<Longrightarrow> server_good E sm W' s"
  unfolding server_good_def using handler_good_mono aligned_mono by blast

lemma responses_mono: "responses E sm W b ws \<Longrightarrow> W \<subseteq> W' \<Longrightarrow> responses E sm W' b ws"
  unfolding responses_def using reply_ok_mono by blast

lemma aligned_snoc: "aligned W ws \<Longrightarrow> (h, x) \<in> W \<Longrightarrow> aligned W (ws @ [WHeader h, WBody x])"
proof -
  assume "aligned W ws" and x: "(h, x) \<in> W"
  then obtain rest where "set rest \<subseteq> W" "ws = msgs rest \<or> (\<exists>y. ws = WBody y # msgs rest)"
    by (auto simp: aligned_def)
  with x show ?thesis unfolding aligned_def by (intro exI [of _ "rest @ [(h, x)]"]) auto
qed

lemma method_for_count_call:
  assumes "\<And>name svc mt. findService sm' name = Inr (svc, mt) \<Longrightarrow> method_for sm name mt"
    and "findService (count_call sm' q) name = Inr (svc, mt)"
  shows "method_for sm name mt"
proof -
  have "\<exists>svc' mt'. findService sm' name = Inr (svc', mt') \<and> mt_method mt = mt_method mt' \<and>
      ArgType mt = ArgType mt' \<and> ReplyType mt = ReplyType mt'"
    using assms(2)
    by (auto simp: findService_def count_call_def add_call_def Let_def split: if_splits option.splits)
  with assms(1) show ?thesis unfolding method_for_def by metis
qed

text \<open>A request read from aligned input is one that the client wrote.\<close>

lemma aligned_cases:
  assumes "aligned W ws"
  obtains "ws = []" | x r where "ws = WBody x # r"
  | h x r where "ws = WHeader h # WBody x # r" "(h, x) \<in> W" "aligned W r" "aligned W (WBody x # r)"
proof -
  from assms obtain rest where rest: "set rest \<subseteq> W" "ws = msgs rest \<or> (\<exists>x. ws = WBody x # msgs rest)"
    by (auto simp: aligned_def)
  then show thesis using that by (cases rest) (auto simp: aligned_def, blast)
qed

lemma readRequest_aligned:
  assumes "aligned W (inp c)" "\<And>name svc mt. findService sm' name = Inr (svc, mt) \<Longrightarrow> method_for sm name mt"
  shows "readRequest (e_decode E) sm' c = Ret (ReadOk q, c') \<Longrightarrow>
      (\<exists>w \<in> W. request_for E sm w q) \<and> aligned W (inp c')"
    and "readRequest (e_decode E) sm' c = Ret (ReadErr h e, c') \<Longrightarrow> aligned W (inp c') \<and> Error e \<noteq> ''''"
proof -
  have f: "Error e \<noteq> ''''" if "findService sm' n = Inl e" for n e
    using that by (auto simp: findService_def Let_def split: if_splits option.splits)
  show "readRequest (e_decode E) sm' c = Ret (ReadOk q, c') \<Longrightarrow> (\<exists>w \<in> W. request_for E sm w q) \<and> aligned W (inp c')"
    using assms(1)
  proof (cases rule: aligned_cases)
    case (3 h x r)
    then show "readRequest (e_decode E) sm' c = Ret (ReadOk q, c') \<Longrightarrow> ?thesis"
      using assms(2) [of "ServiceMethod h"]
      by (auto simp: readRequest_def readRequestHeader_def ReadHeader_def ReadBody_def bind_exec_Ret_iff request_for_def
          split: sum.splits option.splits intro!: bexI [of _ "(h, x)"])
  qed (auto simp: readRequest_def readRequestHeader_def ReadHeader_def)
  show "readRequest (e_decode E) sm' c = Ret (ReadErr h e, c') \<Longrightarrow> aligned W (inp c') \<and> Error e \<noteq> ''''"
    using assms(1)
  proof (cases rule: aligned_cases)
    case (3 h x r)
    then show "readRequest (e_decode E) sm' c = Ret (ReadErr h' e, c') \<Longrightarrow> ?thesis" for h'
      using f by (auto simp: readRequest_def readRequestHeader_def ReadHeader_def ReadBody_def bind_exec_Ret_iff
          gob_mismatch_def split: sum.splits option.splits)
  qed (auto simp: readRequest_def readRequestHeader_def ReadHeader_def)
qed

section \<open>The server's side\<close>

text \<open>What a step of the server can flush.\<close>

definition replies :: "'b env \<Rightarrow> serviceMap \<Rightarrow> (Header \<times> 'b) set \<Rightarrow> bool \<Rightarrow> 'b wire list \<Rightarrow> bool" where
  "replies E sm W crash ws \<longleftrightarrow> ws = [] \<or> (\<exists>h x. ws = [WHeader h, WBody x] \<and> reply_ok E sm W (h, x)) \<or>
     crash \<and> (\<exists>h. ws = [WHeader h])"

lemma responses_append:
  assumes "responses E sm W False ws" "replies E sm W b vs"
  shows "responses E sm W b (ws @ vs)"
proof -
  from assms(1) obtain ms where ms: "ws = msgs ms" "\<forall>m \<in> set ms. reply_ok E sm W m" by (auto simp: responses_def)
  from assms(2) consider "vs = []" | h x where "vs = [WHeader h, WBody x]" "reply_ok E sm W (h, x)"
    | h where b "vs = [WHeader h]" by (auto simp: replies_def)
  then show ?thesis
  proof cases
    case (2 h x)
    with ms show ?thesis unfolding responses_def by (intro exI [of _ "ms @ [(h, x)]"] exI [of _ "[]"]) auto
  qed (use ms in \<open>auto simp: responses_def\<close>)
qed

lemma sendResponse_good:
  assumes "headers_encode E" "flushed (cc s)" "reply_ok E sm W (h, x)" "\<not> crashed s"
  shows "\<exists>ws. out (cc (sendResponse E s h x)) = out (cc s) @ ws \<and> flushed (cc (sendResponse E s h x)) \<and>
    replies E sm W (crashed (sendResponse E s h x)) ws"
  using assms
  by (auto simp: sendResponse_def gob_Write_def headers_encode_def flushed_def Flush_def Let_def replies_def split: option.splits)

lemma reply_ok_error: "h_Error h \<noteq> '''' \<Longrightarrow> reply_ok E sm W (h, x)"
  by (simp add: reply_ok_def)

lemma reply_ok_handler:
  assumes "handler_good E sm W h" "h_sub h = SSend e r"
  shows "reply_ok E sm W (with_error (r_h (h_req h)) e, r)"
proof -
  from assms obtain w where w: "w \<in> W" "request_for E sm w (h_req h)" "e_call E (h_req h) = Ret (e, r)"
    by (auto simp: handler_good_def)
  then have "Seq (fst w) = Seq (with_error (r_h (h_req h)) e)" by (simp add: request_for_def)
  moreover have "silent e" if "h_Error (with_error (r_h (h_req h)) e) = ''''"
    using that by (auto simp: silent_def with_error_def)
  ultimately show ?thesis using w unfolding reply_ok_def by (metis fst_conv snd_conv)
qed

lemma server_goodD:
  assumes "server_good E sm W s"
  shows "flushed (cc s)" "i < length (hs s) \<Longrightarrow> handler_good E sm W (hs s ! i)"
    "findService (smap s) name = Inr (svc, mt) \<Longrightarrow> method_for sm name mt"
    "reader s \<notin> {Draining, Closed} \<Longrightarrow> aligned W (inp (cc s))" "reader s = Replying h e \<Longrightarrow> Error e \<noteq> ''''"
  using assms by (auto simp: server_good_def)

lemma server_good_handler:
  assumes "server_good E sm W s" "handler_good E sm W h"
  shows "server_good E sm W (set_handler i h s)"
  using assms ball_set_update [of "hs s" "handler_good E sm W" h i] by (auto simp: server_good_def)

lemma server_good_sent:
  assumes "server_good E sm W s" "flushed (cc (sendResponse E s h x))"
  shows "server_good E sm W (sendResponse E s h x)"
  using assms by (simp add: server_good_def)

text \<open>A step of a request's goroutine that sends nothing.\<close>

lemma server_quiet:
  assumes "server_good E sm W t" "out (cc t) = out (cc s)"
  shows "server_good E sm W t \<and> (\<exists>ws. out (cc t) = out (cc s) @ ws \<and> replies E sm W b ws)"
  using assms by (auto simp: replies_def)

lemma server_good_step:
  assumes "headers_encode E" "serve_step E s t" "server_good E sm W s"
  shows "server_good E sm W t \<and> (\<exists>ws. out (cc t) = out (cc s) @ ws \<and> replies E sm W (crashed t) ws)"
  using assms(2,3)
proof (induction rule: serve_step.induct)
  case (read_ok s q c)
  note r = readRequest_aligned(1) [OF server_goodD(4) [OF read_ok.prems] server_goodD(3) [OF read_ok.prems] read_ok(3)]
  from readRequest_frame [OF read_ok(3)] read_ok r show ?case
    by (intro server_quiet) (auto simp: server_good_def flushed_def handler_good_def)
next
  case (read_err s h e c)
  note r = readRequest_aligned(2) [OF server_goodD(4) [OF read_err.prems] server_goodD(3) [OF read_err.prems] read_err(3)]
  from readRequest_frame [OF read_err(3)] read_err r show ?case
    by (intro server_quiet) (auto simp: server_good_def flushed_def)
next
  case (read_fail s e c)
  from readRequest_frame [OF read_fail(3)] read_fail show ?case
    by (intro server_quiet) (auto simp: server_good_def flushed_def)
next
  case (reply_err s h e)
  from server_goodD(5) [OF reply_err.prems reply_err(2)]
  have "reply_ok E sm W (h\<lparr>h_Error := Error e\<rparr>, invalidRequest E)" by (intro reply_ok_error) simp
  from sendResponse_good [OF assms(1) server_goodD(1) [OF reply_err.prems] this reply_err(1)]
  show ?case using reply_err by (auto simp: server_good_def)
next
  case (close s)
  then show ?case by (intro server_quiet) (auto simp: server_good_def flushed_def gob_Close_def)
next
  case (call_start s i h)
  have "handler_good E sm W (h\<lparr>h_sub := SRun\<rparr>)"
    using server_goodD(2) [OF call_start.prems call_start(2)] call_start(3) by (simp add: handler_good_def)
  moreover have "method_for sm name mt" if "findService (count_call (smap s) (h_req h)) name = Inr (svc, mt)" for name svc mt
    using method_for_count_call [of "smap s", OF _ that] server_goodD(3) [OF call_start.prems] by blast
  ultimately show ?case
    using server_good_handler [OF call_start.prems, of "h\<lparr>h_sub := SRun\<rparr>" i]
    by (intro server_quiet) (auto simp: server_good_def)
next
  case (call_return s i h e r)
  have "handler_good E sm W (h\<lparr>h_sub := SCalled e r\<rparr>)"
    using server_goodD(2) [OF call_return.prems call_return(2)] call_return by (simp add: handler_good_def)
  from server_good_handler [OF call_return.prems this, of i] show ?case by (intro server_quiet) auto
next
  case (called s i h e r)
  have "handler_good E sm W (h\<lparr>h_sub := SSend e r, h_main := MSent\<rparr>)"
    using server_goodD(2) [OF called.prems called(2)] called by (simp add: handler_good_def)
  from server_good_handler [OF called.prems this, of i] show ?case by (intro server_quiet) auto
next
  case (send s i h e r)
  have g: "handler_good E sm W h" using server_goodD(2) [OF send.prems send(2)] send(3) by simp
  then have "handler_good E sm W (h\<lparr>h_sub := SSent\<rparr>)" by (simp add: handler_good_def)
  with sendResponse_good [OF assms(1) server_goodD(1) [OF send.prems] reply_ok_handler [OF g send(4)] send(1)]
  show ?case using server_good_handler server_good_sent [OF send.prems] by fastforce
next
  case (sent s i h)
  have "handler_good E sm W (h\<lparr>h_sub := SEnd, h_main := MDone\<rparr>)"
    using server_goodD(2) [OF sent.prems sent(2)] sent(3) by (simp add: handler_good_def)
  from server_good_handler [OF sent.prems this, of i] show ?case by (intro server_quiet) auto
next
  case (timeout s i h)
  have "handler_good E sm W (h\<lparr>h_main := MTimeout\<rparr>)"
    using server_goodD(2) [OF timeout.prems timeout(2)] timeout(3) by (simp add: handler_good_def)
  from server_good_handler [OF timeout.prems this, of i] show ?case by (intro server_quiet) auto
next
  case (send_timeout s i h)
  have g: "handler_good E sm W (h\<lparr>h_main := MDone\<rparr>)"
    using server_goodD(2) [OF send_timeout.prems send_timeout(2)] send_timeout(3) by (simp add: handler_good_def)
  have "reply_ok E sm W (with_error (r_h (h_req h)) (Some (timeout_error E)), invalidRequest E)"
    by (rule reply_ok_error) (simp add: with_error_def timeout_error_def)
  with sendResponse_good [OF assms(1) server_goodD(1) [OF send_timeout.prems] this send_timeout(1)] g
  show ?case using server_good_handler server_good_sent [OF send_timeout.prems] by fastforce
qed (auto simp: server_good_def replies_def)

section \<open>The client's side\<close>

text \<open>Steps of the client do not change what identifies the calls made before.\<close>

definition same_call :: "'b Call \<Rightarrow> 'b Call \<Rightarrow> bool" where
  "same_call x y \<longleftrightarrow> call_header x = call_header y \<and> c_Args x = c_Args y"

lemma same_call_simps [simp]:
  "same_call x x" "same_call x (call_done x)" "same_call x (fail_call e x)" "same_call x (deliver F h r x)"
  "same_call x (x\<lparr>pc := p\<rparr>)" "same_call x (x\<lparr>chan := n, pc := p\<rparr>)"
  by (simp_all add: same_call_def call_header_def call_done_def fail_call_def deliver_def split: sum.split)

lemma same_call_send_end:
  "same_call (calls c i) (calls (set_pc k p (send_end c q w)) i)"
  by (auto simp: send_end_def removeCall_def same_call_def call_header_def fail_call_def call_done_def split: option.split)

lemma same_call_terminate:
  "seq_inv c \<Longrightarrow> same_call (calls c i) (calls (terminateCalls c e) i)"
  by (simp add: terminateCalls_calls)

lemma same_call_step:
  assumes "client_step F s t" "client_inv s" "i < ncalls (client s)"
  shows "same_call (calls (client s) i) (calls (client t) i)"
  using assms
proof (induction rule: client_step.induct)
  case (go s k sm args sy q c)
  then show ?case
    by (auto simp: send_begin_def registerCall_def add_call_to_def split: if_splits)
next
  case (written s k q w)
  show ?case by (simp add: same_call_send_end del: set_pc_simps)
next
  case (terminate s e)
  then show ?case by (simp add: same_call_terminate client_inv_def)
qed (auto simp: removeCall_def receive_body_def client_Close_def split: option.splits)

text \<open>The header that the holder of \<open>sending\<close> is about to write is that of its call.\<close>

definition sender_good :: "'b net \<Rightarrow> bool" where
  "sender_good s \<longleftrightarrow> (\<forall>i. sending s = Some i \<longrightarrow>
     i < ncalls (client s) \<and> header (client s) = call_header (calls (client s) i) \<and> c_Seq (calls (client s) i) \<noteq> 0)"

lemma seq_pos: "seq_inv c \<Longrightarrow> seq c \<noteq> 0"
  using seq_invD(3) by force

lemma sender_good_step:
  assumes "client_step F s t" "client_inv s" "sender_good s"
  shows "sender_good t"
  using assms
proof (induction rule: client_step.induct)
  case (go s i sm args sy q c)
  then have "seq (client s) \<noteq> 0" using seq_pos by (auto simp: client_inv_def)
  with go show ?case
    by (auto simp: sender_good_def send_begin_def registerCall_def add_call_to_def make_call_def call_header_def split: if_splits)
next
  case (terminate s e)
  then show ?case by (simp add: sender_good_def)
qed (auto simp: sender_good_def removeCall_def receive_body_def set_pc_def client_Close_def call_header_def deliver_def call_done_def
    split: option.splits sum.splits)

text \<open>A completed call that has no error holds the reply of its method.\<close>

definition call_ok :: "(nat \<Rightarrow> 'b \<Rightarrow> 'b option) \<Rightarrow> 'b env \<Rightarrow> serviceMap \<Rightarrow> nat \<Rightarrow> 'b Call \<Rightarrow> bool" where
  "call_ok rdec E sm i x \<longleftrightarrow> (\<exists>q e v y. request_for E sm (call_header x, c_Args x) q \<and>
     e_call E q = Ret (e, v) \<and> silent e \<and> rdec i v = Some y \<and> c_Reply x = Some y)"

definition calls_ok :: "(nat \<Rightarrow> 'b \<Rightarrow> 'b option) \<Rightarrow> 'b env \<Rightarrow> serviceMap \<Rightarrow> 'b Client \<Rightarrow> bool" where
  "calls_ok rdec E sm c \<longleftrightarrow> (\<forall>i < ncalls c. 0 < dones (calls c i) \<and> c_Error (calls c i) = None \<longrightarrow>
     call_ok rdec E sm i (calls c i))"

text \<open>A change of a call that keeps whether it is complete and its results.\<close>

definition same_result :: "'b Call \<Rightarrow> 'b Call \<Rightarrow> bool" where
  "same_result x y \<longleftrightarrow> same_call x y \<and> dones x = dones y \<and> c_Error x = c_Error y \<and> c_Reply x = c_Reply y"

lemma calls_ok_step:
  assumes "calls_ok rdec E sm c" "ncalls c' = ncalls c"
    and "\<And>i. i < ncalls c \<Longrightarrow> same_result (calls c i) (calls c' i) \<or> c_Error (calls c' i) \<noteq> None \<or> call_ok rdec E sm i (calls c' i)"
  shows "calls_ok rdec E sm c'"
  unfolding calls_ok_def
proof (intro allI impI)
  fix i assume i: "i < ncalls c'" "0 < dones (calls c' i) \<and> c_Error (calls c' i) = None"
  with assms(2) assms(3) [of i] consider "same_result (calls c i) (calls c' i)" | "call_ok rdec E sm i (calls c' i)" by auto
  then show "call_ok rdec E sm i (calls c' i)"
  proof cases
    case 1
    with assms(1,2) i have "call_ok rdec E sm i (calls c i)" by (simp add: calls_ok_def same_result_def)
    with 1 show ?thesis by (simp add: call_ok_def same_result_def same_call_def)
  qed
qed

lemma same_result_simps [simp]: "same_result x x" "same_result x (x\<lparr>pc := p\<rparr>)" "same_result x (x\<lparr>chan := n, pc := p\<rparr>)"
  by (simp_all add: same_result_def)

lemma c_Error_fail_call [simp]: "c_Error (fail_call e x) = Some e"
  by (simp add: fail_call_def call_done_def)

lemma c_Error_deliver_Inl: "c_Error (deliver F h (Inl e) x) \<noteq> None"
  by (simp add: deliver_def call_done_def)

lemma calls_ok_off_wire:
  assumes "client_step F s t" "off_wire s t" "client_inv s" "calls_ok rdec E sm (client s)"
  shows "calls_ok rdec E sm (client t)"
  using assms
proof (induction rule: client_step.induct)
  case (go s i sm' args sy q c)
  then have "ncalls c = Suc (ncalls (client s))" "\<And>j. j < ncalls (client s) \<Longrightarrow> calls c j = calls (client s) j"
      "dones (calls c i) = 0 \<or> c_Error (calls c i) \<noteq> None"
    by (auto simp: send_begin_def registerCall_def add_call_to_def make_call_def split: if_splits)
  with go show ?case by (auto simp: calls_ok_def less_Suc_eq)
next
  case (written s i q w)
  then show ?case by (simp add: off_wire_def)
next
  case (recv_header s h call c)
  then show ?case by (simp add: off_wire_def)
next
  case (recv_body s h call r)
  then obtain e where r: "r = Inl e" by (auto simp: off_wire_def split: sum.splits)
  show ?case
    by (rule calls_ok_step [OF recv_body.prems(3)])
      (use r c_Error_deliver_Inl [of F h e] in \<open>auto simp: receive_body_def split: option.splits\<close>)
next
  case (terminate s e)
  then have "seq_inv (client s)" by (simp add: client_inv_def)
  from terminateCalls_calls [OF this, of e] show ?case
    by (intro calls_ok_step [OF terminate.prems(3)]) auto
qed (auto elim!: calls_ok_step simp: removeCall_def client_Close_def)

section \<open>The invariant of the composition\<close>

definition wrote_ok :: "(Header \<times> 'b) set \<Rightarrow> 'b Client \<Rightarrow> bool" where
  "wrote_ok W c \<longleftrightarrow> (\<forall>w \<in> W. \<exists>i < ncalls c. w = (call_header (calls c i), c_Args (calls c i)) \<and> c_Seq (calls c i) \<noteq> 0)"

fun incoming :: "receiver \<Rightarrow> 'b wire list \<Rightarrow> 'b wire list option" where
  "incoming RRead ws = Some ws"
| "incoming (RGot h call) ws = Some (WHeader h # ws)"
| "incoming (RTerm e) ws = None"
| "incoming RStop ws = None"

definition link_inv :: "(nat \<Rightarrow> 'b \<Rightarrow> 'b option) \<Rightarrow> 'b env \<Rightarrow> serviceMap \<Rightarrow> 'b link \<Rightarrow> bool" where
  [invs]: "link_inv rdec E sm l \<longleftrightarrow> client_inv (lnet l) \<and> sender_good (lnet l) \<and>
     wrote_ok (set (wrote l)) (client (lnet l)) \<and> server_good E sm (set (wrote l)) (lconn l) \<and> flushed (lcodec l) \<and>
     (\<forall>ws. incoming (receiver (lnet l)) (inp (lcodec l)) = Some ws \<longrightarrow>
        responses E sm (set (wrote l)) (crashed (lconn l)) ws) \<and>
     calls_ok rdec E sm (client (lnet l))"

lemma wrote_ok_step:
  assumes "wrote_ok W c" "ncalls c \<le> ncalls c'" "\<And>i. i < ncalls c \<Longrightarrow> same_call (calls c i) (calls c' i)"
  shows "wrote_ok W c'"
  unfolding wrote_ok_def
proof
  fix w assume "w \<in> W"
  with assms(1) obtain i where i: "i < ncalls c" "w = (call_header (calls c i), c_Args (calls c i))" "c_Seq (calls c i) \<noteq> 0"
    by (auto simp: wrote_ok_def)
  moreover have "same_call (calls c i) (calls c' i)" by (rule assms(3) [OF i(1)])
  moreover from this have "c_Seq (calls c' i) = c_Seq (calls c i)" by (simp add: same_call_def call_header_def)
  ultimately show "\<exists>i < ncalls c'. w = (call_header (calls c' i), c_Args (calls c' i)) \<and> c_Seq (calls c' i) \<noteq> 0"
    using assms(2) by (intro exI [of _ i]) (simp add: same_call_def)
qed

lemma responses_crash: "responses E sm W b ws \<Longrightarrow> (b \<Longrightarrow> b') \<Longrightarrow> responses E sm W b' ws"
  unfolding responses_def by blast

lemma responses_message:
  assumes "responses E sm W b (WHeader h # y # r)"
  shows "\<exists>x. y = WBody x \<and> reply_ok E sm W (h, x) \<and> responses E sm W b r"
proof -
  from assms obtain ms tl where ms: "WHeader h # y # r = msgs ms @ tl" "\<forall>m \<in> set ms. reply_ok E sm W m"
      "tl = [] \<or> b \<and> (\<exists>h. tl = [WHeader h])" by (auto simp: responses_def)
  then obtain x ms' where "ms = (h, x) # ms'" "y = WBody x" "r = msgs ms' @ tl" by (cases ms) auto
  with ms show ?thesis by (auto simp: responses_def)
qed

text \<open>The reply that arrives for a call is that of its own request.\<close>

lemma reply_call_ok:
  assumes "reply_ok E sm W (h, x)" "h_Error h = ''''" "wrote_ok W c" "seq_inv c" "i < ncalls c"
    "c_Seq (calls c i) = Seq h" "rdec i x = Some y"
  shows "call_ok rdec E sm i (deliver F h (Inr (Some y)) (calls c i))"
proof -
  from assms(1,2) obtain w q e where w: "w \<in> W" "request_for E sm w q" "Seq (fst w) = Seq h" "e_call E q = Ret (e, x)" "silent e"
    by (auto simp: reply_ok_def)
  with assms(3) obtain j where j: "j < ncalls c" "w = (call_header (calls c j), c_Args (calls c j))" "c_Seq (calls c j) \<noteq> 0"
    by (auto simp: wrote_ok_def)
  then have "j = i" using seq_invD(6) [OF assms(4) j(1) assms(5)] w(3) assms(6) by (simp add: call_header_def)
  with w j assms(2,7) show ?thesis
    by (auto simp: call_ok_def deliver_def call_done_def call_header_def intro!: exI [of _ q])
qed

lemma link_inv_local:
  assumes "link_inv rdec E sm l" "client_step F (lnet l) n" "off_wire (lnet l) n" "client_inv n"
  shows "link_inv rdec E sm (l\<lparr>lnet := n\<rparr>)"
proof -
  have inv: "client_inv (lnet l)" using assms(1) by (simp add: link_inv_def)
  have "wrote_ok (set (wrote l)) (client n)"
    using assms(1) ncalls_step [OF assms(2)] same_call_step [OF assms(2) inv]
    by (auto simp: link_inv_def elim!: wrote_ok_step)
  moreover have "incoming (receiver n) (inp (lcodec l)) \<in> {None, incoming (receiver (lnet l)) (inp (lcodec l))}"
    using assms(3) by (auto simp: off_wire_def)
  ultimately show ?thesis
    using assms calls_ok_off_wire [OF assms(2,3) inv] sender_good_step [OF assms(2) inv] by (auto simp: link_inv_def)
qed

lemma gob_Write_encodes:
  assumes "headers_encode E" "flushed c" "gob_Write (e_encH E) (e_encB E) c h x = (c', Ret w)"
  shows "w = None \<and> flushed c' \<and> out c' = out c @ [WHeader h, WBody x] \<and> inp c' = inp c"
  using assms by (auto simp: gob_Write_def headers_encode_def flushed_def Flush_def Let_def split: option.splits)

lemma server_good_arrive:
  assumes "server_good E sm W s" "ws = [] \<or> (\<exists>h x. ws = [WHeader h, WBody x] \<and> (h, x) \<in> W)"
  shows "server_good E sm W (s\<lparr>cc := arrive ws (cc s)\<rparr>)"
  using assms aligned_snoc by (auto simp: server_good_def arrive_def flushed_def)

lemma link_inv_write:
  assumes "link_inv rdec E sm l" "headers_encode E" "sending (lnet l) = Some i"
    and "gob_Write (e_encH E) (e_encB E) (lcodec l) (header (client (lnet l))) (c_Args (calls (client (lnet l)) i)) = (c, Ret w)"
    and "client_inv ((lnet l)\<lparr>client := set_pc i Sent (send_end (client (lnet l)) q w), sending := None\<rparr>)"
  shows "link_inv rdec E sm (l\<lparr>lnet := (lnet l)\<lparr>client := set_pc i Sent (send_end (client (lnet l)) q w), sending := None\<rparr>,
      lcodec := c,
      lconn := (lconn l)\<lparr>cc := arrive (if up l then flushed_by (lcodec l) c else []) (cc (lconn l))\<rparr>,
      wrote := wrote l @ (if w = None then [(header (client (lnet l)), c_Args (calls (client (lnet l)) i))] else [])\<rparr>)"
proof -
  let ?n = "lnet l" and ?m = "(header (client (lnet l)), c_Args (calls (client (lnet l)) i))"
  let ?c' = "set_pc i Sent (client ?n)"
  have "flushed (lcodec l)" using assms(1) by (simp add: link_inv_def)
  note w = gob_Write_encodes [OF assms(2) this assms(4)]
  have i: "i < ncalls (client ?n)" "fst ?m = call_header (calls (client ?n) i)" "c_Seq (calls (client ?n) i) \<noteq> 0"
    using assms(1,3) by (simp_all add: link_inv_def sender_good_def)
  have "wrote_ok (set (wrote l)) (client ?n)" using assms(1) by (simp add: link_inv_def)
  then have "wrote_ok (set (wrote l @ [?m])) (client ?n)" using i by (auto simp: wrote_ok_def)
  then have 1: "wrote_ok (set (wrote l @ [?m])) ?c'" by (rule wrote_ok_step) auto
  have "server_good E sm (set (wrote l @ [?m])) (lconn l)"
    by (rule server_good_mono [of E sm "set (wrote l)"]) (use assms(1) in \<open>auto simp: link_inv_def\<close>)
  then have 2: "server_good E sm (set (wrote l @ [?m]))
      ((lconn l)\<lparr>cc := arrive (if up l then flushed_by (lcodec l) c else []) (cc (lconn l))\<rparr>)"
    by (rule server_good_arrive) (simp add: flushed_by_def w)
  have 3: "calls_ok rdec E sm ?c'" using assms(1) by (auto simp: link_inv_def elim!: calls_ok_step)
  have "send_end (client ?n) q w = client ?n" using w by (simp add: send_end_def)
  with 1 2 3 assms(1,5) w show ?thesis
    by (auto simp: link_inv_def sender_good_def intro: responses_mono)
qed

lemma link_inv_header:
  assumes "link_inv rdec E sm l" "receiver (lnet l) = RRead" "ReadHeader (lcodec l) = (Inr h, c)"
    and "removeCall (client (lnet l)) (Seq h) = (call, cl)"
    and "client_inv ((lnet l)\<lparr>client := cl, receiver := RGot h call\<rparr>)"
  shows "link_inv rdec E sm (l\<lparr>lnet := (lnet l)\<lparr>client := cl, receiver := RGot h call\<rparr>, lcodec := c\<rparr>)"
proof -
  have c: "inp (lcodec l) = WHeader h # inp c" "buf c = buf (lcodec l)"
    using assms(3) by (auto simp: ReadHeader_def split: list.splits wire.splits)
  have cl: "calls cl = calls (client (lnet l))" "ncalls cl = ncalls (client (lnet l))" "header cl = header (client (lnet l))"
    using assms(4) by (auto simp: removeCall_def)
  from assms c cl show ?thesis
    by (simp add: link_inv_def sender_good_def wrote_ok_def calls_ok_def flushed_def)
qed

lemma link_inv_body:
  assumes "link_inv rdec E sm l" "receiver (lnet l) = RGot h call" "inp (lcodec l) \<noteq> []"
    and "ReadBody (body_dest rdec h call) (lcodec l) = (r, c)"
    and "client_inv ((lnet l)\<lparr>client := receive_body F h call r (client (lnet l)),
      receiver := (case r of Inl e \<Rightarrow> RTerm e | Inr y \<Rightarrow> RRead)\<rparr>)"
  shows "link_inv rdec E sm (l\<lparr>lnet := (lnet l)\<lparr>client := receive_body F h call r (client (lnet l)),
      receiver := (case r of Inl e \<Rightarrow> RTerm e | Inr y \<Rightarrow> RRead)\<rparr>, lcodec := c\<rparr>)"
proof -
  let ?n = "lnet l" and ?W = "set (wrote l)"
  let ?t = "?n\<lparr>client := receive_body F h call r (client ?n), receiver := (case r of Inl e \<Rightarrow> RTerm e | Inr y \<Rightarrow> RRead)\<rparr>"
  from assms(3) obtain b ws where ws: "inp (lcodec l) = b # ws" by (cases "inp (lcodec l)") auto
  have inv: "client_inv ?n" "sender_good ?n" "seq_inv (client ?n)" "wrote_ok ?W (client ?n)" "calls_ok rdec E sm (client ?n)"
    using assms(1) by (simp_all add: link_inv_def client_inv_def)
  have "responses E sm ?W (crashed (lconn l)) (WHeader h # b # ws)" using assms(1,2) ws by (simp add: link_inv_def)
  from responses_message [OF this] obtain x where x: "b = WBody x" "reply_ok E sm ?W (h, x)"
      "responses E sm ?W (crashed (lconn l)) ws" by blast
  have c: "c = (lcodec l)\<lparr>inp := ws\<rparr>" and r: "r = (case body_dest rdec h call of None \<Rightarrow> Inr None
      | Some d \<Rightarrow> (case d x of Some y \<Rightarrow> Inr (Some y) | None \<Rightarrow> Inl gob_mismatch))"
    using assms(4) ws x(1) by (auto simp: ReadBody_def split: option.splits)
  have s: "client_step F ?n ?t" by (rule recv_body [OF assms(2)])
  have "calls_ok rdec E sm (client ?t)"
  proof (rule calls_ok_step [OF inv(5)])
    fix i assume i: "i < ncalls (client ?n)"
    show "same_result (calls (client ?n) i) (calls (client ?t) i) \<or> c_Error (calls (client ?t) i) \<noteq> None \<or>
        call_ok rdec E sm i (calls (client ?t) i)"
    proof (cases "call = Some i \<and> h_Error h = ''''")
      case True
      then have "c_Seq (calls (client ?n) i) = Seq h" using inv(1) assms(2) by (simp add: client_inv_def take_inv_def)
      from reply_call_ok [OF x(2) _ inv(4,3) i this] True show ?thesis
        by (cases "rdec i x") (auto simp: r body_dest_def receive_body_def c_Error_deliver_Inl)
    qed (auto simp: receive_body_def deliver_def call_done_def split: option.split)
  qed (simp add: receive_body_def split: option.split)
  moreover have "wrote_ok ?W (client ?t)"
    using ncalls_step [OF s] same_call_step [OF s inv(1)] by (intro wrote_ok_step [OF inv(4)]) auto
  moreover have "incoming (receiver ?t) (inp c) \<in> {None, Some ws}" using c by (simp split: sum.split)
  ultimately show ?thesis
    using assms(1,5) c x(3) sender_good_step [OF s inv(1,2)] by (auto simp: link_inv_def flushed_def)
qed

lemma link_inv_serve:
  assumes "link_inv rdec E sm l" "headers_encode E" "serve_step E (lconn l) s"
  shows "link_inv rdec E sm (l\<lparr>lconn := s,
      lcodec := arrive (if up l then flushed_by (cc (lconn l)) (cc s) else []) (lcodec l)\<rparr>)"
proof -
  have nc: "\<not> crashed (lconn l)" using assms(3) by (cases rule: serve_step.cases) auto
  have "server_good E sm (set (wrote l)) (lconn l)" using assms(1) by (simp add: link_inv_def)
  from server_good_step [OF assms(2,3) this] obtain ws where s: "server_good E sm (set (wrote l)) s"
      "out (cc s) = out (cc (lconn l)) @ ws" "replies E sm (set (wrote l)) (crashed s) ws" by blast
  let ?new = "if up l then flushed_by (cc (lconn l)) (cc s) else []"
  have r: "replies E sm (set (wrote l)) (crashed s) ?new" using s(2,3) by (auto simp: flushed_by_def replies_def)
  have "responses E sm (set (wrote l)) (crashed s) vs"
    if "incoming (receiver (lnet l)) (inp (lcodec l) @ ?new) = Some vs" for vs
  proof -
    from that obtain us where us: "incoming (receiver (lnet l)) (inp (lcodec l)) = Some us" "vs = us @ ?new"
      by (cases "receiver (lnet l)") auto
    have "responses E sm (set (wrote l)) False us" using assms(1) us(1) nc by (auto simp: link_inv_def)
    from responses_append [OF this r] us(2) show ?thesis by simp
  qed
  with assms(1) s(1) show ?thesis by (auto simp: link_inv_def arrive_def flushed_def)
qed

lemma link_inv_step:
  assumes "link_step F rdec E l l'" "headers_encode E" "link_inv rdec E sm l" "client_inv (lnet l')"
  shows "link_inv rdec E sm l'"
  using assms
proof (induction rule: link_step.induct)
  case (l_local l n)
  then show ?case by (auto intro: link_inv_local)
next
  case (l_write n l i x q c w)
  show ?case unfolding l_write(1,3) by (rule link_inv_write) (use l_write in simp_all)
next
  case (l_header n l h c call cl)
  show ?case using link_inv_header [OF l_header.prems(2), of h c call cl] l_header by simp
next
  case (l_body n l h call r c)
  show ?case using link_inv_body [OF l_body.prems(2), of h call r c F] l_body by simp
next
  case (l_serve l s)
  then show ?case by (intro link_inv_serve) auto
next
  case (l_break l)
  then show ?case by (simp add: link_inv_def)
qed

lemma link_inv_start:
  assumes "link_start E sm l"
  shows "link_inv rdec E sm l"
proof -
  from assms obtain x err err' where l: "l = \<lparr>lnet = \<lparr>client = newClientCodec x, sending = None, receiver = RRead\<rparr>,
      lcodec = NewGobCodec [] err, lconn = serveCodec sm (NewGobCodec [] err'), up = True, wrote = []\<rparr>"
    unfolding link_start_def by (metis ServeConn_accepts_client)
  have "client_start (lnet l)" by (auto simp: l client_start_def)
  then have "client_inv (lnet l)" using cl.Inv_init [of "lnet l"] by (simp add: l newClientCodec_def)
  moreover have "method_for sm name mt" if "findService sm name = Inr (svc, mt)" for name svc mt
    using that by (auto simp: method_for_def)
  ultimately show ?thesis
    by (auto simp: l link_inv_def sender_good_def wrote_ok_def server_good_def serveCodec_def NewGobCodec_def flushed_def
        responses_def calls_ok_def newClientCodec_def aligned_def msgs_def intro: exI [of _ "[]"])
qed

lemma ncalls_link_step: "link_step F rdec E l l' \<Longrightarrow> ncalls (client (lnet l)) \<le> ncalls (client (lnet l'))"
  using link_client [of F rdec E l l'] ncalls_step [of F "lnet l" "lnet l'"] by auto

interpretation lk: inductive_invariant "link_start E sm" "link_step F rdec E"
  "\<lambda>l. headers_encode E \<and> ncalls (client (lnet l)) < 2 ^ 64 - 1 \<longrightarrow> link_inv rdec E sm l" for E sm F rdec
proof (unfold_locales, goal_cases)
  case (1 l)
  then show ?case by (simp add: link_inv_start)
next
  case (2 l l')
  show ?case
  proof (intro impI, elim conjE)
    assume e: "headers_encode E" "ncalls (client (lnet l')) < 2 ^ 64 - 1"
    with 2 ncalls_link_step [OF 2(2)] have inv: "link_inv rdec E sm l" by auto
    then have "client_inv (lnet l)" by (simp add: link_inv_def)
    with link_client [OF 2(2)] cl.Inv_step [of "lnet l" F "lnet l'"] e(2) have "client_inv (lnet l')" by auto
    from link_inv_step [OF 2(2) e(1) inv this] show "link_inv rdec E sm l'" .
  qed
qed

section \<open>A run\<close>

text \<open>The client calls \<open>Foo.Sum\<close> once, on a server that \<open>startServer\<close> has set up, and gets the reply.\<close>

definition foo_rdec :: "nat \<Rightarrow> goval \<Rightarrow> goval option" where
  "foo_rdec i = foo_decode int_type"

definition foo_link :: "goval link" where
  "foo_link = \<lparr>lnet = \<lparr>client = newClientCodec (make_call '''' VEmpty False), sending = None, receiver = RRead\<rparr>,
     lcodec = NewGobCodec [] EOF, lconn = serveCodec foo_table (NewGobCodec [] EOF), up = True, wrote = []\<rparr>"

lemma foo_link_start: "link_start foo_env foo_table foo_link"
proof -
  have 1: "parseOption [] = Inr DefaultOption" by (simp add: parseOption_def)
  have 2: "NewClient (make_call '''' VEmpty False) (Some None) DefaultOption = Ret (Inr (newClientCodec (make_call '''' VEmpty False)))"
    by (simp add: NewClient_def NewCodecFuncMap_def DefaultOption_def)
  have "e_timeout foo_env = HandleTimeout DefaultOption" by (simp add: foo_env_def DefaultOption_def)
  with 1 2 ServeConn_accepts_client [OF 1 2, of foo_table "[]" EOF] show ?thesis
    unfolding link_start_def foo_link_def by metis
qed

lemma foo_sent:
  "\<exists>l. (link_step F foo_rdec foo_env)\<^sup>*\<^sup>* foo_link l \<and> ncalls (client (lnet l)) = 1 \<and> pending (client (lnet l)) = [(1, 0)] \<and>
     receiver (lnet l) = RRead \<and> up l \<and> lcodec l = (NewGobCodec [] EOF)\<lparr>out := [WHeader sum_header, WBody (VArgs 3 4)]\<rparr> \<and>
     lconn l = serveCodec foo_table (NewGobCodec [WHeader sum_header, WBody (VArgs 3 4)] EOF) \<and>
     calls (client (lnet l)) 0 = (make_call ''Foo.Sum'' (VArgs 3 4) False)\<lparr>c_Seq := 1\<rparr>"
proof -
  let ?call = "make_call ''Foo.Sum'' (VArgs 3 4) False"
  define c1 where "c1 = snd (send_begin (add_call_to (client (lnet foo_link)) ?call) 0)"
  have 1: "send_begin (add_call_to (client (lnet foo_link)) ?call) 0 = (Some 1, c1)"
    by (simp add: c1_def send_begin_def registerCall_def foo_link_def newClientCodec_def add_call_to_def)
  have c1: "ncalls c1 = 1" "pending c1 = [(1, 0)]" "header c1 = sum_header" "calls c1 0 = ?call\<lparr>c_Seq := 1, pc := Writing 1\<rparr>"
    by (simp_all add: c1_def send_begin_def registerCall_def foo_link_def newClientCodec_def add_call_to_def
        set_pc_def upd_call_def make_call_def sum_header_def)
  define n1 where "n1 = (lnet foo_link)\<lparr>client := c1, sending := map_option (\<lambda>_. 0) (Some (1 :: u64))\<rparr>"
  define l1 where "l1 = foo_link\<lparr>lnet := n1\<rparr>"
  have "client_step F (lnet foo_link) n1"
    unfolding n1_def by (rule go [OF _ _ 1]) (simp_all add: foo_link_def newClientCodec_def)
  then have "link_step F foo_rdec foo_env foo_link l1"
    unfolding l1_def by (rule l_local) (simp add: off_wire_def foo_link_def n1_def)
  moreover have w: "gob_Write (e_encH foo_env) (e_encB foo_env) (lcodec l1) (header (client (lnet l1)))
      (c_Args (calls (client (lnet l1)) 0)) = ((NewGobCodec [] EOF)\<lparr>out := [WHeader sum_header, WBody (VArgs 3 4)]\<rparr>, Ret None)"
    by (simp add: l1_def n1_def c1 foo_link_def foo_env_def gob_Write_def NewGobCodec_def Flush_def make_call_def)
  have p: "sending (lnet l1) = Some 0" "pc (calls (client (lnet l1)) 0) = Writing 1"
    by (simp_all add: l1_def n1_def c1)
  from l_write [OF refl p(1) refl p(2) w, of F foo_rdec] obtain l2 where "link_step F foo_rdec foo_env l1 l2"
      and l2: "lnet l2 = (lnet l1)\<lparr>client := set_pc 0 Sent (client (lnet l1)), sending := None\<rparr>"
        "lcodec l2 = (NewGobCodec [] EOF)\<lparr>out := [WHeader sum_header, WBody (VArgs 3 4)]\<rparr>" "up l2"
        "lconn l2 = (lconn l1)\<lparr>cc := arrive [WHeader sum_header, WBody (VArgs 3 4)] (cc (lconn l1))\<rparr>"
    by (force simp: send_end_def l1_def foo_link_def flushed_by_def NewGobCodec_def)
  ultimately have "(link_step F foo_rdec foo_env)\<^sup>*\<^sup>* foo_link l2" by auto
  moreover have "lconn l2 = serveCodec foo_table (NewGobCodec [WHeader sum_header, WBody (VArgs 3 4)] EOF)"
    by (simp add: l2 l1_def foo_link_def serveCodec_def arrive_def NewGobCodec_def)
  moreover have "calls (client (lnet l2)) 0 = ?call\<lparr>c_Seq := 1\<rparr>" by (simp add: l2 l1_def n1_def c1 make_call_def)
  ultimately show ?thesis using l2 by (intro exI [of _ l2]) (simp add: l1_def n1_def c1 foo_link_def)
qed

text \<open>A run of the server as a run of the composition.\<close>

lemma serve_step_out: "serve_step E s t \<Longrightarrow> \<exists>ws. out (cc t) = out (cc s) @ ws"
proof -
  have s: "\<exists>ws. out (cc (sendResponse E s h x)) = out (cc s) @ ws" for s h x
    by (auto simp: sendResponse_def gob_Write_def Flush_def gob_Close_def Let_def split: prod.splits exec.splits option.splits)
  assume "serve_step E s t"
  then show ?thesis
    by (induction rule: serve_step.induct) (auto dest: readRequest_frame simp: gob_Close_def s)
qed

lemma link_serve_run:
  assumes "(\<lambda>s t. serve_step E s t \<and> \<not> sees_end s t)\<^sup>*\<^sup>* (lconn l) t" "up l"
  shows "(link_step F rdec E)\<^sup>*\<^sup>* l (l\<lparr>lconn := t, lcodec := arrive (flushed_by (cc (lconn l)) (cc t)) (lcodec l)\<rparr>) \<and>
    (\<exists>ws. out (cc t) = out (cc (lconn l)) @ ws)"
  using assms(1)
proof (induction rule: rtranclp_induct)
  case base
  have "l\<lparr>lconn := lconn l, lcodec := arrive (flushed_by (cc (lconn l)) (cc (lconn l))) (lcodec l)\<rparr> = l"
    by (simp add: flushed_by_def arrive_def)
  then show ?case by simp
next
  case (step s t)
  let ?l = "l\<lparr>lconn := s, lcodec := arrive (flushed_by (cc (lconn l)) (cc s)) (lcodec l)\<rparr>"
  from step.IH obtain ws where ws: "out (cc s) = out (cc (lconn l)) @ ws" by blast
  from step.hyps serve_step_out obtain vs where vs: "out (cc t) = out (cc s) @ vs" by blast
  have "link_step F rdec E ?l (?l\<lparr>lconn := t, lcodec := arrive (if up ?l then flushed_by (cc (lconn ?l)) (cc t) else []) (lcodec ?l)\<rparr>)"
    by (rule l_serve) (use step.hyps in auto)
  moreover have "arrive (if up ?l then flushed_by (cc (lconn ?l)) (cc t) else []) (lcodec ?l) =
      arrive (flushed_by (cc (lconn l)) (cc t)) (lcodec l)"
    using assms(2) ws vs by (simp add: arrive_def flushed_by_def)
  ultimately show ?case using step.IH ws vs by (auto intro: rtranclp.rtrancl_into_rtrancl)
qed

text \<open>The server's part: from the request in its input to the reply in its output.\<close>

lemma foo_served_run:
  "\<exists>t. (\<lambda>s t. serve_step foo_env s t \<and> \<not> sees_end s t)\<^sup>*\<^sup>* (serveCodec foo_table (NewGobCodec [WHeader sum_header, WBody (VArgs 3 4)] EOF)) t \<and>
     out (cc t) = [WHeader sum_header, WBody (VInt 7)]"
proof -
  let ?E = foo_env
  define s0 where "s0 = serveCodec foo_table (NewGobCodec [WHeader sum_header, WBody (VArgs 3 4)] EOF)"
  have r: "readRequest (e_decode ?E) (smap s0) (cc s0) = Ret (ReadOk foo_request, (cc s0)\<lparr>inp := []\<rparr>)"
    using foo_read by (simp add: s0_def serveCodec_def) (simp add: NewGobCodec_def)
  define s1 where "s1 = s0\<lparr>cc := (cc s0)\<lparr>inp := []\<rparr>, hs := hs s0 @ [foo_handler SNew MWait], got := got s0 @ [Seq (r_h foo_request)]\<rparr>"
  define s2 where "s2 = (set_handler 0 (foo_handler SRun MWait) s1)\<lparr>smap := count_call (smap s1) foo_request\<rparr>"
  define s3 where "s3 = set_handler 0 (foo_handler (SCalled None (VInt 7)) MWait) s2"
  define s4 where "s4 = set_handler 0 (foo_handler (SSend None (VInt 7)) MSent) s3"
  define s5 where "s5 = set_handler 0 (foo_handler SSent MSent) (sendResponse ?E s4 (with_error sum_header None) (VInt 7))"
  note h = foo_handler_def
  have 0: "\<not> crashed s0" "reader s0 = Reading" "hs s0 = []" "out (cc s0) = []" "buf (cc s0) = []"
    by (simp_all add: s0_def serveCodec_def NewGobCodec_def)
  have hs: "hs s1 = [foo_handler SNew MWait]" "hs s2 = [foo_handler SRun MWait]"
      "hs s3 = [foo_handler (SCalled None (VInt 7)) MWait]" "hs s4 = [foo_handler (SSend None (VInt 7)) MSent]"
    using 0 by (simp_all add: s1_def s2_def s3_def s4_def)
  have "serve_step ?E s0 s1" unfolding s1_def foo_handler_def by (rule read_ok [OF 0(1,2) r])
  moreover have "serve_step ?E s1 s2"
    using call_start [of s1 0 "foo_handler SNew MWait" ?E] 0 hs by (simp add: s2_def s1_def h)
  moreover have "e_call ?E foo_request = Ret (None, VInt 7)"
    by (simp add: foo_env_def foo_call_def foo_request_def method_of_def foo_method_def Foo_Sum_def)
  then have "serve_step ?E s2 s3"
    using call_return [of s2 0 "foo_handler SRun MWait" ?E None "VInt 7"] 0 hs by (simp add: s3_def s2_def s1_def h)
  moreover have "serve_step ?E s3 s4"
    using called [of s3 0 "foo_handler (SCalled None (VInt 7)) MWait" None "VInt 7" ?E] 0 hs
    by (simp add: s4_def s3_def s2_def s1_def h)
  moreover have "serve_step ?E s4 s5"
    using send [of s4 0 "foo_handler (SSend None (VInt 7)) MSent" None "VInt 7" ?E] 0 hs
    by (simp add: s5_def s4_def s3_def s2_def s1_def h foo_request_def)
  moreover have "out (cc s5) = [WHeader sum_header, WBody (VInt 7)]"
    using 0 by (simp add: s5_def s4_def s3_def s2_def s1_def sendResponse_def gob_Write_def foo_env_def Flush_def with_error_def)
  moreover have "reader s1 = Reading" "reader s2 = Reading" "reader s3 = Reading" "reader s4 = Reading" "reader s5 = Reading"
    using 0 by (simp_all add: s5_def s4_def s3_def s2_def s1_def)
  ultimately have "(\<lambda>s t. serve_step ?E s t \<and> \<not> sees_end s t)\<^sup>*\<^sup>* s0 s5 \<and> out (cc s5) = [WHeader sum_header, WBody (VInt 7)]"
    by (auto simp: sees_end_def intro!: converse_rtranclp_into_rtranclp [of _ s0 s1] converse_rtranclp_into_rtranclp [of _ s1 s2]
        converse_rtranclp_into_rtranclp [of _ s2 s3] converse_rtranclp_into_rtranclp [of _ s3 s4])
  then show ?thesis unfolding s0_def by blast
qed

lemma foo_link_run:
  "\<exists>l. reach (link_start foo_env foo_table) (link_step F foo_rdec foo_env) l \<and> ncalls (client (lnet l)) = 1 \<and>
     c_ServiceMethod (calls (client (lnet l)) 0) = ''Foo.Sum'' \<and> c_Args (calls (client (lnet l)) 0) = VArgs 3 4 \<and>
     dones (calls (client (lnet l)) 0) = 1 \<and> c_Error (calls (client (lnet l)) 0) = None"
proof -
  obtain l where l: "(link_step F foo_rdec foo_env)\<^sup>*\<^sup>* foo_link l" "ncalls (client (lnet l)) = 1"
      "pending (client (lnet l)) = [(1, 0)]" "receiver (lnet l) = RRead" "up l"
      "lcodec l = (NewGobCodec [] EOF)\<lparr>out := [WHeader sum_header, WBody (VArgs 3 4)]\<rparr>"
      "lconn l = serveCodec foo_table (NewGobCodec [WHeader sum_header, WBody (VArgs 3 4)] EOF)"
      "calls (client (lnet l)) 0 = (make_call ''Foo.Sum'' (VArgs 3 4) False)\<lparr>c_Seq := 1\<rparr>"
    using foo_sent by blast
  obtain t where t: "(\<lambda>s t. serve_step foo_env s t \<and> \<not> sees_end s t)\<^sup>*\<^sup>* (lconn l) t"
      "out (cc t) = [WHeader sum_header, WBody (VInt 7)]"
    using foo_served_run unfolding l(7) by blast
  define l1 where "l1 = l\<lparr>lconn := t, lcodec := arrive (flushed_by (cc (lconn l)) (cc t)) (lcodec l)\<rparr>"
  have 1: "(link_step F foo_rdec foo_env)\<^sup>*\<^sup>* l l1" unfolding l1_def using link_serve_run [OF t(1) l(5)] by blast
  have i1: "inp (lcodec l1) = [WHeader sum_header, WBody (VInt 7)]"
    using l t by (simp add: l1_def arrive_def flushed_by_def serveCodec_def NewGobCodec_def)
  define l2 where "l2 = l1\<lparr>lnet := (lnet l1)\<lparr>client := (client (lnet l1))\<lparr>pending := []\<rparr>, receiver := RGot sum_header (Some 0)\<rparr>,
    lcodec := (lcodec l1)\<lparr>inp := [WBody (VInt 7)]\<rparr>\<rparr>"
  have 2: "link_step F foo_rdec foo_env l1 l2"
    unfolding l2_def by (rule l_header) (use l i1 in \<open>simp_all add: l1_def ReadHeader_def removeCall_def sum_header_def\<close>)
  define l3 where "l3 = l2\<lparr>lnet := (lnet l2)\<lparr>client := receive_body F sum_header (Some 0) (Inr (Some (VInt 7))) (client (lnet l2)),
    receiver := (case Inr (Some (VInt 7)) of Inl e \<Rightarrow> RTerm e | Inr y \<Rightarrow> RRead)\<rparr>, lcodec := (lcodec l2)\<lparr>inp := []\<rparr>\<rparr>"
  have 3: "link_step F foo_rdec foo_env l2 l3"
    unfolding l3_def
    by (rule l_body) (simp_all add: l2_def ReadBody_def body_dest_def foo_rdec_def foo_decode_def sum_header_def)
  have "reach (link_start foo_env foo_table) (link_step F foo_rdec foo_env) foo_link"
    by (rule reach_init) (rule foo_link_start)
  with l(1) 1 2 3 have "reach (link_start foo_env foo_table) (link_step F foo_rdec foo_env) l3"
    by (metis reach_rtranclp reach_step)
  then show ?thesis
    using l by (intro exI [of _ l3])
      (simp add: l3_def l2_def l1_def receive_body_def deliver_def call_done_def make_call_def sum_header_def)
qed

section \<open>Properties\<close>

text \<open>
  C2. A remote call computes what the method computes: whatever the two sides' goroutines and the
  connection do, when a call of a client (with fewer than \<open>2^64 - 1\<close> calls) is complete and has no
  error, the server found the method under the name the caller gave, ran it on the caller's
  arguments decoded into the method's argument type, and the caller's reply is the value the
  method returned; the method's own error was nil or had an empty text. Headers must be
  encodable by gob, as every header of the program is.
\<close>

theorem rpc_call_end_to_end:
  assumes "headers_encode E" "reach (link_start E sm) (link_step F rdec E) l"
    and "ncalls (client (lnet l)) < 2 ^ 64 - 1" "i < ncalls (client (lnet l))" "x = calls (client (lnet l)) i"
    and "0 < dones x" "c_Error x = None"
  shows "\<exists>svc mt q e v y. findService sm (c_ServiceMethod x) = Inr (svc, mt) \<and> mt_method (r_mtype q) = mt_method mt \<and>
    e_decode E (ArgType mt) (c_Args x) = Some (r_argv q) \<and> e_call E q = Ret (e, v) \<and> silent e \<and>
    rdec i v = Some y \<and> c_Reply x = Some y"
proof -
  have "link_inv rdec E sm l" using lk.reach_Inv [OF assms(2)] assms(1,3) by simp
  then have "call_ok rdec E sm i x" using assms(4-7) by (simp add: link_inv_def calls_ok_def)
  then show ?thesis by (fastforce simp: call_ok_def request_for_def method_for_def call_header_def)
qed

theorem rpc_call_end_to_end_witness:
  "\<exists>l. reach (link_start foo_env foo_table) (link_step Errorf foo_rdec foo_env) l \<and> ncalls (client (lnet l)) = 1 \<and>
     (\<exists>q v. r_argv q = VArgs 3 4 \<and> foo_call q = Ret (None, v) \<and> c_Reply (calls (client (lnet l)) 0) = Some v)"
proof -
  obtain l where l: "reach (link_start foo_env foo_table) (link_step Errorf foo_rdec foo_env) l" "ncalls (client (lnet l)) = 1"
      "c_ServiceMethod (calls (client (lnet l)) 0) = ''Foo.Sum''" "c_Args (calls (client (lnet l)) 0) = VArgs 3 4"
      "dones (calls (client (lnet l)) 0) = 1" "c_Error (calls (client (lnet l)) 0) = None"
    using foo_link_run by blast
  have b: "ncalls (client (lnet l)) < 2 ^ 64 - 1" "0 < ncalls (client (lnet l))" "0 < dones (calls (client (lnet l)) 0)"
    using l by simp_all
  obtain mt :: methodType and q e v y where
    q: "e_decode foo_env (ArgType mt) (c_Args (calls (client (lnet l)) 0)) = Some (r_argv q)" "e_call foo_env q = Ret (e, v)"
      "foo_rdec 0 v = Some y" "c_Reply (calls (client (lnet l)) 0) = Some y"
    using rpc_call_end_to_end [OF foo_env_headers l(1) b(1,2) refl b(3) l(6)] by blast
  have "r_argv q = VArgs 3 4" using q(1) l(4) by (simp add: foo_env_def foo_decode_def split: if_splits)
  moreover have "e = None" using q(2) calculation
    by (auto simp: foo_env_def foo_call_def Foo_Sum_def Foo_Sleep_def split: if_splits)
  moreover have "y = v" using q(3) by (auto simp: foo_rdec_def foo_decode_def split: goval.splits if_splits)
  ultimately show ?thesis using l(1,2) q(2,4) by (auto simp: foo_env_def)
qed

text \<open>
  \<open>Foo.Sum\<close> adds: on a server to which \<open>&foo\<close> has been registered, every completed call of
  \<open>Foo.Sum\<close> without an error has the sum of its two arguments as its reply, with the wrap-around
  of 64-bit integers.
\<close>

lemma foo_Sum_end_to_end:
  assumes "Register Map.empty (Ptr Foo_type) foo_methods = Ret (None, sm)"
    and "reach (link_start foo_env sm) (link_step F foo_rdec foo_env) l"
    and "ncalls (client (lnet l)) < 2 ^ 64 - 1" "i < ncalls (client (lnet l))" "x = calls (client (lnet l)) i"
    and "c_ServiceMethod x = ''Foo.Sum''" "c_Args x = VArgs a b" "0 < dones x" "c_Error x = None"
  shows "c_Reply x = Some (VInt (a + b))"
proof -
  have sm: "sm = foo_table" using assms(1) by (simp add: Register_foo)
  have "link_inv foo_rdec foo_env foo_table l"
    using lk.reach_Inv [OF assms(2)] assms(3) by (simp add: sm)
  then have "call_ok foo_rdec foo_env foo_table i x" using assms(4,5,8,9) by (simp add: link_inv_def calls_ok_def)
  then obtain q e v y where q: "method_for foo_table ''Foo.Sum'' (r_mtype q)" "foo_decode (ArgType (r_mtype q)) (VArgs a b) = Some (r_argv q)"
      "foo_call q = Ret (e, v)" "foo_rdec i v = Some y" "c_Reply x = Some y"
    using assms(6,7) by (auto simp: call_ok_def request_for_def call_header_def foo_env_def)
  have "r_argv q = VArgs a b" using q(2) by (simp add: foo_decode_def split: if_splits)
  moreover have "m_Name (mt_method (r_mtype q)) = ''Sum''"
    using q(1) by (auto simp: method_for_def findService_foo method_of_def foo_method_def)
  ultimately have "v = VInt (a + b)" using q(3) by (simp add: foo_call_def Foo_Sum_def)
  with q(4,5) show ?thesis by (simp add: foo_rdec_def foo_decode_def)
qed

end
