(* ===== verification/RpcMain.thy ===== *)
theory RpcMain
  imports XClient RpcFront RpcLink
begin

text \<open>
  \<^verbatim>\<open>geerpc/main/main.go\<close>: the example program, with a registry, two servers that register
  \<open>Foo\<close> and announce themselves, and clients that call and broadcast through the registry. The
  connections (\<open>XDial\<close>), the calls on them and the results of a broadcast are parameters, as they
  are for the \<open>XClient\<close>; the goroutines of \<open>call\<close> and \<open>broadcast\<close> run in any order.
\<close>

section \<open>Registry and servers\<close>

definition DefaultGeeRegister :: GeeRegistry where
  "DefaultGeeRegister = registry_New defaultTimeout"

definition registry_HandleHTTP :: "(string \<Rightarrow> GeeRegistry option) \<Rightarrow> GeeRegistry \<Rightarrow> string \<Rightarrow> (string \<Rightarrow> GeeRegistry option) exec" where
  "registry_HandleHTTP mux r registryPath = http_Handle mux registryPath r"

definition package_registry_HandleHTTP :: "(string \<Rightarrow> GeeRegistry option) \<Rightarrow> (string \<Rightarrow> GeeRegistry option) exec" where
  "package_registry_HandleHTTP mux = registry_HandleHTTP mux DefaultGeeRegister defaultPath"

definition startRegistry :: "(string \<Rightarrow> GeeRegistry option) \<Rightarrow> (string \<Rightarrow> GeeRegistry option) exec" where
  "startRegistry mux = package_registry_HandleHTTP mux"

text \<open>
  \<open>startServer\<close> on a listener with the address \<open>addr\<close>: the announcements it sends from the instant \<open>t\<close> on,
  for the given results of sending them, and the connections it serves.
\<close>

definition startServer ::
  "string \<Rightarrow> int \<Rightarrow> bool list \<Rightarrow> (error + goval dialed) list \<Rightarrow>
   ((int \<times> registry_request) list \<times> goval conn list) exec" where
  "startServer addr t beats accepts =
     bind_exec (Register Map.empty (Ptr Foo_type) foo_methods) (\<lambda>(err, server).
       Ret (map (\<lambda>i. (i, sendHeartbeat (''tcp@'' @ addr))) (Heartbeat t 0 beats), rpc_Accept server accepts))"

section \<open>Clients\<close>

definition decimal :: "i64 \<Rightarrow> string" where
  "decimal x = (if sint x < 0 then CHR ''-'' # Itoa (nat (- sint x)) else Itoa (nat (sint x)))"

text \<open>What a client depends on: the discovery, the connections, the calls and the broadcasts.\<close>

record 'd world =
  w_Get :: "'d \<Rightarrow> SelectMode \<Rightarrow> ((error + string) \<times> 'd) exec"
  w_GetAll :: "'d \<Rightarrow> ((error + string list) \<times> 'd) exec"
  w_XDial :: "string \<Rightarrow> Option \<Rightarrow> error + goval Client"
  w_Call :: "string \<Rightarrow> goval \<Rightarrow> goval Client \<Rightarrow> (error option \<times> goval) exec"
  w_results :: "string \<Rightarrow> goval \<Rightarrow> string list \<Rightarrow> (error option \<times> goval) list"

definition int_of :: "goval option \<Rightarrow> i64" where
  "int_of r = (case r of Some (VInt x) \<Rightarrow> x | _ \<Rightarrow> 0)"

text \<open>The error and the reply that \<open>foo\<close> has after its \<open>switch\<close>, and the line it prints.\<close>

definition foo_result ::
  "'d world \<Rightarrow> string \<Rightarrow> string \<Rightarrow> i64 \<times> i64 \<Rightarrow> 'd \<Rightarrow> goval XClient \<Rightarrow> ((error option \<times> i64) \<times> 'd \<times> goval XClient) exec" where
  "foo_result W typ serviceMethod args d xc =
     (let argv = VArgs (fst args) (snd args) in
      if typ = ''call'' then
        bind_exec (xc_Call (w_Get W) (w_XDial W) (w_Call W serviceMethod argv) d xc) (\<lambda>((e, r, a), d, xc).
          Ret ((e, int_of r), d, xc))
      else if typ = ''broadcast'' then
        bind_exec (Broadcast (w_GetAll W) (w_results W serviceMethod argv) True d) (\<lambda>((e, r), d).
          Ret ((e, int_of r), d, xc))
      else Ret ((None, 0), d, xc))"

definition foo_line :: "string \<Rightarrow> string \<Rightarrow> i64 \<times> i64 \<Rightarrow> error option \<times> i64 \<Rightarrow> string" where
  "foo_line typ serviceMethod args res =
     (case fst res of
        Some e \<Rightarrow> typ @ '' '' @ serviceMethod @ '' error: '' @ Error e
      | None \<Rightarrow> typ @ '' '' @ serviceMethod @ '' success: '' @ decimal (fst args) @ '' + '' @ decimal (snd args) @ '' = '' @
          decimal (snd res))"

definition main_foo ::
  "'d world \<Rightarrow> string \<Rightarrow> string \<Rightarrow> i64 \<times> i64 \<Rightarrow> 'd \<Rightarrow> goval XClient \<Rightarrow> (string \<times> 'd \<times> goval XClient) exec" where
  "main_foo W typ serviceMethod args d xc =
     bind_exec (foo_result W typ serviceMethod args d xc) (\<lambda>(res, d, xc). Ret (foo_line typ serviceMethod args res, d, xc))"

text \<open>The calls of \<open>foo\<close> by the goroutines, one after the other; \<open>Wait\<close> needs all of them.\<close>

fun run_foos ::
  "'d world \<Rightarrow> (string \<times> string \<times> i64 \<times> i64) list \<Rightarrow> 'd \<Rightarrow> goval XClient \<Rightarrow> (string list \<times> 'd \<times> goval XClient) exec" where
  "run_foos W [] d xc = Ret ([], d, xc)"
| "run_foos W ((typ, sm, args) # fs) d xc =
     bind_exec (main_foo W typ sm args d xc) (\<lambda>(l, d, xc).
       bind_exec (run_foos W fs d xc) (\<lambda>(ls, d, xc). Ret (l # ls, d, xc)))"

text \<open>\<open>order\<close> has the numbers 0 to 4 in the order in which the goroutines run.\<close>

definition main_call :: "'d world \<Rightarrow> i64 list \<Rightarrow> 'd \<Rightarrow> goval XClient \<Rightarrow> (string list \<times> 'd \<times> goval XClient) exec" where
  "main_call W order d xc =
     bind_exec (run_foos W (map (\<lambda>i. (''call'', ''Foo.Sum'', i, i * i)) order) d xc) (\<lambda>(ls, d, xc).
       Ret (ls, d, snd (xc_Close xc)))"

definition main_broadcast :: "'d world \<Rightarrow> i64 list \<Rightarrow> 'd \<Rightarrow> goval XClient \<Rightarrow> (string list \<times> 'd \<times> goval XClient) exec" where
  "main_broadcast W order d xc =
     bind_exec (run_foos W (concat (map (\<lambda>i. [(''broadcast'', ''Foo.Sum'', i, i * i), (''broadcast'', ''Foo.Sleep'', i, i * i)]) order)) d xc)
       (\<lambda>(ls, d, xc). Ret (ls, d, snd (xc_Close xc)))"

section \<open>The program\<close>

text \<open>
  The URLs of the registry's listener, and a request to one of them: the handlers are those of the
  default mux, a path without a handler is answered with status 404, and a URL of another host
  fails with the error that \<open>other\<close> gives.
\<close>

definition listener :: string where
  "listener = ''http://localhost:9999''"

definition registryAddr :: string where
  "registryAddr = ''http://localhost:9999/_geerpc_/registry''"

definition http_Do ::
  "(string \<Rightarrow> error) \<Rightarrow> (string \<Rightarrow> GeeRegistry option) \<Rightarrow> string \<Rightarrow> registry_request \<Rightarrow> int \<Rightarrow> (string \<times> int) list \<Rightarrow>
   (error + registry_response) \<times> (string \<Rightarrow> GeeRegistry option)" where
  "http_Do other mux url req now order =
     (if take (length listener) url \<noteq> listener then (Inl (other url), mux)
      else let path = drop (length listener) url in
        case mux path of
          None \<Rightarrow> (Inr \<lparr>status = 404, X_Geerpc_Servers = ''''\<rparr>, mux)
        | Some r \<Rightarrow> (case registry_ServeHTTP r req now order of (r', resp) \<Rightarrow> (Inr resp, mux(path \<mapsto> r'))))"

text \<open>
  The servers, in the order in which their first announcements arrive: \<open>Heartbeat\<close> sends the first
  one before \<open>wg.Done\<close>, so all of them have arrived when \<open>wg.Wait\<close> returns.
\<close>

fun start_servers ::
  "(string \<Rightarrow> error) \<Rightarrow> (string \<times> int) list \<Rightarrow> (string \<Rightarrow> GeeRegistry option) \<Rightarrow> (string \<Rightarrow> GeeRegistry option) exec" where
  "start_servers other [] mux = Ret mux"
| "start_servers other ((addr, t) # ss) mux =
     bind_exec (startServer addr t [True] []) (\<lambda>(beats, conns).
       start_servers other ss (fold (\<lambda>(i, req) mux. snd (http_Do other mux registryAddr req i [])) beats mux))"

text \<open>
  The discovery of a client, with the readings of the clock that are still to come. \<open>visit\<close> is the
  order in which the registry visits its map when a GET is served at an instant.
\<close>

definition header_of :: "(error + registry_response) \<times> (string \<Rightarrow> GeeRegistry option) \<Rightarrow> error + string" where
  "header_of p = (case fst p of Inl e \<Rightarrow> Inl e | Inr resp \<Rightarrow> Inr (X_Geerpc_Servers resp))"

definition registry_http ::
  "(string \<Rightarrow> error) \<Rightarrow> (string \<Rightarrow> GeeRegistry option) \<Rightarrow> (int \<Rightarrow> (string \<times> int) list) \<Rightarrow> int \<Rightarrow> string \<Rightarrow> error + string" where
  "registry_http other mux visit now url =
     header_of (http_Do other mux url \<lparr>Method = ''GET'', X_Geerpc_Server = ''''\<rparr> now (visit now))"

definition registry_world ::
  "(string \<Rightarrow> error) \<Rightarrow> (string \<Rightarrow> GeeRegistry option) \<Rightarrow> (int \<Rightarrow> (string \<times> int) list) \<Rightarrow>
   (string \<Rightarrow> Option \<Rightarrow> error + goval Client) \<Rightarrow> (string \<Rightarrow> goval \<Rightarrow> goval Client \<Rightarrow> (error option \<times> goval) exec) \<Rightarrow>
   (string \<Rightarrow> goval \<Rightarrow> string list \<Rightarrow> (error option \<times> goval) list) \<Rightarrow> (GeeRegistryDiscovery \<times> int stream) world" where
  "registry_world other mux visit XDial Call results =
     \<lparr>w_Get = \<lambda>(d, ts) m. bind_exec (gd_Get (registry_http other mux visit (shd ts)) d m (shd ts) (shd (stl ts)))
               (\<lambda>(x, d). Ret (x, d, stl (stl ts))),
      w_GetAll = \<lambda>(d, ts). bind_exec (gd_GetAll (registry_http other mux visit (shd ts)) d (shd ts) (shd (stl ts)))
               (\<lambda>(x, d). Ret (x, d, stl (stl ts))),
      w_XDial = XDial, w_Call = Call, w_results = results\<rparr>"

text \<open>
  \<open>call\<close> and \<open>broadcast\<close> each make a discovery, from the random numbers \<open>rs\<close> and \<open>rs'\<close>, and a client
  on a heap \<open>h\<close>; the option nil is passed on to \<open>XDial\<close>, which stands in \<open>op\<close> for its defaults.
\<close>

definition geerpc_main ::
  "(string \<Rightarrow> error) \<Rightarrow> (int \<Rightarrow> (string \<times> int) list) \<Rightarrow> (string \<Rightarrow> Option \<Rightarrow> error + goval Client) \<Rightarrow>
   (string \<Rightarrow> goval \<Rightarrow> goval Client \<Rightarrow> (error option \<times> goval) exec) \<Rightarrow>
   (string \<Rightarrow> goval \<Rightarrow> string list \<Rightarrow> (error option \<times> goval) list) \<Rightarrow>
   string \<times> int \<Rightarrow> string \<times> int \<Rightarrow> nat stream \<Rightarrow> nat stream \<Rightarrow> int stream \<Rightarrow> i64 list \<Rightarrow> i64 list \<Rightarrow> Option \<Rightarrow>
   (nat \<Rightarrow> goval Client) \<Rightarrow> string list exec" where
  "geerpc_main other visit XDial Call results server1 server2 rs rs' ts order order' op h =
     bind_exec (startRegistry Map.empty) (\<lambda>mux.
       bind_exec (start_servers other [server1, server2] mux) (\<lambda>mux.
         let W = registry_world other mux visit XDial Call results; xc = NewXClient RandomSelect op h in
         bind_exec (main_call W order (NewGeeRegistryDiscovery rs registryAddr 0, ts) xc) (\<lambda>(ls, (d, ts), _).
           bind_exec (main_broadcast W order' (NewGeeRegistryDiscovery rs' registryAddr 0, ts) xc) (\<lambda>(ls', _).
             Ret (ls @ ls')))))"

section \<open>Lemmas\<close>

text \<open>A server started by \<open>main\<close> serves the methods of \<open>Foo\<close>.\<close>

lemma startServer_serves:
  "startServer addr t beats accepts =
     Ret (map (\<lambda>i. (i, sendHeartbeat (''tcp@'' @ addr))) (Heartbeat t 0 beats), rpc_Accept foo_table accepts)"
  by (simp add: startServer_def Register_foo)

text \<open>
  \<open>call\<close> of the example never ends: \<open>client.Call\<close> returns only when its context does, the
  background context never ends, and so the first goroutine that reaches a server waits for ever.
\<close>

lemma main_call_never_ends:
  assumes "w_Get W d (mode xc) = Ret (Inr a, d')" "\<And>op. \<exists>c. w_XDial W a op = Inr c" "\<And>m v c. w_Call W m v c = Hang" "order \<noteq> []"
  shows "main_call W order d xc = Hang"
proof -
  have "xc_call (w_XDial W) (w_Call W m v) xc a = Hang" for m v
  proof (cases "fst (xc_dial (w_XDial W) xc a)")
    case (Inl e)
    then have "\<exists>op. w_XDial W a op = Inl e" by (auto simp: xc_dial_def Let_def split: option.splits sum.splits)
    with assms(2) show ?thesis by (metis sum.distinct(1))
  next
    case (Inr i)
    with assms(3) show ?thesis by (cases "xc_dial (w_XDial W) xc a") (simp add: xc_call_def)
  qed
  then have "main_foo W ''call'' m p d xc = Hang" for m p
    using assms(1) by (simp add: main_foo_def foo_result_def xc_Call_def)
  with assms(4) show ?thesis by (cases order) (auto simp: main_call_def)
qed

text \<open>\<open>broadcast\<close> of the example crashes: \<open>GetAll\<close> releases a lock it does not hold.\<close>

lemma main_broadcast_panics:
  assumes "w_GetAll W = (\<lambda>d. gd_GetAll http d now now')" "free d" "gd_Refresh http d now now' = Ret (None, d1)" "mu d1 = Unlocked" "order \<noteq> []"
  shows "main_broadcast W order d xc = Panic ''fatal error: sync: Unlock of unlocked RWMutex''"
proof -
  have "gd_GetAll http d now now' = Panic ''fatal error: sync: Unlock of unlocked RWMutex''"
    using assms(3,4) by (simp add: gd_GetAll_def GetAll_never_returns)
  then have "main_foo W ''broadcast'' m p d xc = Panic ''fatal error: sync: Unlock of unlocked RWMutex''" for m p
    using assms(1) by (simp add: main_foo_def foo_result_def Broadcast_def)
  with assms(5) show ?thesis by (cases order) (auto simp: main_broadcast_def)
qed

text \<open>What the program has set up before its clients start: the registry lists both servers.\<close>

definition announced :: "(string \<times> int) list \<Rightarrow> GeeRegistry" where
  "announced ss = fold (\<lambda>(a, t) r. putServer r (''tcp@'' @ a) t) ss DefaultGeeRegister"

lemma registryAddr_path [simp]:
  "take (length listener) registryAddr = listener" "drop (length listener) registryAddr = defaultPath"
  by (simp_all add: listener_def registryAddr_def defaultPath_def)

lemma start_servers_announce:
  "start_servers other ss (mux(defaultPath \<mapsto> r)) =
     Ret (mux(defaultPath \<mapsto> fold (\<lambda>(a, t) r. putServer r (''tcp@'' @ a) t) ss r))"
proof (induction ss arbitrary: r)
  case (Cons s ss)
  have "http_Do other (mux(defaultPath \<mapsto> r)) registryAddr (sendHeartbeat (''tcp@'' @ a)) t [] =
      (Inr \<lparr>status = 200, X_Geerpc_Servers = ''''\<rparr>, mux(defaultPath \<mapsto> putServer r (''tcp@'' @ a) t))" for a t
    by (simp add: http_Do_def registry_ServeHTTP_def sendHeartbeat_def)
  then have "start_servers other ((a, t) # ss) (mux(defaultPath \<mapsto> r)) =
      start_servers other ss (mux(defaultPath \<mapsto> putServer r (''tcp@'' @ a) t))" for a t
    by (simp add: startServer_serves Heartbeat_def del: fun_upd_apply append.simps)
  then show ?case unfolding Cons.IH by (cases s) (simp only: fold_Cons comp_def prod.case)
qed simp

lemma putServer_servers:
  "timeout (putServer r a t) = timeout r" "dom (servers (putServer r a t)) = insert a (dom (servers r))"
  "map_option start (servers (putServer r a t) x) = (if x = a then Some t else map_option start (servers r x))"
  by (auto simp: putServer_def split: option.splits)

lemma announced_servers:
  "timeout (announced ss) = defaultTimeout \<and> dom (servers (announced ss)) = (\<lambda>(a, t). ''tcp@'' @ a) ` set ss \<and>
   (\<forall>x i. map_option start (servers (announced ss) x) = Some i \<longrightarrow> (x, i) \<in> (\<lambda>(a, t). (''tcp@'' @ a, t)) ` set ss)"
proof (induction ss rule: rev_induct)
  case Nil
  then show ?case by (simp add: announced_def DefaultGeeRegister_def registry_New_def)
next
  case (snoc s ss)
  obtain a t where s: "s = (a, t)" by fastforce
  have "announced (ss @ [s]) = putServer (announced ss) (''tcp@'' @ a) t" by (simp add: announced_def s)
  with snoc show ?case by (auto simp: s putServer_servers simp del: append.simps map_option_eq_Some split: if_splits)
qed

lemma registry_world_Get:
  assumes "ss \<noteq> []" "\<forall>(a, t) \<in> set ss. clean (''tcp@'' @ a) \<and> shd ts < t + defaultTimeout"
    and "visits (visit (shd ts)) (announced ss)" "\<forall>(a, n) \<in> set (visit (shd ts)). n = shd ts"
    and "zeroTime + defaultUpdateTimeout \<le> shd ts" "m \<in> {RandomSelect, RoundRobinSelect}"
  shows "\<exists>a d'. w_Get (registry_world other [defaultPath \<mapsto> announced ss] visit XDial Call results)
      (NewGeeRegistryDiscovery rs registryAddr 0, ts) m = Ret (Inr (''tcp@'' @ a), d', stl (stl ts)) \<and> a \<in> fst ` set ss"
proof -
  let ?d = "NewGeeRegistryDiscovery rs registryAddr 0" and ?http = "registry_http other [defaultPath \<mapsto> announced ss] visit (shd ts)"
  obtain r' xs where al: "aliveServers (announced ss) (visit (shd ts)) = (r', xs)" by fastforce
  have live: "alive_at (announced ss) x n" if "(x, n) \<in> set (visit (shd ts))" for x n
  proof -
    have "x \<in> dom (servers (announced ss))" using that assms(3) by (force simp: visits_def)
    then obtain i where i: "servers (announced ss) x = Some i" by auto
    then have "(x, start i) \<in> (\<lambda>(a, t). (''tcp@'' @ a, t)) ` set ss" using announced_servers [of ss] by simp
    then have "shd ts < start i + defaultTimeout" using assms(2) by auto
    moreover have "n = shd ts" using assms(4) that by auto
    ultimately show ?thesis using announced_servers [of ss] i by (simp add: alive_at_def)
  qed
  have "set xs = fst ` set (visit (shd ts))"
    using aliveServers_result(1) [OF assms(3) al] live by (force simp: image_iff)
  then have xs: "set xs = (\<lambda>(a, t). ''tcp@'' @ a) ` set ss"
    using assms(3) announced_servers [of ss] by (simp add: visits_def)
  have d: "free ?d" "lastUpdate ?d + d_timeout ?d \<le> shd ts" "registry ?d = registryAddr"
    using assms(5) by (simp_all add: free_def NewGeeRegistryDiscovery_def NewMultiServerDiscovery_def Intn_def
        MultiServersDiscovery.defs GeeRegistryDiscovery.defs Let_def)
  have h: "?http (registry ?d) = Inr (X_Geerpc_Servers (snd (registry_ServeHTTP (announced ss)
      \<lparr>Method = ''GET'', X_Geerpc_Server = ''''\<rparr> (shd ts) (visit (shd ts)))))"
    by (simp add: registry_http_def header_of_def http_Do_def d(3) split: prod.splits)
  have "xs \<noteq> []" using xs assms(1) by auto
  have "\<forall>a \<in> set xs. clean a" using xs assms(2) by auto
  from gd_Refresh_reads [where http = ?http, OF d(1,2) al this h, of "shd (stl ts)"]
  have "gd_Refresh ?http ?d (shd ts) (shd (stl ts)) = Ret (None, ?d\<lparr>d_servers := xs, lastUpdate := shd (stl ts)\<rparr>)" .
  moreover obtain s d' where "msd_Get (?d\<lparr>d_servers := xs, lastUpdate := shd (stl ts)\<rparr>) m = Ret (Inr s, d')" "s \<in> set xs"
    using msd_Get_lists [of "?d\<lparr>d_servers := xs, lastUpdate := shd (stl ts)\<rparr>" m] d(1) \<open>xs \<noteq> []\<close> assms(6) by (auto simp: free_def)
  ultimately have "gd_Get ?http ?d m (shd ts) (shd (stl ts)) = Ret (Inr s, d')" by (simp add: gd_Get_def)
  moreover obtain a where "s = ''tcp@'' @ a" "a \<in> fst ` set ss" using \<open>s \<in> set xs\<close> unfolding xs by force
  ultimately show ?thesis by (intro exI [of _ a] exI [of _ d']) (simp add: registry_world_def)
qed

text \<open>
  The program as a whole: with two announced servers that accept connections, its clients find a
  server through the registry, and the program never ends, since \<open>Call\<close> does not return while its
  context is open.
\<close>

lemma geerpc_main_never_ends:
  assumes "\<forall>(a, t) \<in> {server1, server2}. clean (''tcp@'' @ a) \<and> shd ts < t + defaultTimeout"
    and "visits (visit (shd ts)) (announced [server1, server2])" "\<forall>(a, n) \<in> set (visit (shd ts)). n = shd ts"
    and "zeroTime + defaultUpdateTimeout \<le> shd ts"
    and "\<And>a op. \<exists>c. XDial a op = Inr c" "\<And>m v c. Call m v c = Hang" "order \<noteq> []"
  shows "geerpc_main other visit XDial Call results server1 server2 rs rs' ts order order' op h = Hang"
proof -
  let ?W = "registry_world other [defaultPath \<mapsto> announced [server1, server2]] visit XDial Call results"
    and ?xc = "NewXClient RandomSelect op h"
  have "mode ?xc \<in> {RandomSelect, RoundRobinSelect}" by (simp add: NewXClient_def)
  then obtain a d' where "w_Get ?W (NewGeeRegistryDiscovery rs registryAddr 0, ts) (mode ?xc) = Ret (Inr (''tcp@'' @ a), d', stl (stl ts))"
    using registry_world_Get [of "[server1, server2]" ts visit "mode ?xc" other XDial Call results rs] assms(1-4) by auto
  then have "main_call ?W order (NewGeeRegistryDiscovery rs registryAddr 0, ts) ?xc = Hang"
    by (rule main_call_never_ends) (use assms(5-7) in \<open>simp_all add: registry_world_def\<close>)
  moreover have "startRegistry Map.empty = Ret [defaultPath \<mapsto> DefaultGeeRegister]"
    by (simp add: startRegistry_def package_registry_HandleHTTP_def registry_HandleHTTP_def http_Handle_def defaultPath_def)
  ultimately show ?thesis
    using start_servers_announce [of other "[server1, server2]" Map.empty DefaultGeeRegister]
    by (simp add: geerpc_main_def announced_def Let_def)
qed

end
