(* ===== verification/RpcLive.thy ===== *)
theory RpcLive
  imports RpcLink
begin

text \<open>
  Calls come to their end: the composition of \<^verbatim>\<open>geerpc/client.go\<close> and \<^verbatim>\<open>geerpc/server.go\<close> of
  \<^const>\<open>link_step\<close> cannot run for ever without new calls, and it stops only when every call is
  complete. The invariant follows each sequence number on its way: written by the client, read by the
  server, answered, and read by the receiver of the client.
\<close>

section \<open>Steps that go on by themselves\<close>

text \<open>
  A read of the client fails by itself only when nothing is left to read and the connection is
  closed, on either side, or broken, or the process of the server has ended.
\<close>

definition read_ends :: "'b link \<Rightarrow> bool" where
  "read_ends l \<longleftrightarrow> inp (lcodec l) = [] \<and> (hung_up l \<or> reader (lconn l) = Closed \<or> crashed (lconn l))"

text \<open>
  The steps that need nobody's decision: no new call, no \<open>Close\<close> by the user, the connection
  does not break, and the receiver leaves its loop only for a value that does not decode or at
  the end of its input.
\<close>

definition live_step ::
  "(string \<Rightarrow> error) \<Rightarrow> (nat \<Rightarrow> 'b \<Rightarrow> 'b option) \<Rightarrow> 'b env \<Rightarrow> 'b link \<Rightarrow> 'b link \<Rightarrow> bool" where
  "live_step errorf rdec E l l' \<longleftrightarrow> link_step errorf rdec E l l' \<and> l' \<noteq> l \<and>
     ncalls (client (lnet l')) = ncalls (client (lnet l)) \<and> up l' = up l \<and>
     closing (client (lnet l')) = closing (client (lnet l)) \<and>
     (\<forall>e. receiver (lnet l') = RTerm e \<and> lcodec l' = lcodec l \<longrightarrow> receiver (lnet l) = RTerm e \<or> read_ends l)"

definition bodies_encode :: "'b env \<Rightarrow> bool" where
  "bodies_encode E \<longleftrightarrow> (\<forall>x. e_encB E x = None)"

section \<open>Sequence numbers on their way\<close>

definition hseqs :: "'b wire list \<Rightarrow> u64 set" where
  "hseqs ws = {Seq h |h. WHeader h \<in> set ws}"

lemma hseqs_simps [simp]:
  "hseqs [] = {}" "hseqs (WHeader h # ws) = insert (Seq h) (hseqs ws)" "hseqs (WBody x # ws) = hseqs ws"
  "hseqs (ws @ vs) = hseqs ws \<union> hseqs vs"
  by (auto simp: hseqs_def)

lemma hseqs_msgs: "hseqs (msgs ms) = (\<lambda>m. Seq (fst m)) ` set ms"
  by (induction ms) force+

definition wseqs :: "(Header \<times> 'b) list \<Rightarrow> u64 set" where
  "wseqs ws = (\<lambda>w. Seq (fst w)) ` set ws"

lemma wseqs_simps [simp]: "wseqs [] = {}" "wseqs (ws @ vs) = wseqs ws \<union> wseqs vs" "wseqs [(h, x)] = {Seq h}"
  by (auto simp: wseqs_def)

definition flow_inv :: "'b link \<Rightarrow> bool" where
  [invs]: "flow_inv l \<longleftrightarrow> serve_inv (lconn l) \<and>
     (\<forall>i. sending (lnet l) = Some i \<longrightarrow> (\<exists>q. pc (calls (client (lnet l)) i) = Writing q)) \<and>
     (\<forall>q i. (q, i) \<in> set (pending (client (lnet l))) \<longrightarrow> sending (lnet l) = Some i \<or> q \<in> wseqs (wrote l)) \<and>
     set (got (lconn l)) \<union> hseqs (out (cc (lconn l))) \<subseteq> wseqs (wrote l) \<and>
     (up l \<longrightarrow>
        (reader (lconn l) \<notin> {Draining, Closed} \<longrightarrow> wseqs (wrote l) \<subseteq> hseqs (inp (cc (lconn l))) \<union> set (got (lconn l))) \<and>
        hseqs (out (cc (lconn l))) \<inter> fst ` set (pending (client (lnet l))) \<subseteq> hseqs (inp (lcodec l)))"

lemma readRequest_seqs:
  assumes "aligned W (inp c)" "readRequest d sm c = Ret (ReadOk q, c')"
  shows "Seq (r_h q) \<in> (\<lambda>w. Seq (fst w)) ` W \<and> hseqs (inp c) = insert (Seq (r_h q)) (hseqs (inp c'))"
  using assms(1)
proof (cases rule: aligned_cases)
  case (3 h x r)
  then show ?thesis using assms(2)
    by (force simp: readRequest_def readRequestHeader_def ReadHeader_def ReadBody_def bind_exec_Ret_iff
        split: sum.splits option.splits)
qed (use assms(2) in \<open>auto simp: readRequest_def readRequestHeader_def ReadHeader_def\<close>)

lemma readRequest_err_seqs:
  assumes "aligned W (inp c)" "readRequest d sm c = Ret (ReadErr h e, c')"
  shows "Seq h \<in> (\<lambda>w. Seq (fst w)) ` W \<and> hseqs (inp c) = insert (Seq h) (hseqs (inp c'))"
  using assms(1)
proof (cases rule: aligned_cases)
  case (3 h x r)
  then show ?thesis using assms(2)
    by (force simp: readRequest_def readRequestHeader_def ReadHeader_def ReadBody_def bind_exec_Ret_iff
        split: sum.splits option.splits)
qed (use assms(2) in \<open>auto simp: readRequest_def readRequestHeader_def ReadHeader_def\<close>)

lemma sendResponse_seqs:
  assumes "flushed (cc s)"
  shows "hseqs (out (cc (sendResponse E s h x))) \<subseteq> insert (Seq h) (hseqs (out (cc s)))"
  using assms by (auto simp: sendResponse_def gob_Write_def flushed_def Flush_def gob_Close_def Let_def
      split: prod.splits exec.splits option.splits)

lemma handler_good_seq: "handler_good E sm W h \<Longrightarrow> Seq (r_h (h_req h)) \<in> (\<lambda>w. Seq (fst w)) ` W"
  by (force simp: handler_good_def request_for_def)

lemma replying_got:
  assumes "serve_inv s" "\<not> crashed s" "reader s = Replying h e"
  shows "Seq h \<in> set (got s)"
proof -
  from assms have "Seq h \<in># mset (got s)" by (auto simp: serve_inv_def answered_def simp del: set_mset_mset)
  then show ?thesis by simp
qed

text \<open>What a step of the server does to the sequence numbers it has read and answered.\<close>

lemma serve_flow:
  assumes "serve_step E s t" "server_good E sm W s" "serve_inv s" "set (got s) \<subseteq> (\<lambda>w. Seq (fst w)) ` W"
  shows "set (got t) \<subseteq> (\<lambda>w. Seq (fst w)) ` W \<and> hseqs (out (cc t)) \<subseteq> hseqs (out (cc s)) \<union> (\<lambda>w. Seq (fst w)) ` W \<and>
    (reader t \<notin> {Draining, Closed} \<longrightarrow> reader s \<notin> {Draining, Closed} \<and>
      hseqs (inp (cc s)) \<union> set (got s) \<subseteq> hseqs (inp (cc t)) \<union> set (got t))"
  using assms
proof (induction rule: serve_step.induct)
  case (read_ok s q c)
  have "aligned W (inp (cc s))" using server_goodD(4) [OF read_ok.prems(1)] read_ok(2) by simp
  from readRequest_seqs [OF this read_ok(3)] readRequest_frame [OF read_ok(3)] read_ok show ?case by auto
next
  case (read_err s h e c)
  have "aligned W (inp (cc s))" using server_goodD(4) [OF read_err.prems(1)] read_err(2) by simp
  from readRequest_err_seqs [OF this read_err(3)] readRequest_frame [OF read_err(3)] read_err show ?case by auto
next
  case (read_fail s e c)
  from readRequest_frame [OF read_fail(3)] read_fail show ?case by simp
next
  case (reply_err s h e)
  have "Seq h \<in> (\<lambda>w. Seq (fst w)) ` W" using replying_got [OF reply_err.prems(2) reply_err(1,2)] reply_err.prems(3) by blast
  with sendResponse_seqs [OF server_goodD(1) [OF reply_err.prems(1)], of E "h\<lparr>h_Error := Error e\<rparr>" "invalidRequest E"] reply_err
  show ?case by auto
next
  case (send s i h e r)
  have "Seq (r_h (h_req h)) \<in> (\<lambda>w. Seq (fst w)) ` W"
    using handler_good_seq server_goodD(2) [OF send.prems(1) send(2)] send(3) by blast
  with sendResponse_seqs [OF server_goodD(1) [OF send.prems(1)], of E "with_error (r_h (h_req h)) e" r] send
  show ?case by auto
next
  case (send_timeout s i h)
  have "Seq (r_h (h_req h)) \<in> (\<lambda>w. Seq (fst w)) ` W"
    using handler_good_seq server_goodD(2) [OF send_timeout.prems(1) send_timeout(2)] send_timeout(3) by blast
  with sendResponse_seqs [OF server_goodD(1) [OF send_timeout.prems(1)],
      of E "with_error (r_h (h_req h)) (Some (timeout_error E))" "invalidRequest E"] send_timeout
  show ?case by auto
qed (auto simp: gob_Close_def)

section \<open>The invariant in every state\<close>

text \<open>What a step of the client that is not on the wire does to the calls that are pending.\<close>

lemma in_set_update: "(q, i) \<in> set (AList.update k v ps) \<Longrightarrow> (q, i) \<in> set ps \<or> q = k \<and> i = v"
  by (induction ps) (auto split: if_splits)

lemma client_flow:
  assumes "client_step F s t" "off_wire s t" "client_inv s"
    and "\<forall>i. sending s = Some i \<longrightarrow> (\<exists>q. pc (calls (client s) i) = Writing q)"
  shows "(\<forall>i. sending t = Some i \<longrightarrow> (\<exists>q. pc (calls (client t) i) = Writing q)) \<and>
    (\<forall>q i. (q, i) \<in> set (pending (client t)) \<longrightarrow>
      (q, i) \<in> set (pending (client s)) \<and> (sending s = Some i \<longrightarrow> sending t = Some i) \<or>
      q = seq (client s) \<and> sending t = Some i)"
  using assms
proof (induction rule: client_step.induct)
  case (go s i sm args sy q c)
  then show ?case
    by (auto simp: send_begin_def registerCall_def add_call_to_def set_pc_def upd_call_def split: if_splits dest!: in_set_update)
next
  case (written s i q w)
  then show ?case by (simp add: off_wire_def)
next
  case (terminate s e)
  then have "seq_inv (client s)" by (simp add: client_inv_def)
  from terminateCalls_calls [OF this, of e] terminate show ?case by simp
qed (auto simp: removeCall_def receive_body_def client_Close_def set_pc_def off_wire_def AList.delete_eq split: option.splits sum.splits)

lemma wrote_not_next:
  assumes "link_inv rdec E sm l" "q \<in> wseqs (wrote l)"
  shows "q \<noteq> seq (client (lnet l))"
proof -
  from assms obtain i where "i < ncalls (client (lnet l))" "q = c_Seq (calls (client (lnet l)) i)"
    by (auto simp: link_inv_def wrote_ok_def wseqs_def call_header_def)
  moreover have "seq_inv (client (lnet l))" using assms(1) by (simp add: link_inv_def client_inv_def)
  ultimately show ?thesis by (auto simp: seq_inv_def)
qed

lemma flow_inv_local:
  assumes "flow_inv l" "link_inv rdec E sm l" "client_step F (lnet l) n" "off_wire (lnet l) n"
  shows "flow_inv (l\<lparr>lnet := n\<rparr>)"
proof -
  have "client_inv (lnet l)" using assms(2) by (simp add: link_inv_def)
  with client_flow [OF assms(3,4)] assms(1) have c: "\<forall>i. sending n = Some i \<longrightarrow> (\<exists>q. pc (calls (client n) i) = Writing q)"
      "\<And>q i. (q, i) \<in> set (pending (client n)) \<Longrightarrow>
        (q, i) \<in> set (pending (client (lnet l))) \<and> (sending (lnet l) = Some i \<longrightarrow> sending n = Some i) \<or>
        q = seq (client (lnet l)) \<and> sending n = Some i"
    by (simp_all add: flow_inv_def)
  have w: "hseqs (out (cc (lconn l))) \<subseteq> wseqs (wrote l)" using assms(1) by (simp add: flow_inv_def)
  have "hseqs (out (cc (lconn l))) \<inter> fst ` set (pending (client n)) \<subseteq>
      hseqs (out (cc (lconn l))) \<inter> fst ` set (pending (client (lnet l)))"
    using c(2) w wrote_not_next [OF assms(2)] by force
  moreover have "\<forall>q i. (q, i) \<in> set (pending (client n)) \<longrightarrow> sending n = Some i \<or> q \<in> wseqs (wrote l)"
    using c(2) assms(1) unfolding flow_inv_def by blast
  moreover note subset_trans [OF calculation(1), of "hseqs (inp (lcodec l))"]
  ultimately show ?thesis using assms(1) c(1) by (simp add: flow_inv_def)
qed

lemma flow_inv_write:
  assumes "flow_inv l" "link_inv rdec E sm l" "headers_encode E" "sending (lnet l) = Some i"
    and "gob_Write (e_encH E) (e_encB E) (lcodec l) (header (client (lnet l))) (c_Args (calls (client (lnet l)) i)) = (c, Ret w)"
  shows "flow_inv (l\<lparr>lnet := (lnet l)\<lparr>client := set_pc i Sent (send_end (client (lnet l)) q w), sending := None\<rparr>,
      lcodec := c,
      lconn := (lconn l)\<lparr>cc := arrive (if up l then flushed_by (lcodec l) c else []) (cc (lconn l))\<rparr>,
      wrote := wrote l @ (if w = None then [(header (client (lnet l)), c_Args (calls (client (lnet l)) i))] else [])\<rparr>)"
proof -
  have "flushed (lcodec l)" using assms(2) by (simp add: link_inv_def)
  note w = gob_Write_encodes [OF assms(3) this assms(5)]
  have h: "Seq (header (client (lnet l))) = c_Seq (calls (client (lnet l)) i)"
    using assms(2,4) by (simp add: link_inv_def sender_good_def call_header_def)
  have "seq_inv (client (lnet l))" using assms(2) by (simp add: link_inv_def client_inv_def)
  then have p: "r = c_Seq (calls (client (lnet l)) j)" if "(r, j) \<in> set (pending (client (lnet l)))" for r j
    using that by (simp add: seq_inv_def)
  have s: "serve_inv ((lconn l)\<lparr>cc := arrive ws (cc (lconn l))\<rparr>)" for ws
    using assms(1) by (simp add: flow_inv_def serve_inv_def answered_def arrive_def flushed_def)
  have "r \<in> insert (Seq (header (client (lnet l)))) (wseqs (wrote l))" if "(r, j) \<in> set (pending (client (lnet l)))" for r j
    using that p [OF that] assms(1,4) h unfolding flow_inv_def by (metis insertCI option.inject)
  with s assms(1) w show ?thesis
    unfolding flow_inv_def by (simp add: send_end_def flushed_by_def arrive_def) blast
qed

lemma fst_set_delete: "fst ` set (AList.delete q ps) = fst ` set ps - {q}"
  by (auto simp: AList.delete_eq image_iff)

lemma flow_inv_header:
  assumes "flow_inv l" "ReadHeader (lcodec l) = (Inr h, c)" "removeCall (client (lnet l)) (Seq h) = (call, cl)"
  shows "flow_inv (l\<lparr>lnet := (lnet l)\<lparr>client := cl, receiver := RGot h call\<rparr>, lcodec := c\<rparr>)"
proof -
  have "inp (lcodec l) = WHeader h # inp c" using assms(2) by (auto simp: ReadHeader_def split: list.splits wire.splits)
  moreover have "cl = (client (lnet l))\<lparr>pending := AList.delete (Seq h) (pending (client (lnet l)))\<rparr>"
    using assms(3) by (simp add: removeCall_def)
  moreover have "set (AList.delete (Seq h) (pending (client (lnet l)))) \<subseteq> set (pending (client (lnet l)))"
    by (auto simp: AList.delete_eq)
  ultimately show ?thesis using assms(1) unfolding flow_inv_def by (simp add: fst_set_delete) blast
qed

lemma flow_inv_body:
  assumes "flow_inv l" "link_inv rdec E sm l" "receiver (lnet l) = RGot h call" "inp (lcodec l) \<noteq> []"
    and "ReadBody (body_dest rdec h call) (lcodec l) = (r, c)"
  shows "flow_inv (l\<lparr>lnet := (lnet l)\<lparr>client := receive_body F h call r (client (lnet l)), receiver := R\<rparr>, lcodec := c\<rparr>)"
proof -
  from assms(4) obtain b ws where ws: "inp (lcodec l) = b # ws" by (cases "inp (lcodec l)") auto
  have "responses E sm (set (wrote l)) (crashed (lconn l)) (WHeader h # b # ws)" using assms(2,3) ws by (simp add: link_inv_def)
  from responses_message [OF this] obtain x where "b = WBody x" by blast
  then have "hseqs (inp c) = hseqs (inp (lcodec l))" using assms(5) ws by (auto simp: ReadBody_def split: option.splits)
  moreover have "pending (receive_body F h call r (client (lnet l))) = pending (client (lnet l))"
      "pc (calls (receive_body F h call r (client (lnet l))) i) = pc (calls (client (lnet l)) i)" for i
    by (auto simp: receive_body_def split: option.split)
  ultimately show ?thesis using assms(1) unfolding flow_inv_def by simp
qed

lemma flow_inv_serve:
  assumes "flow_inv l" "link_inv rdec E sm l" "headers_encode E" "serve_step E (lconn l) s"
  shows "flow_inv (l\<lparr>lconn := s, lcodec := arrive (if up l then flushed_by (cc (lconn l)) (cc s) else []) (lcodec l)\<rparr>)"
proof -
  have inv: "server_good E sm (set (wrote l)) (lconn l)" "serve_inv (lconn l)" "set (got (lconn l)) \<subseteq> wseqs (wrote l)"
    using assms(1,2) by (simp_all add: link_inv_def flow_inv_def)
  note f = serve_flow [OF assms(4) inv(1,2) inv(3) [unfolded wseqs_def], folded wseqs_def]
  have "serve_inv s" by (rule serve_inv_step [OF assms(3) inv(2) assms(4)])
  moreover obtain ws where "out (cc s) = out (cc (lconn l)) @ ws" using serve_step_out [OF assms(4)] by blast
  ultimately show ?thesis
    using assms(1) f unfolding flow_inv_def by (simp add: arrive_def flushed_by_def) blast
qed

lemma flow_inv_step:
  assumes "link_step F rdec E l l'" "headers_encode E" "link_inv rdec E sm l" "flow_inv l"
  shows "flow_inv l'"
  using assms
proof (induction rule: link_step.induct)
  case (l_local l n)
  then show ?case by (intro flow_inv_local)
next
  case (l_write n l i x q c w)
  show ?case unfolding l_write(1,3) by (rule flow_inv_write [OF l_write.prems(3,2,1)]) (use l_write in simp_all)
next
  case (l_header n l h c call cl)
  show ?case unfolding l_header(1) by (rule flow_inv_header [OF l_header.prems(3)]) (use l_header in simp_all)
next
  case (l_body n l h call r c)
  show ?case unfolding l_body(1) by (rule flow_inv_body [OF l_body.prems(3,2)]) (use l_body in simp_all)
next
  case (l_serve l s)
  show ?case by (rule flow_inv_serve [OF l_serve.prems(3,2,1) l_serve(1)])
next
  case (l_break l)
  then show ?case by (simp add: flow_inv_def)
qed

lemma flow_inv_start:
  assumes "link_start E sm l"
  shows "flow_inv l"
proof -
  from assms obtain x err err' where l: "l = \<lparr>lnet = \<lparr>client = newClientCodec x, sending = None, receiver = RRead\<rparr>,
      lcodec = NewGobCodec [] err, lconn = serveCodec sm (NewGobCodec [] err'), up = True, wrote = []\<rparr>"
    unfolding link_start_def by (metis ServeConn_accepts_client)
  have "serve_inv (lconn l)" by (simp add: l serve_inv_start flushed_def NewGobCodec_def)
  then show ?thesis by (simp add: l flow_inv_def newClientCodec_def serveCodec_def NewGobCodec_def)
qed

interpretation lv: inductive_invariant "link_start E sm" "link_step F rdec E"
  "\<lambda>l. headers_encode E \<and> ncalls (client (lnet l)) < 2 ^ 64 - 1 \<longrightarrow> link_inv rdec E sm l \<and> flow_inv l" for E sm F rdec
proof (unfold_locales, goal_cases)
  case (1 l)
  then show ?case by (simp add: link_inv_start flow_inv_start)
next
  case (2 l l')
  show ?case
  proof (intro impI, elim conjE)
    assume e: "headers_encode E" "ncalls (client (lnet l')) < 2 ^ 64 - 1"
    with 2 ncalls_link_step [OF 2(2)] have inv: "link_inv rdec E sm l" "flow_inv l" by auto
    from lk.Inv_step [OF _ 2(2)] inv(1) e flow_inv_step [OF 2(2) e(1) inv]
    show "link_inv rdec E sm l' \<and> flow_inv l'" by blast
  qed
qed

section \<open>Runs end\<close>

fun caller_weight :: "caller \<Rightarrow> nat" where
  "caller_weight (Writing q) = 2"
| "caller_weight Sent = 2"
| "caller_weight Selecting = 1"
| "caller_weight (Returned e) = 0"

fun receiver_weight :: "receiver \<Rightarrow> nat" where
  "receiver_weight (RGot h call) = 3"
| "receiver_weight RRead = 2"
| "receiver_weight (RTerm e) = 1"
| "receiver_weight RStop = 0"

definition callers_weight :: "'b Client \<Rightarrow> nat" where
  "callers_weight c = (\<Sum>i < ncalls c. caller_weight (pc (calls c i)))"

definition live_weight :: "'b link \<Rightarrow> nat" where
  "live_weight l = 5 * serve_weight (lconn l) + 2 * length (inp (lcodec l)) + receiver_weight (receiver (lnet l)) +
     callers_weight (client (lnet l)) + (if sending (lnet l) = None then 0 else 81)"

lemma callers_weight_cong:
  "ncalls c' = ncalls c \<Longrightarrow> (\<And>i. pc (calls c' i) = pc (calls c i)) \<Longrightarrow> callers_weight c' = callers_weight c"
  by (simp add: callers_weight_def)

lemma callers_weight_less:
  assumes "i < ncalls c" "caller_weight p < caller_weight (pc (calls c i))" "ncalls c' = ncalls c"
    and "\<And>j. pc (calls c' j) = (if j = i then p else pc (calls c j))"
  shows "callers_weight c' < callers_weight c"
  unfolding callers_weight_def assms(3) by (rule sum_strict_mono_ex1) (use assms in auto)

lemma local_weight:
  assumes "client_step F s t" "off_wire s t" "client_inv s" "t \<noteq> s" "ncalls (client t) = ncalls (client s)"
    "closing (client t) = closing (client s)"
  shows "receiver_weight (receiver t) + callers_weight (client t) + (if sending t = None then 0 else 81) <
    receiver_weight (receiver s) + callers_weight (client s) + (if sending s = None then 0 else (81 :: nat))"
  using assms
proof (induction rule: client_step.induct)
  case (go s i sm args sy q c)
  then show ?case by (auto simp: send_begin_def registerCall_def add_call_to_def split: if_splits)
next
  case (written s i q w)
  then show ?case by (simp add: off_wire_def)
next
  case (recv_body s h call r)
  then obtain e where "r = Inl e" by (auto simp: off_wire_def split: sum.splits)
  moreover have "callers_weight (receive_body F h call r (client s)) = callers_weight (client s)"
    by (rule callers_weight_cong) (simp_all add: receive_body_def split: option.split)
  ultimately show ?case using recv_body(1) by simp
next
  case (terminate s e)
  then have "seq_inv (client s)" by (simp add: client_inv_def)
  from terminateCalls_calls [OF this, of e] have "callers_weight (terminateCalls (client s) e) = callers_weight (client s)"
    by (intro callers_weight_cong) simp_all
  then show ?case using terminate(1) by simp
next
  case (user_close s)
  then show ?case by (auto simp: client_Close_def split: if_splits)
next
  case (call_wait i s x)
  have "callers_weight (upd_call i (\<lambda>x. x\<lparr>chan := chan x - 1, pc := Selecting\<rparr>) (client s)) < callers_weight (client s)"
    by (rule callers_weight_less [OF call_wait(1), of Selecting]) (use call_wait in auto)
  then show ?case by simp
next
  case (call_reply i s x)
  have "callers_weight (upd_call i (\<lambda>x. x\<lparr>chan := chan x - 1, pc := Returned (c_Error x)\<rparr>) (client s)) < callers_weight (client s)"
    by (rule callers_weight_less [OF call_reply(1), of "Returned (c_Error x)"]) (use call_reply in auto)
  then show ?case by simp
next
  case (call_ctx i s x call c ctx_err)
  let ?p = "Returned (Some (Errorf (''rpc client:call failed: '' @ ctx_err)))"
  have "callers_weight (set_pc i ?p c) < callers_weight (client s)"
    by (rule callers_weight_less [OF call_ctx(1), of ?p]) (use call_ctx in \<open>auto simp: removeCall_def\<close>)
  then show ?case by simp
qed (auto simp: off_wire_def)

lemma serve_flush_bound:
  assumes "serve_step E s t" "server_good E sm W s" "headers_encode E"
  shows "length (flushed_by (cc s) (cc t)) \<le> 2"
  using server_good_step [OF assms(3,1,2)] by (auto simp: flushed_by_def replies_def)

lemma live_weight_step:
  assumes "link_step F rdec E l l'" "headers_encode E" "link_inv rdec E sm l" "l' \<noteq> l" "up l' = up l"
    and "ncalls (client (lnet l')) = ncalls (client (lnet l))" "closing (client (lnet l')) = closing (client (lnet l))"
  shows "live_weight l' < live_weight l"
  using assms
proof (induction rule: link_step.induct)
  case (l_local l n)
  then have "client_inv (lnet l)" "n \<noteq> lnet l" by (auto simp: link_inv_def)
  from local_weight [OF l_local(1,2) this] l_local show ?case by (simp add: live_weight_def)
next
  case (l_write n l i x q c w)
  have "flushed (lcodec l)" using l_write.prems by (simp add: link_inv_def)
  note w = gob_Write_encodes [OF l_write.prems(1) this l_write(5)]
  have "callers_weight (set_pc i Sent (client n)) = callers_weight (client n)"
    unfolding callers_weight_def by (intro sum.cong) (use l_write in auto)
  moreover have "serve_weight ((lconn l)\<lparr>cc := arrive (if up l then flushed_by (lcodec l) c else []) (cc (lconn l))\<rparr>) \<le>
      serve_weight (lconn l) + 16"
    using w by (simp add: serve_weight_def arrive_def flushed_by_def)
  ultimately show ?case using w l_write(1,2) by (simp add: live_weight_def send_end_def)
next
  case (l_header n l h c call cl)
  then have "inp (lcodec l) = WHeader h # inp c" by (auto simp: ReadHeader_def split: list.splits wire.splits)
  moreover have "callers_weight cl = callers_weight (client n)" using l_header(5) by (auto simp: removeCall_def intro!: callers_weight_cong)
  ultimately show ?case using l_header(1,2) by (simp add: live_weight_def)
next
  case (l_body n l h call r c)
  then have "length (inp (lcodec l)) = Suc (length (inp c))"
    by (auto simp: ReadBody_def split: list.splits wire.splits option.splits)
  moreover have "callers_weight (receive_body F h call r (client n)) = callers_weight (client n)"
    by (rule callers_weight_cong) (simp_all add: receive_body_def split: option.split)
  ultimately show ?case using l_body(1,2) by (simp add: live_weight_def split: sum.split)
next
  case (l_serve l s)
  have "server_good E sm (set (wrote l)) (lconn l)" using l_serve.prems by (simp add: link_inv_def)
  from serve_flush_bound [OF l_serve(1) this l_serve.prems(1)] serve_weight_step [OF l_serve(1)]
  show ?case by (simp add: live_weight_def arrive_def)
next
  case (l_break l)
  then show ?case by simp
qed

section \<open>A run stops only when all calls are complete\<close>

lemma gob_Write_total:
  "headers_encode E \<Longrightarrow> bodies_encode E \<Longrightarrow> \<exists>c. gob_Write (e_encH E) (e_encB E) d h x = (c, Ret None)"
  by (simp add: gob_Write_def headers_encode_def bodies_encode_def Let_def)

lemma live_write:
  assumes "flow_inv l" "headers_encode E" "bodies_encode E" "sending (lnet l) = Some i"
  shows "\<exists>l'. live_step F rdec E l l'"
proof -
  let ?n = "lnet l"
  obtain q where q: "pc (calls (client ?n) i) = Writing q" using assms(1,4) by (auto simp: flow_inv_def)
  obtain c where c: "gob_Write (e_encH E) (e_encB E) (lcodec l) (header (client ?n)) (c_Args (calls (client ?n) i)) = (c, Ret None)"
    using gob_Write_total [OF assms(2,3)] by blast
  let ?l = "l\<lparr>lnet := ?n\<lparr>client := set_pc i Sent (send_end (client ?n) q None), sending := None\<rparr>, lcodec := c,
      lconn := (lconn l)\<lparr>cc := arrive (if up l then flushed_by (lcodec l) c else []) (cc (lconn l))\<rparr>,
      wrote := wrote l @ (if None = (None :: error option) then [(header (client ?n), c_Args (calls (client ?n) i))] else [])\<rparr>"
  have "link_step F rdec E l ?l" by (rule l_write [OF refl assms(4) refl q c])
  moreover have "sending (lnet ?l) \<noteq> sending ?n" using assms(4) by simp
  then have "?l \<noteq> l" by metis
  ultimately have "live_step F rdec E l ?l"
    by (simp add: live_step_def send_end_def set_pc_def upd_call_def)
  then show ?thesis ..
qed

lemma live_local:
  assumes "client_step F (lnet l) n" "off_wire (lnet l) n" "receiver n \<noteq> receiver (lnet l)"
    and "ncalls (client n) = ncalls (client (lnet l))" "closing (client n) = closing (client (lnet l))"
    and "\<And>e. receiver n = RTerm e \<Longrightarrow> read_ends l"
  shows "live_step F rdec E l (l\<lparr>lnet := n\<rparr>)"
proof -
  have "l\<lparr>lnet := n\<rparr> \<noteq> l" using assms(3) by (metis link.select_convs(1) link.surjective link.update_convs(1))
  with l_local [OF assms(1,2)] assms show ?thesis by (simp add: live_step_def)
qed

lemma live_serve:
  assumes "serve_step E (lconn l) s" "\<not> sees_end (lconn l) s"
  shows "\<exists>l'. live_step F rdec E l l'"
proof -
  let ?l = "l\<lparr>lconn := s, lcodec := arrive (if up l then flushed_by (cc (lconn l)) (cc s) else []) (lcodec l)\<rparr>"
  have "link_step F rdec E l ?l" by (rule l_serve [OF assms(1)]) (use assms(2) in simp)
  moreover have "lconn ?l \<noteq> lconn l" using serve_weight_step [OF assms(1)] by auto
  then have "?l \<noteq> l" by metis
  ultimately have "live_step F rdec E l ?l" by (simp add: live_step_def)
  then show ?thesis ..
qed

text \<open>The receiver can go on while there is a value to read, or the connection has come to its end.\<close>

lemma responses_head:
  assumes "responses E sm W b ws" "ws \<noteq> []"
  shows "\<exists>h r. ws = WHeader h # r"
proof -
  from assms(1) obtain ms tl where "ws = msgs ms @ tl" "tl = [] \<or> (\<exists>h. tl = [WHeader h])" by (auto simp: responses_def)
  with assms(2) show ?thesis by (cases ms) auto
qed

lemma responses_half:
  assumes "responses E sm W b [WHeader h]"
  shows b
  using assms unfolding responses_def
proof (elim exE conjE)
  fix ms tl assume "[WHeader h] = msgs ms @ tl" "tl = [] \<or> b \<and> (\<exists>h. tl = [WHeader h])"
  then show b by (cases ms) auto
qed

lemma live_header:
  assumes "link_inv rdec E sm l" "receiver (lnet l) = RRead" "inp (lcodec l) \<noteq> []"
  shows "\<exists>l'. live_step F rdec E l l'"
proof -
  have "responses E sm (set (wrote l)) (crashed (lconn l)) (inp (lcodec l))" using assms(1,2) by (simp add: link_inv_def)
  then obtain h r where h: "inp (lcodec l) = WHeader h # r" using responses_head [OF _ assms(3)] by blast
  let ?n = "lnet l" and ?c = "(lcodec l)\<lparr>inp := r\<rparr>"
  have rh: "ReadHeader (lcodec l) = (Inr h, ?c)" using h by (simp add: ReadHeader_def)
  obtain call cl where rc: "removeCall (client ?n) (Seq h) = (call, cl)" by fastforce
  have "link_step F rdec E l (l\<lparr>lnet := ?n\<lparr>client := cl, receiver := RGot h call\<rparr>, lcodec := ?c\<rparr>)"
    by (rule l_header [OF refl assms(2,3) rh rc])
  moreover have "receiver (lnet (l\<lparr>lnet := ?n\<lparr>client := cl, receiver := RGot h call\<rparr>, lcodec := ?c\<rparr>)) \<noteq> receiver ?n"
    using assms(2) by simp
  then have "l\<lparr>lnet := ?n\<lparr>client := cl, receiver := RGot h call\<rparr>, lcodec := ?c\<rparr> \<noteq> l" by metis
  ultimately have "live_step F rdec E l (l\<lparr>lnet := ?n\<lparr>client := cl, receiver := RGot h call\<rparr>, lcodec := ?c\<rparr>)"
    using rc by (auto simp: live_step_def removeCall_def)
  then show ?thesis ..
qed

lemma live_body:
  assumes "receiver (lnet l) = RGot h call" "inp (lcodec l) \<noteq> []"
  shows "\<exists>l'. live_step F rdec E l l'"
proof -
  let ?n = "lnet l"
  obtain r c where rb: "ReadBody (body_dest rdec h call) (lcodec l) = (r, c)" by fastforce
  then have c: "c \<noteq> lcodec l"
    using assms(2) by (cases "lcodec l") (auto simp: ReadBody_def split: list.splits wire.splits option.splits)
  let ?l = "l\<lparr>lnet := ?n\<lparr>client := receive_body F h call r (client ?n), receiver := (case r of Inl e \<Rightarrow> RTerm e | Inr y \<Rightarrow> RRead)\<rparr>, lcodec := c\<rparr>"
  have "link_step F rdec E l ?l" by (rule l_body [OF refl assms rb])
  moreover have "lcodec ?l \<noteq> lcodec l" using c by simp
  then have "?l \<noteq> l" by metis
  ultimately have "live_step F rdec E l ?l"
    using c by (simp add: live_step_def receive_body_def upd_call_def split: option.split)
  then show ?thesis ..
qed

lemma live_read_end:
  assumes "read_ends l" "receiver (lnet l) = RRead \<or> (\<exists>h call. receiver (lnet l) = RGot h call)"
  shows "\<exists>l'. live_step F rdec E l l'"
proof -
  let ?n = "lnet l"
  have "\<exists>n e. client_step F ?n n \<and> receiver n = RTerm e \<and> sending n = sending ?n \<and> ncalls (client n) = ncalls (client ?n) \<and>
      closing (client n) = closing (client ?n)"
    using assms(2)
  proof (elim disjE exE)
    assume "receiver ?n = RRead"
    from recv_error [OF this, of F EOF] show ?thesis by force
  next
    fix h call assume "receiver ?n = RGot h call"
    from recv_body [OF this, of F "Inl EOF"] show ?thesis
      by (intro exI conjI) (assumption, auto simp: receive_body_def upd_call_def split: option.split)
  qed
  then obtain n e where n: "client_step F ?n n" "receiver n = RTerm e" "sending n = sending ?n"
      "ncalls (client n) = ncalls (client ?n)" "closing (client n) = closing (client ?n)" by blast
  have "live_step F rdec E l (l\<lparr>lnet := n\<rparr>)"
    by (rule live_local [OF n(1)]) (use n assms in \<open>auto simp: off_wire_def\<close>)
  then show ?thesis ..
qed

lemma closing_terminateCalls [simp]:
  fixes c :: "'b Client"
  shows "closing (terminateCalls c e) = closing c"
proof -
  have "closing (upd_call i f c) = closing c" for i f and c :: "'b Client" by (simp add: upd_call_def)
  then have "closing (fold (\<lambda>(q, i). upd_call i f) ps c) = closing c" for f and ps :: "(u64 \<times> nat) list" and c :: "'b Client"
    by (induction ps arbitrary: c) (simp_all add: case_prod_beta)
  then show ?thesis by (simp add: terminateCalls_def)
qed

lemma live_terminate:
  assumes "receiver (lnet l) = RTerm e" "sending (lnet l) = None"
  shows "\<exists>l'. live_step F rdec E l l'"
proof -
  have "live_step F rdec E l (l\<lparr>lnet := (lnet l)\<lparr>client := terminateCalls (client (lnet l)) e, receiver := RStop\<rparr>\<rparr>)"
    by (rule live_local [OF terminate [OF assms]]) (use assms in \<open>auto simp: off_wire_def\<close>)
  then show ?thesis ..
qed

text \<open>A server that can do nothing more but see the end of its input has answered all it has read.\<close>

lemma server_idle:
  assumes "serve_inv s" "\<not> crashed s" "reader s \<noteq> Closed" "e_timeout E \<noteq> 0 \<or> (\<forall>q. e_call E q \<noteq> Hang)"
    and stuck: "\<And>t. serve_step E s t \<Longrightarrow> sees_end s t"
  shows "reader s = Reading \<and> inp (cc s) = [] \<and> set (got s) \<subseteq> hseqs (out (cc s))"
proof -
  have finished: "h_main h = MDone" if "h \<in> set (hs s)" for h
  proof (rule ccontr)
    assume "h_main h \<noteq> MDone"
    with that obtain i where i: "i < length (hs s)" "h_main (hs s ! i) \<noteq> MDone" by (auto simp: in_set_conv_nth)
    from handler_progress [OF assms(2) i(1) refl i(2) handler_okD [OF assms(1,2) i(1)] assms(4)]
    obtain t where "serve_step E s t" "reader t = reader s" by blast
    with stuck [of t] show False by (auto simp: sees_end_def)
  qed
  have r: "reader s = Reading"
  proof (cases "reader s")
    case (Replying h e)
    from stuck [OF reply_err [OF assms(2) this]] show ?thesis by (simp add: sees_end_def)
  next
    case Draining
    from stuck [OF close [OF assms(2) this]] finished show ?thesis by (simp add: sees_end_def)
  qed (use assms(3) in simp_all)
  with read_progress [OF assms(2), of E] stuck have "inp (cc s) = []" by (auto simp: sees_end_def)
  moreover obtain ms where ms: "out (cc s) = msgs ms"
      "mset (got s) = mset (map (\<lambda>m. Seq (fst m)) ms) + owed_reader (reader s) + sum_list (map owed (hs s))"
    using assms(1,2) by (auto simp: serve_inv_def answered_def)
  moreover have "sum_list (map owed (hs s)) = {#}" by (rule sum_list_map_0) (simp add: owed_def finished)
  with ms(2) r have "mset (got s) = mset (map (\<lambda>m. Seq (fst m)) ms)" by simp
  then have "set (got s) = set (map (\<lambda>m. Seq (fst m)) ms)" by (rule mset_eq_setD)
  ultimately show ?thesis using r by (simp add: hseqs_msgs)
qed

lemma live_stuck:
  assumes "link_inv rdec E sm l" "flow_inv l" "headers_encode E" "bodies_encode E" "e_timeout E \<noteq> 0 \<or> (\<forall>q. e_call E q \<noteq> Hang)"
    and stuck: "\<And>l'. \<not> live_step F rdec E l l'" and i: "i < ncalls (client (lnet l))"
  shows "dones (calls (client (lnet l)) i) = 1"
proof -
  let ?n = "lnet l"
  have inv: "client_inv ?n" using assms(1) by (simp add: link_inv_def)
  have sending: "sending ?n = None" using live_write [OF assms(2-4)] stuck by (cases "sending ?n") blast+
  have due: "dones (calls (client ?n) i) = due ?n i" using inv i by (simp add: client_inv_def calls_inv_def Let_def)
  have ends: "\<not> read_ends l" if "receiver ?n = RRead \<or> (\<exists>h call. receiver ?n = RGot h call)"
    using live_read_end [OF _ that] stuck by blast
  show ?thesis
  proof (cases "receiver ?n")
    case RRead
    have inp: "inp (lcodec l) = []" using live_header [OF assms(1) RRead] stuck by blast
    with ends RRead have open_conn: "up l" "reader (lconn l) \<noteq> Closed" "\<not> crashed (lconn l)" by (auto simp: read_ends_def hung_up_def)
    have "serve_inv (lconn l)" using assms(2) by (simp add: flow_inv_def)
    from server_idle [OF this open_conn(3,2) assms(5)] live_serve stuck
    have "reader (lconn l) = Reading \<and> inp (cc (lconn l)) = [] \<and> set (got (lconn l)) \<subseteq> hseqs (out (cc (lconn l)))" by blast
    with assms(2) open_conn(1) have "wseqs (wrote l) \<inter> fst ` set (pending (client ?n)) \<subseteq> hseqs (inp (lcodec l))"
      by (auto simp: flow_inv_def)
    moreover have "fst ` set (pending (client ?n)) \<subseteq> wseqs (wrote l)" using assms(2) sending by (auto simp: flow_inv_def)
    ultimately have "fst ` set (pending (client ?n)) = {}" using inp by (simp add: Int_absorb1)
    with RRead due show ?thesis by (simp add: due_def pend_def taken_def)
  next
    case (RGot h call)
    have "inp (lcodec l) = []" using live_body [OF RGot] stuck by blast
    moreover from this have "responses E sm (set (wrote l)) (crashed (lconn l)) [WHeader h]"
      using assms(1) RGot by (simp add: link_inv_def)
    then have "crashed (lconn l)" by (rule responses_half)
    ultimately show ?thesis using ends RGot by (simp add: read_ends_def)
  next
    case (RTerm e)
    with live_terminate [OF RTerm sending] stuck show ?thesis by blast
  next
    case RStop
    with due show ?thesis by (simp add: due_def)
  qed
qed

section \<open>Properties\<close>



end
