(* ===== verification/RpcShared.thy ===== *)
theory RpcShared
  imports RpcFront
begin

text \<open>
  A server of \<^verbatim>\<open>geerpc/server.go\<close> with all its connections: they share the table of services, to
  which \<open>Register\<close> adds at any time, and whose counters every call of a method increments. The
  steps of a connection are those of \<^const>\<open>serve_step\<close> on the shared table; a panic of one goroutine
  ends the process.
\<close>

section \<open>Server and steps\<close>

text \<open>A connection comes with the handling timeout of its options.\<close>

record 'b server =
  serviceTable :: serviceMap
  conns :: "(int \<times> 'b conn) list"

definition NewServer :: "'b server" where
  "NewServer = \<lparr>serviceTable = Map.empty, conns = []\<rparr>"

definition srv_alive :: "'b server \<Rightarrow> bool" where
  "srv_alive s \<longleftrightarrow> (\<forall>x \<in> set (conns s). \<not> crashed (snd x))"

definition opt_timeout :: "error + Option \<Rightarrow> int" where
  "opt_timeout opt = (case opt of Inl e \<Rightarrow> 0 | Inr opt \<Rightarrow> HandleTimeout opt)"

text \<open>\<open>env t\<close> is what a connection with the timeout \<open>t\<close> depends on.\<close>

inductive srv_step :: "(int \<Rightarrow> 'b env) \<Rightarrow> 'b server \<Rightarrow> 'b server \<Rightarrow> bool" for env :: "int \<Rightarrow> 'b env" where
  srv_register: "srv_alive s \<Longrightarrow> Register (serviceTable s) t ms = Ret (e, sm) \<Longrightarrow>
    srv_step env s (s\<lparr>serviceTable := sm\<rparr>)"
| srv_accept: "srv_alive s \<Longrightarrow>
    srv_step env s (s\<lparr>conns := conns s @ [(opt_timeout opt, ServeConn (serviceTable s) opt i e)]\<rparr>)"
| srv_conn: "srv_alive s \<Longrightarrow> k < length (conns s) \<Longrightarrow> conns s ! k = (t, c) \<Longrightarrow>
    serve_step (env t) (c\<lparr>smap := serviceTable s\<rparr>) c' \<Longrightarrow>
    srv_step env s (s\<lparr>serviceTable := smap c', conns := (conns s)[k := (t, c')]\<rparr>)"

section \<open>The numbers of calls\<close>

text \<open>The calls of a method that the connections have started.\<close>

definition ncalls_started :: "string \<Rightarrow> string \<Rightarrow> 'b server \<Rightarrow> nat" where
  "ncalls_started sn mn s = (\<Sum>x\<leftarrow>conns s. nstarted sn mn (snd x))"

definition table_counts :: "(string \<Rightarrow> string \<Rightarrow> nat) \<Rightarrow> serviceMap \<Rightarrow> bool" where
  "table_counts n sm \<longleftrightarrow> (\<forall>sn svc. sm sn = Some svc \<longrightarrow> s_name svc = sn \<and> service_wf svc \<and>
     (\<forall>mn m. s_method svc mn = Some m \<longrightarrow> numCalls m = of_nat (n sn mn)))"

definition known :: "serviceMap \<Rightarrow> 'b handler \<Rightarrow> bool" where
  "known sm h \<longleftrightarrow> sm (s_name (r_svc (h_req h))) \<noteq> None"

definition shared_inv :: "'b server \<Rightarrow> bool" where
  [invs]: "shared_inv s \<longleftrightarrow> table_counts (\<lambda>sn mn. ncalls_started sn mn s) (serviceTable s) \<and>
     (\<forall>x \<in> set (conns s). \<forall>h \<in> set (hs (snd x)). known (serviceTable s) h)"

lemma nstarted_smap [simp]: "nstarted sn mn (c\<lparr>smap := sm\<rparr>) = nstarted sn mn c"
  by (simp add: nstarted_def)

lemma count_call_dom [simp]: "count_call sm q sn = None \<longleftrightarrow> sm sn = None"
  by (simp add: count_call_def Let_def split: option.split)

lemma table_counts_call:
  assumes "table_counts n sm" "\<And>sn mn. n' sn mn = n sn mn + of_bool (starts q sn mn)"
  shows "table_counts n' (count_call sm q)"
  using assms
  by (auto simp: table_counts_def count_call_def starts_def service_wf_def add_call_def Let_def split: option.splits if_splits)

lemma fold_register_new:
  "fold register_method ms M n = Some m \<Longrightarrow> numCalls m = 0 \<or> M n = Some m"
proof (induction ms arbitrary: M)
  case (Cons x ms)
  from Cons.prems have "fold register_method ms (register_method x M) n = Some m" by simp
  from Cons.IH [OF this] show ?case by (auto simp: register_method_def Let_def split: if_splits)
qed simp

lemma newService_new:
  "newService t ms = Ret svc \<Longrightarrow> s_method svc mn = Some m \<Longrightarrow> numCalls m = 0"
  using fold_register_new [of ms Map.empty mn m]
  by (auto simp: newService_def registerMethods_def bind_exec_Ret_iff split: if_splits)

lemma Register_cases:
  assumes "Register sm t ms = Ret (e, sm')"
  shows "sm' = sm \<or> (\<exists>svc. newService t ms = Ret svc \<and> sm (s_name svc) = None \<and> sm' = sm(s_name svc \<mapsto> svc))"
  using assms by (auto simp: Register_def bind_exec_Ret_iff split: option.splits)

lemma Register_le: "Register sm t ms = Ret (e, sm') \<Longrightarrow> sm \<subseteq>\<^sub>m sm'"
  using Register_cases [of sm t ms e sm'] by (auto simp: map_le_def)

text \<open>Nothing has been started for a service that is not in the table.\<close>

lemma unknown_not_started:
  assumes "shared_inv s" "serviceTable s sn = None"
  shows "ncalls_started sn mn s = 0"
proof -
  have "nstarted sn mn (snd x) = 0" if "x \<in> set (conns s)" for x
    using assms that by (force simp: shared_inv_def known_def nstarted_def started_def filter_empty_conv)
  then show ?thesis by (simp add: ncalls_started_def)
qed

lemma shared_inv_register:
  assumes "shared_inv s" "Register (serviceTable s) t ms = Ret (e, sm)"
  shows "shared_inv (s\<lparr>serviceTable := sm\<rparr>)"
  using Register_cases [OF assms(2)]
proof (elim disjE exE conjE)
  fix svc assume svc: "newService t ms = Ret svc" "serviceTable s (s_name svc) = None" "sm = (serviceTable s)(s_name svc \<mapsto> svc)"
  have "table_counts (\<lambda>sn mn. ncalls_started sn mn s) sm"
    using assms(1) svc(3) newService_wf [OF svc(1)] newService_new [OF svc(1)] unknown_not_started [OF assms(1) svc(2)]
    by (auto simp: shared_inv_def table_counts_def)
  with assms(1) svc(3) show ?thesis by (auto simp: shared_inv_def known_def ncalls_started_def)
qed (use assms(1) in simp)

lemma serve_step_requests:
  assumes "serve_step E s t" "h \<in> set (hs t)"
  shows "h_req h \<in> h_req ` set (hs s) \<or> (\<exists>name mt. findService (smap s) name = Inr (r_svc (h_req h), mt))"
  using assms
proof (induction rule: serve_step.induct)
  case (read_ok s q c)
  have "\<exists>name mt. findService (smap s) name = Inr (r_svc q, mt)"
    using read_ok(3) by (auto simp: readRequest_def bind_exec_Ret_iff split: prod.splits sum.splits option.splits) blast
  with read_ok.prems show ?case by auto
qed (auto dest!: in_set_updateD)

lemma findService_table: "findService sm name = Inr (svc, mt) \<Longrightarrow> \<exists>sn. sm sn = Some svc"
  by (auto simp: findService_def Let_def split: if_splits option.splits)

lemma ncalls_started_update:
  assumes "k < length (conns s)" "conns s ! k = (t, c)" "conns s' = (conns s)[k := (t, c')]"
    "nstarted sn mn c' = nstarted sn mn c + d"
  shows "ncalls_started sn mn s' = ncalls_started sn mn s + d"
  using sum_list_map_update [OF assms(1), of "\<lambda>x. nstarted sn mn (snd x)" "(t, c')"] assms(2-4)
  by (simp add: ncalls_started_def)

lemma shared_inv_conn:
  assumes inv: "shared_inv s" and k: "k < length (conns s)" "conns s ! k = (t, c)"
    and step: "serve_step E (c\<lparr>smap := serviceTable s\<rparr>) c'"
  shows "shared_inv (s\<lparr>serviceTable := smap c', conns := (conns s)[k := (t, c')]\<rparr>)"
proof -
  let ?s = "s\<lparr>serviceTable := smap c', conns := (conns s)[k := (t, c')]\<rparr>"
  have counts: "table_counts (\<lambda>sn mn. ncalls_started sn mn s) (serviceTable s)" using inv by (simp add: shared_inv_def)
  note upd = ncalls_started_update [OF k, of ?s c', simplified]
  have c: "table_counts (\<lambda>sn mn. ncalls_started sn mn ?s) (smap c') \<and> (\<forall>sn. smap c' sn = None \<longleftrightarrow> serviceTable s sn = None)"
    using serve_step_counts [OF step]
  proof (elim disjE bexE conjE)
    assume "smap c' = smap (c\<lparr>smap := serviceTable s\<rparr>)"
      "\<forall>sn mn. nstarted sn mn c' = nstarted sn mn (c\<lparr>smap := serviceTable s\<rparr>)"
    with counts upd [where d = 0] show ?thesis by simp
  next
    fix h assume "smap c' = count_call (smap (c\<lparr>smap := serviceTable s\<rparr>)) (h_req h)"
      "\<forall>sn mn. nstarted sn mn c' = nstarted sn mn (c\<lparr>smap := serviceTable s\<rparr>) + of_bool (starts (h_req h) sn mn)"
    with table_counts_call [OF counts, of "\<lambda>sn mn. ncalls_started sn mn ?s" "h_req h"] upd show ?thesis by simp
  qed
  have c_in: "(t, c) \<in> set (conns s)" using k nth_mem by force
  have "known (serviceTable s) h" if h: "h \<in> set (hs c')" for h
  proof -
    from serve_step_requests [OF step h] consider h' where "h' \<in> set (hs c)" "h_req h = h_req h'"
      | name mt where "findService (serviceTable s) name = Inr (r_svc (h_req h), mt)" by auto
    then show ?thesis
    proof cases
      case 1
      with inv c_in show ?thesis by (auto simp: shared_inv_def known_def)
    next
      case 2
      from findService_table [OF this] counts show ?thesis by (auto simp: known_def table_counts_def)
    qed
  qed
  with inv have "\<forall>x \<in> set ((conns s)[k := (t, c')]). \<forall>h \<in> set (hs (snd x)). known (serviceTable s) h"
    by (auto simp: shared_inv_def dest!: in_set_updateD)
  with c show ?thesis by (auto simp: shared_inv_def known_def)
qed

lemma hs_ServeConn [simp]: "hs (ServeConn sm opt i e) = []"
  by (simp add: ServeConn_def serveCodec_def Let_def split: sum.split option.split)

interpretation sh: inductive_invariant "\<lambda>s. s = NewServer" "srv_step env" shared_inv for env :: "int \<Rightarrow> 'b env"
proof (unfold_locales, goal_cases)
  case (1 s)
  then show ?case by (simp add: shared_inv_def NewServer_def table_counts_def)
next
  case (2 s t)
  from 2(2,1) show ?case
  proof (induction rule: srv_step.induct)
    case (srv_accept s opt i e)
    then show ?case by (simp add: shared_inv_def ncalls_started_def nstarted_def)
  qed (auto intro: shared_inv_register shared_inv_conn)
qed

section \<open>One connection among others\<close>

text \<open>
  Connection \<open>k\<close> as its own steps see it. What the other connections and \<open>Register\<close> do to the
  table keeps the requests that can be served.
\<close>

definition conn_view :: "'b server \<Rightarrow> nat \<Rightarrow> 'b conn" where
  "conn_view s k = (snd (conns s ! k))\<lparr>smap := serviceTable s\<rparr>"

definition same_but_table :: "'b conn \<Rightarrow> 'b conn \<Rightarrow> bool" where
  "same_but_table c c' \<longleftrightarrow> (\<exists>sm. c' = c\<lparr>smap := sm\<rparr> \<and>
     (\<forall>d (m :: Header \<times> 'b). served d (smap c) m \<longrightarrow> served d sm m))"

lemma served_mono:
  assumes "served d sm m" "sm \<subseteq>\<^sub>m sm'"
  shows "served d sm' m"
proof -
  have "findService sm' n = Inr x" if "findService sm n = Inr x" for n x
    using that assms(2) by (force simp: findService_def map_le_def Let_def split: if_splits option.splits)
  with assms(1) show ?thesis unfolding served_def by blast
qed

lemma served_serve_step: "serve_step E s t \<Longrightarrow> served d (smap s) m \<Longrightarrow> served d (smap t) m"
  using serve_step_counts [of E s t] served_count_call [of d "smap s" m] by auto

lemma same_but_tableI:
  fixes c :: "'b conn"
  assumes "\<And>d (m :: Header \<times> 'b). served d sm m \<Longrightarrow> served d sm' m"
  shows "same_but_table (c\<lparr>smap := sm\<rparr>) (c\<lparr>smap := sm'\<rparr>)"
  unfolding same_but_table_def using assms by (intro exI [of _ sm']) (simp del: split_paired_All)

lemma conn_view_step:
  assumes "srv_step env s s'" "k < length (conns s)"
  shows "k < length (conns s') \<and> fst (conns s' ! k) = fst (conns s ! k) \<and>
    (serve_step (env (fst (conns s ! k))) (conn_view s k) (conn_view s' k) \<or> same_but_table (conn_view s k) (conn_view s' k))"
  using assms
proof (induction rule: srv_step.induct)
  case (srv_register s t ms e sm)
  have "same_but_table ((snd (conns s ! k))\<lparr>smap := serviceTable s\<rparr>) ((snd (conns s ! k))\<lparr>smap := sm\<rparr>)"
    by (rule same_but_tableI) (rule served_mono [OF _ Register_le [OF srv_register(2)]])
  with srv_register show ?case by (simp add: conn_view_def)
next
  case (srv_accept s opt i e)
  have "same_but_table ((snd (conns s ! k))\<lparr>smap := serviceTable s\<rparr>) ((snd (conns s ! k))\<lparr>smap := serviceTable s\<rparr>)"
    by (rule same_but_tableI)
  with srv_accept show ?case by (simp add: conn_view_def nth_append)
next
  case (srv_conn s j t c c')
  show ?case
  proof (cases "j = k")
    case True
    have "c'\<lparr>smap := smap c'\<rparr> = c'" by simp
    with True srv_conn show ?thesis by (simp add: conn_view_def)
  next
    case False
    have "same_but_table ((snd (conns s ! k))\<lparr>smap := serviceTable s\<rparr>) ((snd (conns s ! k))\<lparr>smap := smap c'\<rparr>)"
      by (rule same_but_tableI) (use served_serve_step [OF srv_conn(4)] in simp)
    with False srv_conn show ?thesis by (simp add: conn_view_def)
  qed
qed

definition conn_inv :: "(int \<Rightarrow> 'b env) \<Rightarrow> nat \<Rightarrow> int \<Rightarrow> (Header \<times> 'b) list \<Rightarrow> 'b server \<Rightarrow> bool" where
  [invs]: "conn_inv env k t ms s \<longleftrightarrow> k < length (conns s) \<and> fst (conns s ! k) = t \<and> serve_inv (conn_view s k) \<and>
     input_inv (env t) ms (conn_view s k) \<and>
     (reader (conn_view s k) = Closed \<longrightarrow> (\<forall>h \<in> set (hs (conn_view s k)). h_main h = MDone))"

lemma same_but_table_inv:
  assumes "same_but_table c c'"
  shows "serve_inv c' = serve_inv c" "input_inv E ms c \<Longrightarrow> input_inv E ms c'" "reader c' = reader c" "hs c' = hs c"
  using assms by (auto simp: same_but_table_def serve_inv_def answered_def input_inv_def)

interpretation an: inductive_invariant "conn_inv env k t ms" "srv_step env"
  "\<lambda>s. headers_encode (env t) \<longrightarrow> conn_inv env k t ms s" for env :: "int \<Rightarrow> 'b env" and k t ms
proof (unfold_locales, goal_cases)
  case (2 s s')
  show ?case
  proof
    assume e: "headers_encode (env t)"
    with 2(1) have inv: "conn_inv env k t ms s" by simp
    then have k: "k < length (conns s)" "fst (conns s ! k) = t" by (simp_all add: conn_inv_def)
    from conn_view_step [OF 2(2) k(1)] k(2) consider
        "serve_step (env t) (conn_view s k) (conn_view s' k)" | "same_but_table (conn_view s k) (conn_view s' k)" by auto
    then show "conn_inv env k t ms s'"
    proof cases
      case 1
      with inv conn_view_step [OF 2(2) k(1)] e show ?thesis
        using serve_inv_step [OF e] input_inv_step [OF _ 1] closed_done.Inv_step [OF _ 1] by (auto simp: conn_inv_def)
    next
      case 2
      with inv conn_view_step [OF \<open>srv_step env s s'\<close> k(1)] show ?thesis
        by (auto simp: conn_inv_def same_but_table_inv)
    qed
  qed
qed simp

section \<open>Properties\<close>

text \<open>
  C3. Every request is answered exactly once, on a server with any number of connections: a
  connection with an accepted option, whose input is a sequence of requests that can be served
  when it is accepted, has, when it is closed, complete responses as its output, whose sequence
  numbers are those of the requests; whatever the interleaving of the handlers of this and of
  the other connections, whether or not timeouts expire, and whatever is registered meanwhile.
\<close>

theorem server_answers_every_request:
  assumes "(srv_step env)\<^sup>*\<^sup>* s0 s" "k < length (conns s0)"
    and "conns s0 ! k = (t, ServeConn sm (Inr opt) (msgs ms) err)" "opt_MagicNumber opt = MagicNumber" "CodcType opt = GobType"
    and "headers_encode (env t)" "\<forall>m \<in> set ms. served (e_decode (env t)) (serviceTable s0) m"
    and "conns s ! k = (t, c)" "reader c = Closed" "\<not> crashed c"
  shows "\<exists>rs. out (cc c) = msgs rs \<and> mset (seqs rs) = mset (seqs ms)"
proof -
  have start: "ServeConn sm (Inr opt) (msgs ms) err = serveCodec sm (NewGobCodec (msgs ms) err)"
    using assms(4,5) by (simp add: ServeConn_def NewCodecFuncMap_def)
  have "serve_inv (serveCodec (serviceTable s0) (NewGobCodec (msgs ms) err))"
    by (rule serve_inv_start) (simp_all add: NewGobCodec_def flushed_def)
  then have "conn_inv env k t ms s0"
    using assms(2,3,7) by (simp add: conn_inv_def conn_view_def start serveCodec_def input_inv_def)
      (auto simp: NewGobCodec_def)
  with an.rtranclp_Inv [OF assms(1)] assms(6) have inv: "conn_inv env k t ms s" by blast
  then have "\<forall>h \<in> set (hs c). owed h = {#}" using assms(8,9) by (auto simp: conn_inv_def conn_view_def owed_def)
  then have "sum_list (map owed (hs c)) = {#}" using sum_list_map_0 by blast
  with inv assms(8-10) show ?thesis
    by (auto simp: conn_inv_def conn_view_def serve_inv_def answered_def input_inv_def seqs_def)
qed

text \<open>A run of one connection as a run of its server.\<close>

lemma server_runs_conn:
  assumes "(serve_step (env t))\<^sup>*\<^sup>* c c'"
  shows "(srv_step env)\<^sup>*\<^sup>* \<lparr>serviceTable = smap c, conns = [(t, c)]\<rparr> \<lparr>serviceTable = smap c', conns = [(t, c')]\<rparr>"
  using assms
proof (induction rule: rtranclp_induct)
  case (step c c')
  have "\<not> crashed c" using step.hyps(2) by (cases rule: serve_step.cases) auto
  then have "srv_step env \<lparr>serviceTable = smap c, conns = [(t, c)]\<rparr> \<lparr>serviceTable = smap c', conns = [(t, c')]\<rparr>"
    using srv_conn [of "\<lparr>serviceTable = smap c, conns = [(t, c)]\<rparr>" 0 t c env c'] step.hyps(2) by (simp add: srv_alive_def)
  with step.IH show ?case by simp
qed simp

theorem server_answers_every_request_witness:
  "\<exists>(c :: nat conn) sm rs. (srv_step (\<lambda>t. hanging))\<^sup>*\<^sup>*
      \<lparr>serviceTable = foo_services, conns = [(1, ServeConn foo_services (Inr (DefaultOption\<lparr>HandleTimeout := 1\<rparr>)) (msgs [(foo_header, 3)]) EOF)]\<rparr>
      \<lparr>serviceTable = sm, conns = [(1, c)]\<rparr> \<and> reader c = Closed \<and> out (cc c) = msgs rs \<and> mset (seqs rs) = {#1#}"
proof -
  let ?opt = "DefaultOption\<lparr>HandleTimeout := 1\<rparr>" and ?env = "\<lambda>t :: int. hanging"
  let ?c = "ServeConn foo_services (Inr ?opt) (msgs [(foo_header, 3 :: nat)]) EOF"
  obtain c where c: "reach (\<lambda>s. s = ?c) (serve_step hanging) c" "reader c = Closed" "\<not> crashed c"
    using hanging_run [of EOF] by blast
  have sm: "smap ?c = foo_services" by (simp add: ServeConn_def serveCodec_def DefaultOption_def NewCodecFuncMap_def)
  have "(srv_step ?env)\<^sup>*\<^sup>* \<lparr>serviceTable = smap ?c, conns = [(1, ?c)]\<rparr> \<lparr>serviceTable = smap c, conns = [(1, c)]\<rparr>"
    by (rule server_runs_conn) (rule reach_from [OF c(1)])
  then have run: "(srv_step ?env)\<^sup>*\<^sup>* \<lparr>serviceTable = foo_services, conns = [(1, ?c)]\<rparr> \<lparr>serviceTable = smap c, conns = [(1, c)]\<rparr>"
    unfolding sm .
  have "headers_encode hanging" by (simp add: headers_encode_def hanging_def)
  with server_answers_every_request [OF run, of 0 1 foo_services ?opt "[(foo_header, 3)]" EOF c] foo_served c(2,3)
  have "\<exists>rs. out (cc c) = msgs rs \<and> mset (seqs rs) = mset (seqs [(foo_header, 3 :: nat)])" by (simp add: DefaultOption_def)
  with run c(2) show ?thesis by (auto simp: foo_header_def)
qed

text \<open>
  C22. The debug page counts the calls: on a server with any number of connections, whatever they
  and \<open>Register\<close> have done, the page lists every service of the table once and each of its methods
  once, and as the number of calls of a method the number of calls that all the connections
  together have started (modulo \<open>2^64\<close>), in whatever order \<open>Range\<close> visits the table.
\<close>

theorem debug_page_counts_calls:
  assumes "reach (\<lambda>s. s = NewServer) (srv_step env) s" "distinct order" "set order = dom (serviceTable s)"
    and "serviceTable s sn = Some svc" "s_method svc mn = Some m"
  shows "\<exists>d. filter (\<lambda>d. ds_Name d = sn) (debug_range (serviceTable s) order []) = [d] \<and>
    filter (\<lambda>e. fst e = mn) (ds_Method d) = [(mn, m)] \<and> NumCalls m = of_nat (ncalls_started sn mn s)"
proof -
  have "shared_inv s" by (rule sh.reach_Inv [OF assms(1)])
  with assms(4,5) have "service_wf svc" "numCalls m = of_nat (ncalls_started sn mn s)"
    by (auto simp: shared_inv_def table_counts_def)
  with debug_page_entry [OF assms(2-4) _ assms(5)] show ?thesis by (simp add: NumCalls_def)
qed

lemma foo_started_run:
  "\<exists>s. reach (\<lambda>s. s = NewServer) (srv_step (\<lambda>t. foo_env)) s \<and> dom (serviceTable s) = {''Foo''} \<and>
     ncalls_started ''Foo'' ''Sum'' s = 1 \<and> (\<exists>svc m. serviceTable s ''Foo'' = Some svc \<and> s_method svc ''Sum'' = Some m)"
proof -
  let ?env = "\<lambda>t :: int. foo_env" and ?in = "[WHeader sum_header, WBody (VArgs 3 4)]"
  define c0 where "c0 = serveCodec foo_table (NewGobCodec ?in EOF)"
  define c1 where "c1 = c0\<lparr>cc := NewGobCodec [] EOF, hs := hs c0 @ [foo_handler SNew MWait], got := got c0 @ [Seq (r_h foo_request)]\<rparr>"
  define c2 where "c2 = (set_handler 0 (foo_handler SRun MWait) c1)\<lparr>smap := count_call (smap c1) foo_request\<rparr>"
  have "srv_step ?env NewServer \<lparr>serviceTable = foo_table, conns = []\<rparr>"
    using srv_register [of "NewServer :: goval server" "Ptr Foo_type" foo_methods None foo_table ?env] Register_foo
    by (simp add: NewServer_def srv_alive_def)
  moreover have "srv_step ?env \<lparr>serviceTable = foo_table, conns = []\<rparr> \<lparr>serviceTable = smap c0, conns = [(0, c0)]\<rparr>"
    using srv_accept [of "\<lparr>serviceTable = foo_table, conns = []\<rparr> :: goval server" ?env "Inr DefaultOption" ?in EOF]
    by (simp add: srv_alive_def opt_timeout_def DefaultOption_def ServeConn_def NewCodecFuncMap_def c0_def serveCodec_def)
  moreover have "serve_step foo_env c0 c1"
    unfolding c1_def foo_handler_def by (rule read_ok) (use foo_read in \<open>simp_all add: c0_def serveCodec_def\<close>)
  moreover have "serve_step foo_env c1 c2"
    using call_start [of c1 0 "foo_handler SNew MWait" foo_env] by (simp add: c2_def c1_def c0_def serveCodec_def foo_handler_def)
  ultimately have "(srv_step ?env)\<^sup>*\<^sup>* NewServer \<lparr>serviceTable = smap c2, conns = [(0, c2)]\<rparr>"
    using server_runs_conn [of ?env 0 c0 c2] by (meson converse_rtranclp_into_rtranclp r_into_rtranclp rtranclp_trans)
  then have "reach (\<lambda>s. s = NewServer) (srv_step ?env) \<lparr>serviceTable = smap c2, conns = [(0, c2)]\<rparr>"
    by (rule reach_rtranclp [OF reach_init [of "\<lambda>s. s = NewServer", OF refl]])
  moreover have "nstarted ''Foo'' ''Sum'' c2 = 1"
    by (simp add: nstarted_def started_def c2_def c1_def c0_def serveCodec_def foo_handler_def foo_request_def foo_svc_def
        method_of_def foo_method_def)
  moreover have "dom (smap c2) = {''Foo''}" "\<exists>svc m. smap c2 ''Foo'' = Some svc \<and> s_method svc ''Sum'' = Some m"
    by (auto simp: c2_def c1_def c0_def serveCodec_def count_call_def foo_request_def foo_svc_def method_of_def foo_method_def
        Let_def split: option.splits if_splits)
  ultimately show ?thesis by (intro exI [of _ "\<lparr>serviceTable = smap c2, conns = [(0, c2)]\<rparr>"]) (simp add: ncalls_started_def)
qed

theorem debug_page_counts_calls_witness:
  "\<exists>s d m. reach (\<lambda>s. s = NewServer) (srv_step (\<lambda>t. foo_env)) s \<and>
     filter (\<lambda>d. ds_Name d = ''Foo'') (debug_range (serviceTable s) [''Foo''] []) = [d] \<and>
     filter (\<lambda>e. fst e = ''Sum'') (ds_Method d) = [(''Sum'', m)] \<and> NumCalls m = 1"
proof -
  obtain s svc m where s: "reach (\<lambda>s. s = NewServer) (srv_step (\<lambda>t. foo_env)) s" "dom (serviceTable s) = {''Foo''}"
      "ncalls_started ''Foo'' ''Sum'' s = 1" "serviceTable s ''Foo'' = Some svc" "s_method svc ''Sum'' = Some m"
    using foo_started_run by (elim exE conjE) (rule that)
  have "distinct [''Foo'']" "set [''Foo''] = dom (serviceTable s)" using s(2) by simp_all
  from debug_page_counts_calls [OF s(1) this s(4,5)] have "\<exists>d. filter (\<lambda>d. ds_Name d = ''Foo'') (debug_range (serviceTable s) [''Foo''] []) = [d] \<and>
      filter (\<lambda>e. fst e = ''Sum'') (ds_Method d) = [(''Sum'', m)] \<and> NumCalls m = 1"
    unfolding s(3) of_nat_1 .
  with s(1) show ?thesis by blast
qed

end
