(* ===== verification/DataPack.thy ===== *)
theory DataPack
  imports Prelude
begin

text \<open>
  \<^verbatim>\<open>myzinx/znet/message.go\<close> and \<^verbatim>\<open>datapack.go\<close>: the frames of the TCP protocol. A
  connection is the list of chunks that successive reads return, since TCP may split and join
  what the peer wrote; the end of the list is the end of the stream.
\<close>

unbundle bit_operations_syntax

section \<open>Messages\<close>

record Message =
  Id :: u32
  DataLen :: u32
  Data :: bytes

definition NewMsgPackage :: "u32 \<Rightarrow> bytes \<Rightarrow> Message" where
  "NewMsgPackage i d = \<lparr>Id = i, DataLen = of_nat (length d), Data = d\<rparr>"

definition GetDataLen :: "Message \<Rightarrow> u32" where
  "GetDataLen m = DataLen m"

definition GetMsgId :: "Message \<Rightarrow> u32" where
  "GetMsgId m = Id m"

definition GetData :: "Message \<Rightarrow> bytes" where
  "GetData m = Data m"

definition SetDataLen :: "u32 \<Rightarrow> Message \<Rightarrow> Message" where
  "SetDataLen n m = m\<lparr>DataLen := n\<rparr>"

definition SetMsgId :: "u32 \<Rightarrow> Message \<Rightarrow> Message" where
  "SetMsgId i m = m\<lparr>Id := i\<rparr>"

definition SetData :: "bytes \<Rightarrow> Message \<Rightarrow> Message" where
  "SetData d m = m\<lparr>Data := d\<rparr>"

section \<open>Packing\<close>

definition GetHeadLen :: u32 where
  "GetHeadLen = 8"

text \<open>\<open>binary.Write\<close> and \<open>binary.Read\<close> of a \<open>uint32\<close> in little-endian order.\<close>

definition put_uint32 :: "u32 \<Rightarrow> bytes" where
  "put_uint32 w = [ucast w, ucast (drop_bit 8 w), ucast (drop_bit 16 w), ucast (drop_bit 24 w)]"

definition get_uint32 :: "bytes \<Rightarrow> u32" where
  "get_uint32 bs = ucast (bs ! 0) OR push_bit 8 (ucast (bs ! 1)) OR push_bit 16 (ucast (bs ! 2)) OR
     push_bit 24 (ucast (bs ! 3))"

text \<open>Writing to a \<open>bytes.Buffer\<close> does not fail.\<close>

definition Pack :: "Message \<Rightarrow> bytes" where
  "Pack m = put_uint32 (GetDataLen m) @ put_uint32 (GetMsgId m) @ GetData m"

section \<open>Unpacking\<close>

text \<open>
  A \<open>bufio.Reader\<close> with its buffer of 4096 bytes: \<open>fill buf cs n\<close> reads \<open>n\<close> bytes, those in the
  buffer first, then from the connection, whose reads return at most 4096 bytes of a chunk. The
  result has the bytes, the buffer and the connection afterwards. The stream may end before the
  first byte or after it.
\<close>

definition bufsize :: nat where
  "bufsize = 4096"

function fill :: "bytes \<Rightarrow> bytes list \<Rightarrow> nat \<Rightarrow> error + bytes \<times> bytes \<times> bytes list" where
  "fill buf cs n =
     (if n \<le> length buf then Inr (take n buf, drop n buf, cs)
      else
        (case cs of
           [] \<Rightarrow> Inl (if buf = [] then EOF else ErrUnexpectedEOF)
         | c # cs' \<Rightarrow>
             if length c \<le> bufsize then fill (buf @ c) cs' n
             else fill (buf @ take bufsize c) (drop bufsize c # cs') n))"
  by pat_completeness auto
termination
  by (relation "measure (\<lambda>(buf, cs, n). length (concat cs) + length cs)") (auto simp: bufsize_def)

declare fill.simps [simp del]

text \<open>
  \<open>Unpack\<close> reads through a new \<open>bufio.Reader\<close>, so what stays in its buffer is lost with it. On an
  error, \<open>fill\<close> has read the connection to its end.
\<close>

definition Unpack :: "u32 \<Rightarrow> bytes list \<Rightarrow> (error + Message) \<times> bytes list" where
  "Unpack MaxPackerSize conn =
     (case fill [] conn 4 of
        Inl e \<Rightarrow> (Inl e, [])
      | Inr (l, buf1, conn1) \<Rightarrow>
          (case fill buf1 conn1 4 of
             Inl e \<Rightarrow> (Inl e, [])
           | Inr (i, buf2, conn2) \<Rightarrow>
               (let len = get_uint32 l in
                if len < 0 \<or> len > MaxPackerSize then (Inl (Errorf ''Too large msg data recieved''), conn2)
                else
                  (case fill buf2 conn2 (unat len) of
                     Inl e \<Rightarrow> (Inl e, [])
                   | Inr (d, buf3, conn3) \<Rightarrow> (Inr \<lparr>Id = get_uint32 i, DataLen = len, Data = d\<rparr>, conn3)))))"

section \<open>Lemmas\<close>

lemma get_put_uint32 [simp]: "get_uint32 (put_uint32 w) = w"
proof (rule bit_word_eqI)
  fix n
  assume "n < LENGTH(32)"
  then consider "n < 8" | "8 \<le> n" "n < 16" | "16 \<le> n" "n < 24" | "24 \<le> n" "n < 32" by fastforce
  then show "bit (get_uint32 (put_uint32 w)) n = bit w n"
    by cases (simp_all add: get_uint32_def put_uint32_def bit_simps less_diff_conv2)
qed

lemma length_put_uint32 [simp]: "length (put_uint32 w) = 4"
  by (simp add: put_uint32_def)

text \<open>
  Reading bytes that are there: the bytes are those of the stream, in whatever chunks, and no more
  chunks are touched than needed.
\<close>

lemma fill_available:
  assumes "n \<le> length (buf @ concat cs)" "[] \<notin> set cs"
  shows "\<exists>buf' cs'. fill buf (cs @ rest) n = Inr (take n (buf @ concat cs), buf', cs' @ rest) \<and>
    buf' @ concat cs' = drop n (buf @ concat cs) \<and> [] \<notin> set cs'"
  using assms
proof (induction buf cs n rule: fill.induct)
  case (1 buf cs n)
  show ?case
  proof (cases "n \<le> length buf")
    case True
    then show ?thesis using "1.prems" by (subst fill.simps) auto
  next
    case False
    then obtain c cs' where cs: "cs = c # cs'" using "1.prems" by (cases cs) auto
    show ?thesis
    proof (cases "length c \<le> bufsize")
      case True
      from "1.IH"(1) [OF False cs True] "1.prems" cs True False show ?thesis by (subst fill.simps) simp
    next
      case long: False
      have eq: "(buf @ take bufsize c) @ concat (drop bufsize c # cs') = buf @ concat cs" by (simp add: cs)
      have "fill buf (cs @ rest) n = fill (buf @ take bufsize c) ((drop bufsize c # cs') @ rest) n"
        using cs long False by (subst fill.simps) simp
      with "1.IH"(2) [OF False cs long, unfolded eq] "1.prems" cs long show ?thesis by simp
    qed
  qed
qed

text \<open>The messages that \<open>NewMsgPackage\<close> makes and the receiver accepts.\<close>

definition well_formed :: "u32 \<Rightarrow> Message \<Rightarrow> bool" where
  "well_formed mx m \<longleftrightarrow> unat (DataLen m) = length (Data m) \<and> DataLen m \<le> mx"

lemma NewMsgPackage_well_formed:
  "length d \<le> unat mx \<Longrightarrow> well_formed mx (NewMsgPackage i d)"
  using unsigned_less [of mx, where 'a = nat]
  by (simp add: well_formed_def NewMsgPackage_def word_le_nat_alt unsigned_of_nat take_bit_nat_eq_self)

lemma Unpack_reads:
  assumes wf: "well_formed mx m" and cs: "concat cs = Pack m @ extra" "[] \<notin> set cs"
  shows "\<exists>buf cs'. Unpack mx (cs @ rest) = (Inr m, cs' @ rest) \<and> buf @ concat cs' = extra \<and> [] \<notin> set cs'"
proof -
  have len: "unat (DataLen m) = length (Data m)" "\<not> DataLen m > mx" using wf by (auto simp: well_formed_def)
  have t: "concat cs = put_uint32 (DataLen m) @ put_uint32 (Id m) @ Data m @ extra"
    using cs(1) by (simp add: Pack_def GetDataLen_def GetMsgId_def GetData_def)
  from fill_available [of 4 "[]" cs rest] t cs(2) obtain b1 c1 where
    1: "fill [] (cs @ rest) 4 = Inr (put_uint32 (DataLen m), b1, c1 @ rest)"
      "b1 @ concat c1 = put_uint32 (Id m) @ Data m @ extra" "[] \<notin> set c1" by auto
  from fill_available [of 4 b1 c1 rest] 1 obtain b2 c2 where
    2: "fill b1 (c1 @ rest) 4 = Inr (put_uint32 (Id m), b2, c2 @ rest)"
      "b2 @ concat c2 = Data m @ extra" "[] \<notin> set c2" by (auto simp del: append_eq_append_conv2)
  from fill_available [of "length (Data m)" b2 c2 rest] 2 obtain b3 c3 where
    3: "fill b2 (c2 @ rest) (length (Data m)) = Inr (Data m, b3, c3 @ rest)"
      "b3 @ concat c3 = extra" "[] \<notin> set c3" by auto
  have "Unpack mx (cs @ rest) = (Inr m, c3 @ rest)"
    using 1(1) 2(1) 3(1) len by (cases m) (simp add: Unpack_def Let_def word_less_nat_alt)
  with 3 show ?thesis by blast
qed

section \<open>The contract of a frame format\<close>

text \<open>
  What a reader relies on: a frame that arrives in any number of chunks of its own is unpacked to
  its message, and the chunks after it are left; the end of the stream is \<open>EOF\<close>.
\<close>

locale data_pack =
  fixes valid :: "'m \<Rightarrow> bool"
    and pack :: "'m \<Rightarrow> bytes"
    and unpack :: "bytes list \<Rightarrow> (error + 'm) \<times> bytes list"
  assumes unpack_frame: "valid m \<Longrightarrow> concat cs = pack m \<Longrightarrow> [] \<notin> set cs \<Longrightarrow> unpack (cs @ rest) = (Inr m, rest)"
    and unpack_end: "unpack [] = (Inl EOF, [])"
begin

text \<open>\<open>framed ms css\<close>: the groups of chunks \<open>css\<close> carry the messages \<open>ms\<close>.\<close>

definition framed :: "'m list \<Rightarrow> bytes list list \<Rightarrow> bool" where
  "framed ms css \<longleftrightarrow> list_all2 (\<lambda>m cs. valid m \<and> concat cs = pack m \<and> [] \<notin> set cs) ms css"

lemma framed_Cons:
  "framed (m # ms) css \<Longrightarrow> \<exists>cs css'. css = cs # css' \<and> unpack (concat css) = (Inr m, concat css') \<and> framed ms css'"
  by (auto simp: framed_def list_all2_Cons1 unpack_frame)

end

interpretation dp: data_pack "well_formed mx" Pack "Unpack mx" for mx
proof (unfold_locales, goal_cases)
  case (1 m cs rest)
  from Unpack_reads [OF 1(1), of cs "[]" rest] 1 obtain cs' where
    "Unpack mx (cs @ rest) = (Inr m, cs' @ rest)" "concat cs' = []" "[] \<notin> set cs'" by auto
  moreover from this have "cs' = []" by (cases cs') auto
  ultimately show ?case by simp
next
  case 2
  show ?case by (simp add: Unpack_def fill.simps)
qed

section \<open>Properties\<close>

text \<open>
  C18. A frame survives fragmentation: for data of at most the maximal packet size, if the bytes of
  the packed message arrive in any number of non-empty chunks, \<open>Unpack\<close> returns the message that
  was packed, and what follows in later chunks is left for the next call.
\<close>

theorem unpack_pack_fragmented:
  assumes "length d \<le> unat mx" "concat cs = Pack (NewMsgPackage i d)" "[] \<notin> set cs"
  shows "Unpack mx (cs @ rest) = (Inr (NewMsgPackage i d), rest)"
  by (rule dp.unpack_frame [OF NewMsgPackage_well_formed [OF assms(1)] assms(2,3)])

theorem unpack_pack_fragmented_witness:
  "Unpack 4096 [[3, 0], [0], [0, 7, 0, 0, 0, 65], [66, 67], [1]] = (Inr (NewMsgPackage 7 [65, 66, 67]), [[1]])"
  using unpack_pack_fragmented [of "[65, 66, 67]" 4096 "[[3, 0], [0], [0, 7, 0, 0, 0, 65], [66, 67]]" 7 "[[1]]"]
  by (simp add: Pack_def NewMsgPackage_def GetDataLen_def GetMsgId_def GetData_def put_uint32_def)

text \<open>
  C31. Joined frames are lost: if one read of the connection returns a frame together with the bytes
  that follow it, \<open>Unpack\<close> returns the message and drops the bytes, since they stay in the buffer
  of a \<open>bufio.Reader\<close> that the next call does not use.
\<close>

theorem unpack_drops_joined_bytes:
  assumes "length d \<le> unat mx" "length (Pack (NewMsgPackage i d) @ extra) \<le> bufsize"
  shows "Unpack mx ((Pack (NewMsgPackage i d) @ extra) # cs) = (Inr (NewMsgPackage i d), cs)"
proof -
  let ?m = "NewMsgPackage i d"
  have wf: "unat (DataLen ?m) = length (Data ?m)" "\<not> mx < DataLen ?m" "\<not> DataLen ?m < 0"
    using NewMsgPackage_well_formed [OF assms(1), of i] by (auto simp: well_formed_def word_less_nat_alt word_le_nat_alt)
  have p: "Pack ?m = put_uint32 (DataLen ?m) @ put_uint32 (Id ?m) @ Data ?m"
    by (simp add: Pack_def GetDataLen_def GetMsgId_def GetData_def)
  have 1: "fill [] ((Pack ?m @ extra) # cs) 4 = Inr (put_uint32 (DataLen ?m), put_uint32 (Id ?m) @ Data ?m @ extra, cs)"
    using assms(2) by (simp add: fill.simps [of "[]"] fill.simps [of "_ # _"] fill.simps [of "_ @ _"] p)
  have 2: "fill (put_uint32 (Id ?m) @ Data ?m @ extra) cs 4 = Inr (put_uint32 (Id ?m), Data ?m @ extra, cs)"
    by (simp add: fill.simps)
  have 3: "fill (Data ?m @ extra) cs (length (Data ?m)) = Inr (Data ?m, extra, cs)" by (simp add: fill.simps)
  show ?thesis using 1 2 3 wf by (cases ?m) (simp add: Unpack_def Let_def)
qed

theorem unpack_drops_joined_bytes_witness:
  "Unpack 4096 [Pack (NewMsgPackage 1 [65]) @ Pack (NewMsgPackage 2 [66])] = (Inr (NewMsgPackage 1 [65]), [])"
  using unpack_drops_joined_bytes [of "[65]" 4096 1 "Pack (NewMsgPackage 2 [66])" "[]"]
  by (simp add: Pack_def GetData_def bufsize_def NewMsgPackage_def)

end
