(* ===== verification/MsgHandler.thy ===== *)
theory MsgHandler
  imports DataPack GoLib
begin

text \<open>
  \<^verbatim>\<open>myzinx/utils/globalobj.go\<close>, \<^verbatim>\<open>znet/request.go\<close>, \<^verbatim>\<open>router.go\<close> and \<^verbatim>\<open>msghandler.go\<close>:
  the configuration, the routes from message ids to handlers, and the worker pool that runs them.
  A handler is caller code: a function on the application's state \<open>'w\<close>.
\<close>

section \<open>Configuration\<close>

record GlobalObj =
  g_Host :: string
  g_TcpPort :: int
  g_Name :: string
  g_Version :: string
  MaxPackerSize :: u32
  MaxConn :: int
  g_WorkerPoolSize :: u32
  MaxWorkerTaskLen :: u32
  ConfFilePath :: string

definition default_GlobalObject :: GlobalObj where
  "default_GlobalObject = \<lparr>g_Host = ''0.0.0.0'', g_TcpPort = 7777, g_Name = ''ZinxServerApp'', g_Version = ''tcp4'',
     MaxPackerSize = 4096, MaxConn = 12000, g_WorkerPoolSize = 10, MaxWorkerTaskLen = 1024,
     ConfFilePath = ''conf/zinx.json''\<rparr>"

text \<open>
  \<open>Reload\<close>: \<open>ReadFile\<close> gives the content of the file or an error, and \<open>Unmarshal\<close> overwrites the
  fields that the content names, or fails; either error is a panic.
\<close>

definition Reload :: "error + 'f \<Rightarrow> ('f \<Rightarrow> GlobalObj \<Rightarrow> error + GlobalObj) \<Rightarrow> GlobalObj \<Rightarrow> GlobalObj exec" where
  "Reload ReadFile Unmarshal g =
     (case ReadFile of
        Inl e \<Rightarrow> Panic (Error e)
      | Inr file \<Rightarrow> (case Unmarshal file g of Inl e \<Rightarrow> Panic (Error e) | Inr g' \<Rightarrow> Ret g'))"

text \<open>\<open>init\<close> of the package: the defaults, overwritten by the configuration file.\<close>

definition globals_init :: "error + 'f \<Rightarrow> ('f \<Rightarrow> GlobalObj \<Rightarrow> error + GlobalObj) \<Rightarrow> GlobalObj exec" where
  "globals_init ReadFile Unmarshal = Reload ReadFile Unmarshal default_GlobalObject"

section \<open>Requests and routers\<close>

text \<open>A request has its message and its connection, given by the connection's id.\<close>

record zrequest =
  z_conn :: u32
  z_msg :: Message

definition req_GetConnID :: "zrequest \<Rightarrow> u32" where
  "req_GetConnID r = z_conn r"

definition req_GetData :: "zrequest \<Rightarrow> bytes" where
  "req_GetData r = GetData (z_msg r)"

definition req_GetMsgId :: "zrequest \<Rightarrow> u32" where
  "req_GetMsgId r = GetMsgId (z_msg r)"

record 'w IRouter =
  PreHandle :: "zrequest \<Rightarrow> 'w \<Rightarrow> 'w"
  Handle :: "zrequest \<Rightarrow> 'w \<Rightarrow> 'w"
  PostHandle :: "zrequest \<Rightarrow> 'w \<Rightarrow> 'w"

definition BaseRouter :: "'w IRouter" where
  "BaseRouter = \<lparr>PreHandle = (\<lambda>r w. w), Handle = (\<lambda>r w. w), PostHandle = (\<lambda>r w. w)\<rparr>"

section \<open>The message handler\<close>

text \<open>A task queue is nil until its first task; then it is a channel with the queued requests.\<close>

record 'w MsgHandle =
  Apis :: "u32 \<Rightarrow> 'w IRouter option"
  WorkerPoolSize :: u32
  TaskQueue :: "zrequest list option list"
  IsopenWorkerPool :: bool

definition NewMsgHandle :: "GlobalObj \<Rightarrow> 'w MsgHandle" where
  "NewMsgHandle g = \<lparr>Apis = Map.empty, WorkerPoolSize = g_WorkerPoolSize g,
     TaskQueue = replicate (unat (g_WorkerPoolSize g)) None, IsopenWorkerPool = False\<rparr>"

definition DoMsgHandle :: "'w MsgHandle \<Rightarrow> zrequest \<Rightarrow> 'w \<Rightarrow> 'w" where
  "DoMsgHandle mh req w =
     (case Apis mh (req_GetMsgId req) of
        None \<Rightarrow> w
      | Some handler \<Rightarrow> PostHandle handler req (Handle handler req (PreHandle handler req w)))"

definition AddRouter :: "'w MsgHandle \<Rightarrow> u32 \<Rightarrow> 'w IRouter \<Rightarrow> 'w MsgHandle exec" where
  "AddRouter mh msgID router =
     (if Apis mh msgID \<noteq> None then Panic (''repeated api , msgId = '' @ Itoa (unat msgID))
      else Ret (mh\<lparr>Apis := (Apis mh)(msgID \<mapsto> router)\<rparr>))"

definition StartWorkerPool :: "'w MsgHandle \<Rightarrow> 'w MsgHandle" where
  "StartWorkerPool mh = (if IsopenWorkerPool mh then mh else mh\<lparr>IsopenWorkerPool := True\<rparr>)"

definition IsOpen :: "'w MsgHandle \<Rightarrow> bool" where
  "IsOpen mh = IsopenWorkerPool mh"

text \<open>A send to a full channel waits, which is \<^const>\<open>Hang\<close> for the sender until a worker takes a task.\<close>

definition SendMsgToTaskQueue :: "GlobalObj \<Rightarrow> 'w MsgHandle \<Rightarrow> zrequest \<Rightarrow> 'w MsgHandle exec" where
  "SendMsgToTaskQueue g mh req =
     (if WorkerPoolSize mh = 0 then Panic ''integer divide by zero''
      else
        (let workerID = unat (req_GetConnID req mod WorkerPoolSize mh) in
         if length (TaskQueue mh) \<le> workerID then Panic ''index out of range''
         else
           (let queue = (case TaskQueue mh ! workerID of None \<Rightarrow> [] | Some q \<Rightarrow> q) in
            if unat (MaxWorkerTaskLen g) \<le> length queue then Hang
            else Ret (mh\<lparr>TaskQueue := (TaskQueue mh)[workerID := Some (queue @ [req])]\<rparr>))))"

section \<open>The worker pool\<close>

text \<open>
  Readers submit requests and workers handle them, in any interleaving. A worker takes the next
  request of its own queue and handles it before it takes another.
\<close>

record 'w pool =
  mh :: "'w MsgHandle"
  app :: 'w
  submitted :: "zrequest list"
  handled :: "zrequest list"

definition StartOneWorker :: "nat \<Rightarrow> 'w pool \<Rightarrow> 'w pool option" where
  "StartOneWorker i s =
     (if i < length (TaskQueue (mh s)) then
        (case TaskQueue (mh s) ! i of
           Some (req # q) \<Rightarrow>
             Some (s\<lparr>mh := (mh s)\<lparr>TaskQueue := (TaskQueue (mh s))[i := Some q]\<rparr>,
                     app := DoMsgHandle (mh s) req (app s), handled := handled s @ [req]\<rparr>)
         | _ \<Rightarrow> None)
      else None)"

inductive pool_step :: "GlobalObj \<Rightarrow> 'w pool \<Rightarrow> 'w pool \<Rightarrow> bool" for g :: GlobalObj where
  submit: "SendMsgToTaskQueue g (mh s) req = Ret m \<Longrightarrow>
    pool_step g s (s\<lparr>mh := m, submitted := submitted s @ [req]\<rparr>)"
| worker: "StartOneWorker i s = Some t \<Longrightarrow> pool_step g s t"

definition pool_start :: "GlobalObj \<Rightarrow> (u32 \<Rightarrow> 'w IRouter option) \<Rightarrow> 'w \<Rightarrow> 'w pool \<Rightarrow> bool" where
  "pool_start g apis w s \<longleftrightarrow>
     s = \<lparr>mh = (StartWorkerPool (NewMsgHandle g))\<lparr>Apis := apis\<rparr>, app = w, submitted = [], handled = []\<rparr>"

text \<open>The requests queued for a worker, and those of one connection in a list of requests.\<close>

definition queued :: "'w MsgHandle \<Rightarrow> nat \<Rightarrow> zrequest list" where
  "queued m i = (case TaskQueue m ! i of None \<Rightarrow> [] | Some q \<Rightarrow> q)"

definition of_conn :: "u32 \<Rightarrow> zrequest list \<Rightarrow> zrequest list" where
  "of_conn c rs = filter (\<lambda>r. z_conn r = c) rs"

lemma of_conn_append [simp]: "of_conn c (xs @ ys) = of_conn c xs @ of_conn c ys"
  by (simp add: of_conn_def)

definition worker_of :: "'w MsgHandle \<Rightarrow> u32 \<Rightarrow> nat" where
  "worker_of m c = unat (c mod WorkerPoolSize m)"

definition pool_inv :: "(u32 \<Rightarrow> 'w IRouter option) \<Rightarrow> 'w \<Rightarrow> 'w pool \<Rightarrow> bool" where
  [invs]: "pool_inv apis w s \<longleftrightarrow> Apis (mh s) = apis \<and>
     (\<forall>i < length (TaskQueue (mh s)). \<forall>r \<in> set (queued (mh s) i). worker_of (mh s) (z_conn r) = i) \<and>
     (\<forall>c. worker_of (mh s) c < length (TaskQueue (mh s)) \<longrightarrow>
        of_conn c (submitted s) = of_conn c (handled s) @ of_conn c (queued (mh s) (worker_of (mh s) c))) \<and>
     app s = fold (DoMsgHandle (mh s)) (handled s) w"

lemma queued_update:
  "i < length (TaskQueue m) \<Longrightarrow>
     queued (m\<lparr>TaskQueue := (TaskQueue m)[i := Some q]\<rparr>) j = (if j = i then q else queued m j)"
  by (simp add: queued_def)

lemma DoMsgHandle_queue [simp]: "DoMsgHandle (m\<lparr>TaskQueue := x\<rparr>) = DoMsgHandle m"
  by (simp add: DoMsgHandle_def fun_eq_iff)

lemma worker_of_queue [simp]: "worker_of (m\<lparr>TaskQueue := x\<rparr>) = worker_of m"
  by (simp add: worker_of_def fun_eq_iff)

lemma Apis_DoMsgHandle: "Apis m = Apis m' \<Longrightarrow> DoMsgHandle m = DoMsgHandle m'"
  by (simp add: DoMsgHandle_def fun_eq_iff)

lemma pool_inv_submit:
  assumes "pool_inv apis w s" "SendMsgToTaskQueue g (mh s) req = Ret m"
  shows "pool_inv apis w (s\<lparr>mh := m, submitted := submitted s @ [req]\<rparr>)"
proof -
  let ?i = "worker_of (mh s) (z_conn req)"
  have i: "?i < length (TaskQueue (mh s))"
      "m = (mh s)\<lparr>TaskQueue := (TaskQueue (mh s))[?i := Some (queued (mh s) ?i @ [req])]\<rparr>"
    using assms(2) by (auto simp: SendMsgToTaskQueue_def worker_of_def req_GetConnID_def queued_def Let_def split: if_splits)
  have "of_conn c (submitted s @ [req]) = of_conn c (handled s) @ of_conn c (queued m (worker_of (mh s) c))"
    if "worker_of (mh s) c < length (TaskQueue (mh s))" for c
  proof -
    have "of_conn c (submitted s) = of_conn c (handled s) @ of_conn c (queued (mh s) (worker_of (mh s) c))"
      using assms(1) that by (simp add: pool_inv_def)
    moreover have "of_conn c [req] = []" if "worker_of (mh s) c \<noteq> ?i" using that by (auto simp: of_conn_def)
    ultimately show ?thesis unfolding i(2) queued_update [OF i(1)] by auto
  qed
  with assms(1) i show ?thesis by (auto simp: pool_inv_def queued_update)
qed

lemma pool_inv_worker:
  assumes "pool_inv apis w s" "StartOneWorker i s = Some t"
  shows "pool_inv apis w t"
proof -
  from assms(2) obtain req q where i: "i < length (TaskQueue (mh s))" "TaskQueue (mh s) ! i = Some (req # q)"
      "t = s\<lparr>mh := (mh s)\<lparr>TaskQueue := (TaskQueue (mh s))[i := Some q]\<rparr>,
             app := DoMsgHandle (mh s) req (app s), handled := handled s @ [req]\<rparr>"
    by (auto simp: StartOneWorker_def split: if_splits option.splits list.splits)
  have q: "queued (mh s) i = req # q" using i(2) by (simp add: queued_def)
  have w: "worker_of (mh s) (z_conn req) = i" using assms(1) i(1) q by (auto simp: pool_inv_def)
  have "of_conn c (submitted s) = of_conn c (handled s @ [req]) @
      of_conn c (if worker_of (mh s) c = i then q else queued (mh s) (worker_of (mh s) c))"
    if "worker_of (mh s) c < length (TaskQueue (mh s))" for c
    using assms(1) that q w by (auto simp: pool_inv_def of_conn_def)
  with assms(1) i q show ?thesis by (auto simp: pool_inv_def queued_update)
qed

interpretation wp: inductive_invariant "pool_start g apis w" "pool_step g" "pool_inv apis w" for g apis w
proof (unfold_locales, goal_cases)
  case (1 s)
  then show ?case
    by (auto simp: pool_start_def pool_inv_def StartWorkerPool_def NewMsgHandle_def queued_def of_conn_def)
next
  case (2 s t)
  from 2(2,1) show ?case by (induction rule: pool_step.induct) (auto intro: pool_inv_submit pool_inv_worker)
qed

lemma pool_frame:
  assumes "reach (pool_start g apis w) (pool_step g) s"
  shows "length (TaskQueue (mh s)) = unat (g_WorkerPoolSize g) \<and> WorkerPoolSize (mh s) = g_WorkerPoolSize g"
  using assms
proof (induction rule: reach.induct)
  case (reach_init s)
  then show ?case by (simp add: pool_start_def StartWorkerPool_def NewMsgHandle_def)
next
  case (reach_step s t)
  from reach_step(2,3) show ?case
    by (induction rule: pool_step.induct)
      (auto simp: SendMsgToTaskQueue_def StartOneWorker_def Let_def split: if_splits option.splits list.splits)
qed

section \<open>Properties\<close>

text \<open>
  The queues are first in, first out: in every reachable state of a pool with at least one worker,
  with \<open>SendMsgToTaskQueue\<close> and the handling of a request each as one step, the requests of a connection that have been handled, followed by those of
  them still in the queue of its worker, are the requests it submitted, in that order; and the
  application's state is the result of running the handlers of the handled requests one after
  the other.
\<close>

lemma worker_pool_fifo:
  assumes "reach (pool_start g apis w) (pool_step g) s" "g_WorkerPoolSize g \<noteq> 0"
  shows "of_conn c (submitted s) =
      of_conn c (handled s) @ of_conn c (queued (mh s) (unat (c mod g_WorkerPoolSize g))) \<and>
    app s = fold (DoMsgHandle (mh s)) (handled s) w"
proof -
  have "unat (c mod g_WorkerPoolSize g) < unat (g_WorkerPoolSize g)"
    using assms(2) by (simp add: unat_mod unat_gt_0)
  with wp.reach_Inv [OF assms(1)] pool_frame [OF assms(1)] show ?thesis
    by (simp add: pool_inv_def worker_of_def)
qed

end
