(* ===== verification/ZConnection.thy ===== *)
theory ZConnection
  imports MsgHandler
begin

text \<open>
  \<^verbatim>\<open>myzinx/znet/connection.go\<close> and \<^verbatim>\<open>server.go\<close>: a connection with its reader and writer
  goroutines, and the server that makes connections. The state of \<open>ExitChan\<close> (a channel with room
  for one value) decides whether the reader goes on, waits or panics, so it is part of the
  connection: the goroutines waiting for a value on it, its buffer, and whether it is closed.
\<close>

section \<open>Connections\<close>

record Connection =
  Conn :: "bytes list"       \<comment> \<open>the chunks that reads of the socket will return\<close>
  ConnID :: u32
  isClosed :: bool
  tcp_closed :: bool
  exit_closed :: bool
  exit_buf :: nat
  starter :: bool            \<comment> \<open>\<open>Start\<close> waits on \<open>ExitChan\<close>\<close>
  writer :: bool             \<comment> \<open>\<open>startWriter\<close> runs, waiting for data or on \<open>ExitChan\<close>\<close>
  written :: "bytes list"    \<comment> \<open>what the writer has written to the socket\<close>

definition NewConnection :: "bytes list \<Rightarrow> u32 \<Rightarrow> Connection" where
  "NewConnection conn connID = \<lparr>Conn = conn, ConnID = connID, isClosed = False, tcp_closed = False,
     exit_closed = False, exit_buf = 0, starter = False, writer = False, written = []\<rparr>"

text \<open>\<open>Start\<close> starts the two goroutines and waits itself.\<close>

definition conn_Start :: "Connection \<Rightarrow> Connection" where
  "conn_Start c = c\<lparr>starter := True, writer := True\<rparr>"

text \<open>Closing \<open>ExitChan\<close> wakes everyone who waits on it; closing it twice would panic.\<close>

definition conn_Stop :: "Connection \<Rightarrow> Connection exec" where
  "conn_Stop c =
     (if isClosed c then Ret c
      else if exit_closed c then Panic ''close of closed channel''
      else Ret (c\<lparr>isClosed := True, tcp_closed := True, exit_closed := True, starter := False, writer := False\<rparr>))"

text \<open>
  \<open>c.ExitChan <- true\<close>: a waiting goroutine receives the value and returns (\<open>w\<close> says which, if both
  wait); otherwise it goes into the buffer, or the sender waits.
\<close>

definition exit_send :: "bool \<Rightarrow> Connection \<Rightarrow> Connection exec" where
  "exit_send w c =
     (if exit_closed c then Panic ''send on closed channel''
      else if writer c \<and> (w \<or> \<not> starter c) then Ret (c\<lparr>writer := False\<rparr>)
      else if starter c then Ret (c\<lparr>starter := False\<rparr>)
      else if exit_buf c = 0 then Ret (c\<lparr>exit_buf := 1\<rparr>)
      else Hang)"

text \<open>\<open>SendMsg\<close>: the send on the unbuffered \<open>msgChan\<close> waits for the writer, which writes the bytes.\<close>

definition SendMsg :: "Connection \<Rightarrow> u32 \<Rightarrow> bytes \<Rightarrow> (error option \<times> Connection) exec" where
  "SendMsg c msgID d =
     (if isClosed c then Ret (Some (Errorf ''Connection closed when send msg''), c)
      else if writer c then Ret (None, c\<lparr>written := written c @ [Pack (NewMsgPackage msgID d)]\<rparr>)
      else Hang)"

text \<open>A read from a closed socket fails, and leaves what has not been read.\<close>

definition conn_Unpack :: "u32 \<Rightarrow> Connection \<Rightarrow> (error + Message) \<times> Connection" where
  "conn_Unpack mx c =
     (if tcp_closed c then (Inl (Errorf ''use of closed network connection''), c)
      else (case Unpack mx (Conn c) of (r, rest) \<Rightarrow> (r, c\<lparr>Conn := rest\<rparr>)))"

lemma fill_size:
  assumes "fill buf cs n = Inr (x, buf', cs')"
  shows "length (concat cs') + length cs' \<le> length (concat cs) + length cs \<and>
    (length buf < n \<longrightarrow> length (concat cs') + length cs' < length (concat cs) + length cs)"
  using assms
proof (induction buf cs n rule: fill.induct)
  case (1 buf cs n)
  show ?case
  proof (cases "n \<le> length buf")
    case True
    with "1.prems" show ?thesis by (simp add: fill.simps [of buf])
  next
    case False
    with "1.prems" obtain c cs0 where cs: "cs = c # cs0" by (cases cs) (auto simp: fill.simps [of buf])
    show ?thesis
    proof (cases "length c \<le> bufsize")
      case True
      with "1.IH"(1) [OF False cs True] "1.prems" False cs show ?thesis by (fastforce simp: fill.simps [of buf])
    next
      case long: False
      with "1.IH"(2) [OF False cs long] "1.prems" False cs show ?thesis
        by (fastforce simp: fill.simps [of buf] bufsize_def)
    qed
  qed
qed

definition conn_size :: "bytes list \<Rightarrow> nat" where
  "conn_size cs = length (concat cs) + length cs"

lemma Unpack_size:
  assumes "Unpack mx cs = (r, rest)" "r \<noteq> Inl EOF"
  shows "conn_size rest < conn_size cs"
proof (cases "fill [] cs 4")
  case (Inl e)
  with assms have "e \<noteq> EOF" "rest = []" by (auto simp: Unpack_def)
  moreover from this Inl have "cs \<noteq> []" by (auto simp: fill.simps [of "[]" "[]"])
  ultimately show ?thesis by (simp add: conn_size_def)
next
  case (Inr x)
  obtain l b1 c1 where x: "x = (l, b1, c1)" by (cases x)
  have 1: "conn_size c1 < conn_size cs" using fill_size [OF Inr [unfolded x]] by (simp add: conn_size_def)
  then have 0: "conn_size [] < conn_size cs" by (cases cs) (auto simp: conn_size_def)
  show ?thesis
  proof (cases "fill b1 c1 4")
    case (Inl e)
    with 0 Inr x assms(1) show ?thesis by (auto simp: Unpack_def)
  next
    case Inr2: (Inr y)
    obtain i b2 c2 where y: "y = (i, b2, c2)" by (cases y)
    have 2: "conn_size c2 \<le> conn_size c1" using fill_size [OF Inr2 [unfolded y]] by (simp add: conn_size_def)
    show ?thesis
    proof (cases "fill b2 c2 (unat (get_uint32 l))")
      case (Inl e)
      with 0 1 2 Inr x Inr2 y assms(1) show ?thesis by (auto simp: Unpack_def Let_def split: if_splits)
    next
      case Inr3: (Inr z)
      obtain d b3 c3 where z: "z = (d, b3, c3)" by (cases z)
      have 3: "conn_size c3 \<le> conn_size c2" using fill_size [OF Inr3 [unfolded z]] by (simp add: conn_size_def)
      with 1 2 Inr x Inr2 y z Inr3 assms(1) show ?thesis by (auto simp: Unpack_def Let_def split: if_splits)
    qed
  qed
qed

section \<open>The reader\<close>

text \<open>
  \<open>StartReader\<close>: the requests it hands to the message handler, in order, and the connection when it
  returns. Every failed \<open>Unpack\<close> sends to \<open>ExitChan\<close>; only the end of the stream leaves the loop,
  and the deferred \<open>Stop\<close> runs then. The loop ends because every message and every other error
  consumes input or a place in \<open>ExitChan\<close>.
\<close>

definition exit_room :: "Connection \<Rightarrow> nat" where
  "exit_room c = (if exit_closed c then 0 else of_bool (writer c) + of_bool (starter c) + (1 - exit_buf c))"

lemma exit_send_room:
  "exit_send w c = Ret c' \<Longrightarrow> exit_room c' < exit_room c \<and> Conn c' = Conn c \<and> tcp_closed c' = tcp_closed c"
  by (auto simp: exit_send_def exit_room_def split: if_splits)

lemma conn_Unpack_size:
  assumes "conn_Unpack mx c = (r, c')" "r \<noteq> Inl EOF"
  shows "conn_size (Conn c') < conn_size (Conn c) \<and> exit_room c' = exit_room c \<or> c' = c \<and> (\<exists>e. r = Inl e)"
  using assms Unpack_size [of mx "Conn c"]
  by (auto simp: conn_Unpack_def exit_room_def split: if_splits prod.splits)

function StartReader :: "u32 \<Rightarrow> bool \<Rightarrow> Connection \<Rightarrow> (zrequest list \<times> Connection) exec" where
  "StartReader mx w c =
     (case conn_Unpack mx c of
        (Inr msg, c1) \<Rightarrow>
          bind_exec (StartReader mx w c1) (\<lambda>(rs, c2). Ret (\<lparr>z_conn = ConnID c1, z_msg = msg\<rparr> # rs, c2))
      | (Inl e, c1) \<Rightarrow>
          (case exit_send w c1 of
             Ret c2 \<Rightarrow> if e = EOF then bind_exec (conn_Stop c2) (\<lambda>c3. Ret ([], c3)) else StartReader mx w c2
           | Panic m \<Rightarrow> Panic m
           | Hang \<Rightarrow> Hang))"
  by pat_completeness auto
termination
proof (relation "measure (\<lambda>(mx, w, c). conn_size (Conn c) + exit_room c)", goal_cases)
  case (2 mx w c p c1 e c2)
  then have u: "conn_Unpack mx c = (Inl e, c1)" and s: "exit_send w c1 = Ret c2" and e: "e \<noteq> EOF" by simp_all
  from conn_Unpack_size [OF u] e exit_send_room [OF s] show ?case by auto
next
  case (3 mx w c p c1 msg)
  then have "conn_Unpack mx c = (Inr msg, c1)" by simp
  from conn_Unpack_size [OF this] show ?case by auto
qed simp

declare StartReader.simps [simp del]

section \<open>The server\<close>

record 'w ZServer =
  s_Name :: string
  s_IPVersion :: string
  s_IP :: string
  s_Port :: int
  s_msgHandler :: "'w MsgHandle"

text \<open>\<open>NewServer\<close> reloads the configuration and takes everything from it, its name too.\<close>

definition znet_NewServer ::
  "error + 'f \<Rightarrow> ('f \<Rightarrow> GlobalObj \<Rightarrow> error + GlobalObj) \<Rightarrow> GlobalObj \<Rightarrow> string \<Rightarrow> (GlobalObj \<times> 'w ZServer) exec" where
  "znet_NewServer ReadFile Unmarshal g nm =
     bind_exec (Reload ReadFile Unmarshal g) (\<lambda>g.
       Ret (g, \<lparr>s_Name = g_Name g, s_IPVersion = g_Version g, s_IP = g_Host g, s_Port = g_TcpPort g,
                s_msgHandler = NewMsgHandle g\<rparr>))"

definition server_AddRouter :: "'w ZServer \<Rightarrow> u32 \<Rightarrow> 'w IRouter \<Rightarrow> 'w ZServer exec" where
  "server_AddRouter s i r = bind_exec (AddRouter (s_msgHandler s) i r) (\<lambda>m. Ret (s\<lparr>s_msgHandler := m\<rparr>))"

text \<open>
  The accept loop of \<open>Start\<close> on a sequence of results of \<open>AcceptTCP\<close>: the connections it starts,
  numbered from \<open>cid\<close>; a failed accept is skipped.
\<close>

fun accept_loop :: "u32 \<Rightarrow> (error + bytes list) list \<Rightarrow> Connection list" where
  "accept_loop cid [] = []"
| "accept_loop cid (Inl e # rs) = accept_loop cid rs"
| "accept_loop cid (Inr conn # rs) = conn_Start (NewConnection conn cid) # accept_loop (cid + 1) rs"

definition server_Start :: "'w ZServer \<Rightarrow> (error + bytes list) list \<Rightarrow> 'w ZServer \<times> Connection list" where
  "server_Start s accepts =
     (s\<lparr>s_msgHandler := StartWorkerPool (s_msgHandler s)\<rparr>, accept_loop 0 accepts)"

section \<open>Properties\<close>

lemma StartReader_framed:
  assumes "dp.framed mx ms css" "Conn c = concat css" "\<not> tcp_closed c" "\<not> isClosed c" "\<not> exit_closed c" "starter c"
  shows "\<exists>c'. StartReader mx w c = Ret (map (\<lambda>m. \<lparr>z_conn = ConnID c, z_msg = m\<rparr>) ms, c') \<and> isClosed c'"
  using assms
proof (induction ms arbitrary: css c)
  case Nil
  then have "css = []" by (simp add: dp.framed_def)
  with Nil have "conn_Unpack mx c = (Inl EOF, c)" by (simp add: conn_Unpack_def dp.unpack_end)
  moreover obtain c1 where "exit_send w c = Ret c1" "\<not> isClosed c1" "\<not> exit_closed c1"
    using Nil by (cases "writer c \<and> w") (auto simp: exit_send_def)
  ultimately show ?case by (subst StartReader.simps) (simp add: conn_Stop_def)
next
  case (Cons m ms)
  from dp.framed_Cons [OF Cons.prems(1)] obtain cs css' where
    f: "Unpack mx (concat css) = (Inr m, concat css')" "dp.framed mx ms css'" by blast
  let ?c = "c\<lparr>Conn := concat css'\<rparr>"
  have "conn_Unpack mx c = (Inr m, ?c)" using f Cons.prems by (simp add: conn_Unpack_def)
  moreover obtain c' where "StartReader mx w ?c = Ret (map (\<lambda>m. \<lparr>z_conn = ConnID c, z_msg = m\<rparr>) ms, c')" "isClosed c'"
    using Cons.IH [OF f(2), of ?c] Cons.prems by auto
  ultimately show ?case by (subst StartReader.simps) simp
qed

lemma framed_packages:
  assumes "list_all2 (\<lambda>(i, d) cs. length d \<le> unat mx \<and> concat cs = Pack (NewMsgPackage i d) \<and> [] \<notin> set cs) ps css"
  shows "dp.framed mx (map (\<lambda>(i, d). NewMsgPackage i d) ps) css"
  using assms unfolding dp.framed_def list.rel_map
  by (rule list_all2_mono) (auto intro: NewMsgPackage_well_formed)

text \<open>
  The reader hands over every message in order: on a started connection whose peer sends packed
  messages, each of at most the maximal size and in chunks of its own, the reader dispatches
  exactly those messages, in the order they were sent, and closes the connection at the end of the
  stream.
\<close>

lemma reader_dispatches_in_order:
  assumes "list_all2 (\<lambda>(i, d) cs. length d \<le> unat mx \<and> concat cs = Pack (NewMsgPackage i d) \<and> [] \<notin> set cs) ps css"
  shows "\<exists>c'. StartReader mx w (conn_Start (NewConnection (concat css) cid)) =
    Ret (map (\<lambda>(i, d). \<lparr>z_conn = cid, z_msg = NewMsgPackage i d\<rparr>) ps, c') \<and> isClosed c'"
  using StartReader_framed [OF framed_packages [OF assms], of "conn_Start (NewConnection (concat css) cid)" w]
  by (simp add: conn_Start_def NewConnection_def comp_def case_prod_beta cong: map_cong)

text \<open>
  C33. Stopping a connection crashes the process: once \<open>Stop\<close> has been called from outside the
  reader, the reader's next \<open>Unpack\<close> fails and its send to the closed \<open>ExitChan\<close> panics.
\<close>

theorem reader_panics_after_Stop:
  assumes "\<not> isClosed c" "\<not> exit_closed c" "conn_Stop c = Ret c'"
  shows "StartReader mx w c' = Panic ''send on closed channel''"
proof -
  have "tcp_closed c'" "exit_closed c'" using assms by (auto simp: conn_Stop_def)
  then show ?thesis by (subst StartReader.simps) (simp add: conn_Unpack_def exit_send_def)
qed

theorem reader_panics_after_Stop_witness:
  "\<exists>c'. conn_Stop (conn_Start (NewConnection [[1]] 0)) = Ret c' \<and> StartReader 4096 True c' = Panic ''send on closed channel''"
proof -
  let ?c = "conn_Start (NewConnection [[1]] 0)"
  have c: "\<not> isClosed ?c" "\<not> exit_closed ?c" by (simp_all add: conn_Start_def NewConnection_def)
  then obtain c' where "conn_Stop ?c = Ret c'" by (auto simp: conn_Stop_def)
  with reader_panics_after_Stop [OF c this] show ?thesis by blast
qed

end
