(* ===== verification/ZGoroutines.thy ===== *)
theory ZGoroutines
  imports ZConnection "HOL-Library.Multiset"
begin

text \<open>
  The goroutines of a connection of \<^verbatim>\<open>myzinx/znet/connection.go\<close> running together: the reader
  (\<open>StartReader\<close>), the writer (\<open>startWriter\<close>), \<open>Start\<close>, which waits for the end, and the handlers
  that call \<open>SendMsg\<close> or \<open>Stop\<close>. They meet at \<open>ExitChan\<close>, which has room for one value, and at the
  unbuffered \<open>msgChan\<close>, where a send and its receive are one step. A step is one interaction with
  a channel, the socket or the state of the connection.
\<close>

section \<open>State\<close>

datatype zreader =
    RdUnpack           \<comment> \<open>in \<open>Unpack\<close>\<close>
  | RdExit error       \<comment> \<open>at \<open>c.ExitChan <- true\<close> after this error\<close>
  | RdStop             \<comment> \<open>in the deferred \<open>Stop\<close>\<close>
  | RdEnd

datatype zwriter =
    WrSelect           \<comment> \<open>in the \<open>select\<close>\<close>
  | WrWrite bytes      \<comment> \<open>in \<open>c.Conn.Write\<close>\<close>
  | WrEnd

datatype zsender =
    SdCheck u32 bytes        \<comment> \<open>called \<open>SendMsg\<close>\<close>
  | SdChan bytes             \<comment> \<open>at \<open>c.msgChan <- msg\<close>\<close>
  | SdDone bytes "error option"  \<comment> \<open>returned; the frame, empty when there was none\<close>

text \<open>
  \<open>z_in\<close> has the chunks that reads of the socket return, \<open>z_sock\<close> the frames written to it;
  \<open>z_dispatched\<close> records the requests given to the message handler and \<open>z_taken\<close> the frames that the
  writer has received.
\<close>

record zsys =
  z_id :: u32
  z_in :: "bytes list"
  z_rd :: zreader
  z_wr :: zwriter
  z_start :: bool
  z_exit_buf :: bool
  z_exit_closed :: bool
  z_isClosed :: bool
  z_tcp_closed :: bool
  z_senders :: "zsender list"
  z_sock :: "bytes list"
  z_taken :: "bytes list"
  z_dispatched :: "zrequest list"
  z_crashed :: bool

definition z_init :: "u32 \<Rightarrow> bytes list \<Rightarrow> zsys" where
  "z_init cid chunks = \<lparr>z_id = cid, z_in = chunks, z_rd = RdUnpack, z_wr = WrSelect, z_start = True,
     z_exit_buf = False, z_exit_closed = False, z_isClosed = False, z_tcp_closed = False, z_senders = [],
     z_sock = [], z_taken = [], z_dispatched = [], z_crashed = False\<rparr>"

section \<open>Steps\<close>

text \<open>A read of the next message; a closed socket gives an error of its own.\<close>

definition z_Unpack :: "u32 \<Rightarrow> zsys \<Rightarrow> (error + Message) \<times> bytes list" where
  "z_Unpack mx s = (if z_tcp_closed s then (Inl (Errorf ''use of closed network connection''), z_in s) else Unpack mx (z_in s))"

definition z_Stop :: "zsys \<Rightarrow> zsys" where
  "z_Stop s =
     (if z_isClosed s then s
      else if z_exit_closed s then s\<lparr>z_isClosed := True, z_tcp_closed := True, z_crashed := True\<rparr>
      else s\<lparr>z_isClosed := True, z_tcp_closed := True, z_exit_closed := True\<rparr>)"

text \<open>\<open>ExitChan\<close> has a value, or is closed.\<close>

definition exit_ready :: "zsys \<Rightarrow> bool" where
  "exit_ready s \<longleftrightarrow> z_exit_buf s \<or> z_exit_closed s"

definition set_sender :: "nat \<Rightarrow> zsender \<Rightarrow> zsys \<Rightarrow> zsys" where
  "set_sender i x s = s\<lparr>z_senders := (z_senders s)[i := x]\<rparr>"

inductive z_step :: "u32 \<Rightarrow> zsys \<Rightarrow> zsys \<Rightarrow> bool" for mx :: u32 where
  rd_msg: "\<not> z_crashed s \<Longrightarrow> z_rd s = RdUnpack \<Longrightarrow> z_Unpack mx s = (Inr m, rest) \<Longrightarrow>
    z_step mx s (s\<lparr>z_in := rest, z_dispatched := z_dispatched s @ [\<lparr>z_conn = z_id s, z_msg = m\<rparr>]\<rparr>)"
| rd_err: "\<not> z_crashed s \<Longrightarrow> z_rd s = RdUnpack \<Longrightarrow> z_Unpack mx s = (Inl e, rest) \<Longrightarrow>
    z_step mx s (s\<lparr>z_in := rest, z_rd := RdExit e\<rparr>)"
| rd_exit: "\<not> z_crashed s \<Longrightarrow> z_rd s = RdExit e \<Longrightarrow> \<not> z_exit_closed s \<Longrightarrow> \<not> z_exit_buf s \<Longrightarrow>
    z_step mx s (s\<lparr>z_exit_buf := True, z_rd := (if e = EOF then RdStop else RdUnpack)\<rparr>)"
| rd_panic: "\<not> z_crashed s \<Longrightarrow> z_rd s = RdExit e \<Longrightarrow> z_exit_closed s \<Longrightarrow> z_step mx s (s\<lparr>z_crashed := True\<rparr>)"
| rd_stop: "\<not> z_crashed s \<Longrightarrow> z_rd s = RdStop \<Longrightarrow> z_step mx s ((z_Stop s)\<lparr>z_rd := RdEnd\<rparr>)"
| wr_take: "\<not> z_crashed s \<Longrightarrow> z_wr s = WrSelect \<Longrightarrow> i < length (z_senders s) \<Longrightarrow> z_senders s ! i = SdChan f \<Longrightarrow>
    z_step mx s ((set_sender i (SdDone f None) s)\<lparr>z_wr := WrWrite f, z_taken := z_taken s @ [f]\<rparr>)"
| wr_write: "\<not> z_crashed s \<Longrightarrow> z_wr s = WrWrite f \<Longrightarrow> \<not> z_tcp_closed s \<Longrightarrow>
    z_step mx s (s\<lparr>z_wr := WrSelect, z_sock := z_sock s @ [f]\<rparr>)"
| wr_fail: "\<not> z_crashed s \<Longrightarrow> z_wr s = WrWrite f \<Longrightarrow> z_step mx s (s\<lparr>z_wr := WrEnd\<rparr>)"
| wr_exit: "\<not> z_crashed s \<Longrightarrow> z_wr s = WrSelect \<Longrightarrow> exit_ready s \<Longrightarrow>
    z_step mx s (s\<lparr>z_wr := WrEnd, z_exit_buf := False\<rparr>)"
| start_exit: "\<not> z_crashed s \<Longrightarrow> z_start s \<Longrightarrow> exit_ready s \<Longrightarrow>
    z_step mx s (s\<lparr>z_start := False, z_exit_buf := False\<rparr>)"
| sd_closed: "\<not> z_crashed s \<Longrightarrow> i < length (z_senders s) \<Longrightarrow> z_senders s ! i = SdCheck n d \<Longrightarrow> z_isClosed s \<Longrightarrow>
    z_step mx s (set_sender i (SdDone [] (Some (Errorf ''Connection closed when send msg''))) s)"
| sd_pack: "\<not> z_crashed s \<Longrightarrow> i < length (z_senders s) \<Longrightarrow> z_senders s ! i = SdCheck n d \<Longrightarrow> \<not> z_isClosed s \<Longrightarrow>
    z_step mx s (set_sender i (SdChan (Pack (NewMsgPackage n d))) s)"

text \<open>What handlers do to the connection: call \<open>SendMsg\<close>, or \<open>Stop\<close> (if \<open>stops\<close> allows it).\<close>

inductive z_env :: "bool \<Rightarrow> zsys \<Rightarrow> zsys \<Rightarrow> bool" for stops :: bool where
  call_SendMsg: "\<not> z_crashed s \<Longrightarrow> z_env stops s (s\<lparr>z_senders := z_senders s @ [SdCheck n d]\<rparr>)"
| call_Stop: "\<not> z_crashed s \<Longrightarrow> stops \<Longrightarrow> z_env stops s (z_Stop s)"

definition z_run :: "u32 \<Rightarrow> bool \<Rightarrow> zsys \<Rightarrow> zsys \<Rightarrow> bool" where
  "z_run mx stops s t \<longleftrightarrow> z_step mx s t \<or> z_env stops s t"

inductive_cases z_envE: "z_env stops s t"

lemma set_sender_simps [simp]:
  "z_id (set_sender i x s) = z_id s" "z_in (set_sender i x s) = z_in s" "z_rd (set_sender i x s) = z_rd s"
  "z_wr (set_sender i x s) = z_wr s" "z_start (set_sender i x s) = z_start s" "z_exit_buf (set_sender i x s) = z_exit_buf s"
  "z_exit_closed (set_sender i x s) = z_exit_closed s" "z_isClosed (set_sender i x s) = z_isClosed s"
  "z_tcp_closed (set_sender i x s) = z_tcp_closed s" "z_senders (set_sender i x s) = (z_senders s)[i := x]"
  "z_sock (set_sender i x s) = z_sock s" "z_taken (set_sender i x s) = z_taken s"
  "z_dispatched (set_sender i x s) = z_dispatched s" "z_crashed (set_sender i x s) = z_crashed s"
  by (simp_all add: set_sender_def)

lemma z_Stop_simps [simp]:
  "z_id (z_Stop s) = z_id s" "z_in (z_Stop s) = z_in s" "z_rd (z_Stop s) = z_rd s" "z_wr (z_Stop s) = z_wr s"
  "z_start (z_Stop s) = z_start s" "z_exit_buf (z_Stop s) = z_exit_buf s" "z_senders (z_Stop s) = z_senders s"
  "z_sock (z_Stop s) = z_sock s" "z_taken (z_Stop s) = z_taken s" "z_dispatched (z_Stop s) = z_dispatched s"
  by (simp_all add: z_Stop_def)

section \<open>Frames are written whole, once and in order\<close>

text \<open>The frames of the calls of \<open>SendMsg\<close> that have returned nil, in the order the calls were made.\<close>

fun sent_frame :: "zsender \<Rightarrow> bytes list" where
  "sent_frame (SdDone f None) = [f]"
| "sent_frame _ = []"

definition packed :: "bytes \<Rightarrow> bool" where
  "packed f \<longleftrightarrow> (\<exists>n d. f = Pack (NewMsgPackage n d))"

fun sender_ok :: "zsender \<Rightarrow> bool" where
  "sender_ok (SdCheck n d) = True"
| "sender_ok (SdChan f) = packed f"
| "sender_ok (SdDone f e) = (e = None \<longrightarrow> packed f)"

fun in_hand :: "zwriter \<Rightarrow> bytes list \<Rightarrow> bool" where
  "in_hand WrSelect lost = (lost = [])"
| "in_hand (WrWrite f) lost = (lost = [f])"
| "in_hand WrEnd lost = (length lost \<le> 1)"

definition write_inv :: "zsys \<Rightarrow> bool" where
  [invs]: "write_inv s \<longleftrightarrow> (\<exists>lost. z_taken s = z_sock s @ lost \<and> in_hand (z_wr s) lost) \<and>
     (\<forall>x \<in> set (z_senders s). sender_ok x) \<and> mset (z_taken s) = (\<Sum>x\<leftarrow>z_senders s. mset (sent_frame x))"

lemma write_inv_sender:
  assumes "write_inv s" "i < length (z_senders s)" "sender_ok x" "sent_frame x = []" "sent_frame (z_senders s ! i) = []"
  shows "write_inv (set_sender i x s)"
  using assms sum_list_map_update [OF assms(2), of "\<lambda>x. mset (sent_frame x)" x]
    ball_set_update [of "z_senders s" sender_ok x i]
  by (auto simp: write_inv_def)

lemma write_inv_step: "z_step mx s t \<Longrightarrow> write_inv s \<Longrightarrow> write_inv t"
proof (induction rule: z_step.induct)
  case (wr_take s i f)
  have "packed f" using wr_take(4) wr_take.prems nth_mem [OF wr_take(3)] by (force simp: write_inv_def)
  with wr_take sum_list_map_update [OF wr_take(3), of "\<lambda>x. mset (sent_frame x)" "SdDone f None"]
    ball_set_update [of "z_senders s" sender_ok "SdDone f None" i]
  show ?case by (auto simp: write_inv_def)
next
  case (wr_exit s)
  then show ?case by (auto simp: write_inv_def)
next
  case (sd_closed s i n d)
  then show ?case by (intro write_inv_sender) auto
next
  case (sd_pack s i n d)
  then show ?case by (intro write_inv_sender) (auto simp: packed_def)
qed (auto simp: write_inv_def)

lemma write_inv_env: "z_env b s t \<Longrightarrow> write_inv s \<Longrightarrow> write_inv t"
  by (elim z_envE) (auto simp: write_inv_def)

interpretation zw: inductive_invariant "\<lambda>s. \<exists>cid cs. s = z_init cid cs" "z_run mx stops" write_inv for mx stops
  by unfold_locales (auto simp: z_run_def z_init_def intro: write_inv_step write_inv_env, simp add: write_inv_def)

section \<open>The end of a connection\<close>

text \<open>
  The peer sends the messages \<open>ms\<close>, each in chunks of its own, and closes the stream; no handler calls
  \<open>Stop\<close>.
\<close>

definition shut_inv :: "u32 \<Rightarrow> u32 \<Rightarrow> Message list \<Rightarrow> zsys \<Rightarrow> bool" where
  [invs]: "shut_inv mx cid ms s \<longleftrightarrow> \<not> z_crashed s \<and> z_id s = cid \<and>
     (let all = map (\<lambda>m. \<lparr>z_conn = cid, z_msg = m\<rparr>) ms;
          fresh = \<not> z_isClosed s \<and> \<not> z_tcp_closed s \<and> \<not> z_exit_closed s \<and> \<not> z_exit_buf s
      in case z_rd s of
           RdUnpack \<Rightarrow> fresh \<and> (\<exists>ms' css. dp.framed mx ms' css \<and> z_in s = concat css \<and>
             z_dispatched s @ map (\<lambda>m. \<lparr>z_conn = cid, z_msg = m\<rparr>) ms' = all)
         | RdExit e \<Rightarrow> e = EOF \<and> fresh \<and> z_dispatched s = all
         | RdStop \<Rightarrow> \<not> z_isClosed s \<and> \<not> z_exit_closed s \<and> z_dispatched s = all
         | RdEnd \<Rightarrow> z_isClosed s \<and> z_tcp_closed s \<and> z_exit_closed s \<and> z_dispatched s = all)"

lemma shut_inv_unpack:
  assumes "shut_inv mx cid ms s" "z_rd s = RdUnpack"
  shows "z_Unpack mx s = (Inl EOF, []) \<and> z_in s = [] \<and> z_dispatched s = map (\<lambda>m. \<lparr>z_conn = cid, z_msg = m\<rparr>) ms \<or>
    (\<exists>m ms' css. z_Unpack mx s = (Inr m, concat css) \<and> dp.framed mx ms' css \<and>
      z_dispatched s @ \<lparr>z_conn = cid, z_msg = m\<rparr> # map (\<lambda>m. \<lparr>z_conn = cid, z_msg = m\<rparr>) ms' = map (\<lambda>m. \<lparr>z_conn = cid, z_msg = m\<rparr>) ms)"
proof -
  from assms obtain ms' css where f: "\<not> z_tcp_closed s" "dp.framed mx ms' css" "z_in s = concat css"
      "z_dispatched s @ map (\<lambda>m. \<lparr>z_conn = cid, z_msg = m\<rparr>) ms' = map (\<lambda>m. \<lparr>z_conn = cid, z_msg = m\<rparr>) ms"
    by (auto simp: shut_inv_def Let_def)
  show ?thesis
  proof (cases ms')
    case Nil
    with f(2) have "css = []" by (simp add: dp.framed_def)
    with f Nil show ?thesis by (simp add: z_Unpack_def dp.unpack_end)
  next
    case (Cons m ms'')
    with dp.framed_Cons [of mx m ms'' css] f(2) obtain css' where "Unpack mx (concat css) = (Inr m, concat css')" "dp.framed mx ms'' css'"
      by blast
    with f Cons show ?thesis by (auto simp: z_Unpack_def)
  qed
qed

lemma shut_inv_step: "z_step mx s t \<Longrightarrow> shut_inv mx cid ms s \<Longrightarrow> shut_inv mx cid ms t"
proof (induction rule: z_step.induct)
  case (rd_msg s m rest)
  from shut_inv_unpack [OF rd_msg.prems rd_msg(2)] rd_msg show ?case by (auto simp: shut_inv_def Let_def)
next
  case (rd_err s e rest)
  from shut_inv_unpack [OF rd_err.prems rd_err(2)] rd_err show ?case by (auto simp: shut_inv_def Let_def)
next
  case (rd_stop s)
  then show ?case by (auto simp: shut_inv_def z_Stop_def Let_def)
qed (auto simp: shut_inv_def exit_ready_def Let_def split: zreader.splits)

lemma shut_inv_env: "z_env False s t \<Longrightarrow> shut_inv mx cid ms s \<Longrightarrow> shut_inv mx cid ms t"
  by (elim z_envE) (auto simp: shut_inv_def Let_def split: zreader.splits)

interpretation zs: inductive_invariant "\<lambda>s. \<exists>css. dp.framed mx ms css \<and> s = z_init cid (concat css)" "z_run mx False"
  "shut_inv mx cid ms" for mx ms cid
  by unfold_locales
    (auto simp: z_run_def z_init_def intro: shut_inv_step shut_inv_env, auto simp: shut_inv_def)

text \<open>Nothing but the end of all goroutines stops a connection whose stream has ended.\<close>

lemma shut_stuck:
  assumes "shut_inv mx cid ms s" "\<And>t. \<not> z_step mx s t"
  shows "z_rd s = RdEnd \<and> z_wr s = WrEnd \<and> \<not> z_start s"
proof -
  have nc: "\<not> z_crashed s" using assms(1) by (simp add: shut_inv_def)
  have rd: "z_rd s = RdEnd"
  proof (cases "z_rd s")
    case RdUnpack
    obtain r rest where "z_Unpack mx s = (r, rest)" by fastforce
    with rd_msg [OF nc RdUnpack] rd_err [OF nc RdUnpack] assms(2) show ?thesis by (cases r) metis+
  next
    case (RdExit e)
    with rd_exit [OF nc RdExit] assms show ?thesis by (auto simp: shut_inv_def Let_def)
  next
    case RdStop
    with rd_stop [OF nc RdStop] assms(2) show ?thesis by blast
  qed
  then have e: "exit_ready s" using assms(1) by (auto simp: shut_inv_def exit_ready_def Let_def)
  have "z_wr s = WrEnd"
  proof (cases "z_wr s")
    case WrSelect
    with wr_exit [OF nc WrSelect e] assms(2) show ?thesis by blast
  next
    case (WrWrite f)
    with wr_fail [OF nc WrWrite] assms(2) show ?thesis by blast
  qed
  moreover have "\<not> z_start s" using start_exit [OF nc _ e] assms(2) by blast
  ultimately show ?thesis using rd by blast
qed

fun rd_weight :: "zreader \<Rightarrow> nat" where
  "rd_weight RdUnpack = 3"
| "rd_weight (RdExit e) = 2"
| "rd_weight RdStop = 1"
| "rd_weight RdEnd = 0"

fun wr_weight :: "zwriter \<Rightarrow> nat" where
  "wr_weight WrSelect = 1"
| "wr_weight (WrWrite f) = 2"
| "wr_weight WrEnd = 0"

fun sd_weight :: "zsender \<Rightarrow> nat" where
  "sd_weight (SdCheck n d) = 3"
| "sd_weight (SdChan f) = 2"
| "sd_weight (SdDone f e) = 0"

definition z_weight :: "zsys \<Rightarrow> nat" where
  "z_weight s = conn_size (z_in s) + rd_weight (z_rd s) + wr_weight (z_wr s) + of_bool (z_start s) +
     (\<Sum>x\<leftarrow>z_senders s. sd_weight x)"

lemma z_weight_sender:
  assumes "i < length (z_senders s)"
  shows "(\<Sum>y\<leftarrow>(z_senders s)[i := x]. sd_weight y) + sd_weight (z_senders s ! i) = (\<Sum>y\<leftarrow>z_senders s. sd_weight y) + sd_weight x"
  using sum_list_map_update [OF assms, of sd_weight x] by simp

lemma z_weight_step: "z_step mx s t \<Longrightarrow> shut_inv mx cid ms s \<Longrightarrow> z_weight t < z_weight s"
proof (induction rule: z_step.induct)
  case (rd_msg s m rest)
  then have "\<not> z_tcp_closed s" by (simp add: shut_inv_def Let_def)
  with rd_msg Unpack_size [of mx "z_in s" "Inr m" rest] show ?case by (simp add: z_weight_def z_Unpack_def)
next
  case (rd_err s e rest)
  with shut_inv_unpack [OF rd_err.prems rd_err(2)] show ?case by (auto simp: z_weight_def)
next
  case (wr_take s i f)
  then show ?case using z_weight_sender [OF wr_take(3), of "SdDone f None"] by (simp add: z_weight_def)
next
  case (sd_closed s i n d)
  then show ?case using z_weight_sender [OF sd_closed(2), of "SdDone [] (Some (Errorf ''Connection closed when send msg''))"]
    by (simp add: z_weight_def)
next
  case (sd_pack s i n d)
  then show ?case using z_weight_sender [OF sd_pack(2), of "SdChan (Pack (NewMsgPackage n d))"] by (simp add: z_weight_def)
qed (auto simp: z_weight_def shut_inv_def Let_def)

section \<open>A sender that waits for ever\<close>

text \<open>Once the writer has returned nobody receives from \<open>msgChan\<close>.\<close>

lemma blocked_step:
  assumes "z_run mx stops s t" "z_wr s = WrEnd" "i < length (z_senders s)" "z_senders s ! i = SdChan f"
  shows "z_wr t = WrEnd \<and> i < length (z_senders t) \<and> z_senders t ! i = SdChan f"
  using assms unfolding z_run_def
proof (elim disjE)
  assume "z_step mx s t"
  then show ?thesis using assms(2-) by (induction rule: z_step.induct) (auto simp: nth_list_update)
next
  assume "z_env stops s t"
  then show ?thesis using assms(2-) by (elim z_envE) (auto simp: nth_append)
qed

text \<open>
  A handler has passed the check of \<open>isClosed\<close> in \<open>SendMsg\<close> when the peer closes the stream and the
  writer takes the value that the reader sends to \<open>ExitChan\<close>.
\<close>

lemma blocked_run:
  "\<exists>s. (z_run mx False)\<^sup>*\<^sup>* (z_init cid []) s \<and> z_wr s = WrEnd \<and> z_senders s = [SdChan (Pack (NewMsgPackage n d))]"
proof -
  define s0 where "s0 = z_init cid []"
  define s1 where "s1 = s0\<lparr>z_senders := z_senders s0 @ [SdCheck n d]\<rparr>"
  define s2 where "s2 = set_sender 0 (SdChan (Pack (NewMsgPackage n d))) s1"
  define s3 where "s3 = s2\<lparr>z_in := [], z_rd := RdExit EOF\<rparr>"
  define s4 where "s4 = s3\<lparr>z_exit_buf := True, z_rd := (if EOF = EOF then RdStop else RdUnpack)\<rparr>"
  define s5 where "s5 = s4\<lparr>z_wr := WrEnd, z_exit_buf := False\<rparr>"
  note defs = s5_def s4_def s3_def s2_def s1_def s0_def z_init_def
  have "z_env False s0 s1" unfolding s1_def by (rule call_SendMsg) (simp add: defs)
  moreover have "z_step mx s1 s2" unfolding s2_def by (rule sd_pack) (simp_all add: defs)
  moreover have "z_step mx s2 s3" unfolding s3_def by (rule rd_err) (simp_all add: defs z_Unpack_def dp.unpack_end)
  moreover have "z_step mx s3 s4" unfolding s4_def by (rule rd_exit) (simp_all add: defs)
  moreover have "z_step mx s4 s5" unfolding s5_def by (rule wr_exit) (simp_all add: defs exit_ready_def)
  ultimately have "z_run mx False s0 s1" "z_run mx False s1 s2" "z_run mx False s2 s3" "z_run mx False s3 s4" "z_run mx False s4 s5"
    by (simp_all add: z_run_def)
  then have "(z_run mx False)\<^sup>*\<^sup>* s0 s5" by auto
  moreover have "z_wr s5 = WrEnd" "z_senders s5 = [SdChan (Pack (NewMsgPackage n d))]" by (simp_all add: defs)
  ultimately show ?thesis unfolding s0_def by blast
qed

section \<open>Properties\<close>

text \<open>
  Messages go out whole, once and in order: whatever the goroutines of a connection do, the
  socket has received complete packed messages, those of calls of \<open>SendMsg\<close> that returned nil, in
  the order in which the writer took them, none twice; and at most one message whose \<open>SendMsg\<close>
  returned nil is not on the socket, the last one taken.
\<close>

lemma writer_sends_frames_in_order:
  assumes "reach (\<lambda>s. \<exists>cid cs. s = z_init cid cs) (z_run mx stops) s"
  shows "\<exists>lost. z_taken s = z_sock s @ lost \<and> length lost \<le> 1 \<and>
    mset (concat (map sent_frame (z_senders s))) = mset (z_sock s @ lost) \<and>
    (\<forall>f \<in> set (z_sock s). \<exists>n d. f = Pack (NewMsgPackage n d))"
proof -
  have inv: "write_inv s" by (rule zw.reach_Inv [OF assms])
  then obtain lost where l: "z_taken s = z_sock s @ lost" "in_hand (z_wr s) lost" by (auto simp: write_inv_def)
  have m: "(\<Sum>x\<leftarrow>xs. mset (sent_frame x)) = mset (concat (map sent_frame xs))" for xs
    by (induction xs) auto
  have s: "mset (concat (map sent_frame (z_senders s))) = mset (z_sock s @ lost)"
    using inv l(1) by (simp add: write_inv_def m)
  have "packed f" if "f \<in> set (z_sock s)" for f
  proof -
    have "f \<in># mset (concat (map sent_frame (z_senders s)))" using that s by simp
    then obtain x where x: "x \<in> set (z_senders s)" "f \<in> set (sent_frame x)" by auto
    then have "x = SdDone f None" by (cases x rule: sent_frame.cases) auto
    with x inv show ?thesis by (auto simp: write_inv_def)
  qed
  moreover have "length lost \<le> 1" using l(2) by (cases "z_wr s") auto
  ultimately show ?thesis using l(1) s by (auto simp: packed_def)
qed





end
