(* ===== verification/ZMain.thy ===== *)
theory ZMain
  imports ZGoroutines
begin

text \<open>
  \<^verbatim>\<open>myzinx/main/Server/Server.go\<close> and \<^verbatim>\<open>myzinx/main/Client/Client.go\<close>, with the rest of
  \<^verbatim>\<open>znet/server.go\<close> that they use: a server with two routes, and a client that sends a message and
  waits for the answer, again and again. The handlers work on the table of the server's
  connections; \<open>SendMsg\<close> may wait for ever, so the state of the application is an outcome.
\<close>

type_synonym conns = "u32 \<Rightarrow> Connection"

section \<open>The server\<close>

definition conn_GetConnID :: "Connection \<Rightarrow> u32" where
  "conn_GetConnID c = ConnID c"

text \<open>\<open>request.GetConnection().SendMsg(id, data)\<close>, whose error the handlers only print.\<close>

definition reply_with :: "u32 \<Rightarrow> string \<Rightarrow> zrequest \<Rightarrow> conns exec \<Rightarrow> conns exec" where
  "reply_with msgID text req w =
     bind_exec w (\<lambda>cs.
       bind_exec (SendMsg (cs (req_GetConnID req)) msgID (bytes_of text)) (\<lambda>(err, c).
         Ret (cs(req_GetConnID req := c))))"

definition Ping_Handle :: "zrequest \<Rightarrow> conns exec \<Rightarrow> conns exec" where
  "Ping_Handle = reply_with 0 ''ping...ping...ping''"

definition HelloZinx_Handle :: "zrequest \<Rightarrow> conns exec \<Rightarrow> conns exec" where
  "HelloZinx_Handle = reply_with 1 ''Hello Zinx Router V0.6''"

definition PingRouter :: "conns exec IRouter" where
  "PingRouter = BaseRouter\<lparr>Handle := Ping_Handle\<rparr>"

definition HelloZinxRouter :: "conns exec IRouter" where
  "HelloZinxRouter = BaseRouter\<lparr>Handle := HelloZinx_Handle\<rparr>"

text \<open>
  \<open>main\<close> up to \<open>Serve\<close>, after the initialization of \<open>utils\<close>: the server with its routes. \<open>Serve\<close> starts it and then sleeps for ever;
  \<open>Stop\<close> only prints.
\<close>

definition server_main ::
  "error + 'f \<Rightarrow> ('f \<Rightarrow> GlobalObj \<Rightarrow> error + GlobalObj) \<Rightarrow> (GlobalObj \<times> conns exec ZServer) exec" where
  "server_main ReadFile Unmarshal =
     bind_exec (globals_init ReadFile Unmarshal) (\<lambda>g.
       bind_exec (znet_NewServer ReadFile Unmarshal g ''server'') (\<lambda>(g, s).
         bind_exec (server_AddRouter s 0 PingRouter) (\<lambda>s.
           bind_exec (server_AddRouter s 1 HelloZinxRouter) (\<lambda>s. Ret (g, s)))))"

definition server_Serve :: "'w ZServer \<Rightarrow> (error + bytes list) list \<Rightarrow> ('w ZServer \<times> Connection list) \<times> unit exec" where
  "server_Serve s accepts = (server_Start s accepts, Hang)"

definition server_Stop :: "'w ZServer \<Rightarrow> 'w ZServer" where
  "server_Stop s = s"

text \<open>\<open>data\<close> is the slice up to its capacity, \<open>write\<close> the error of writing to the connection.\<close>

definition defaultcall_back :: "(bytes \<Rightarrow> error option) \<Rightarrow> bytes \<Rightarrow> int \<Rightarrow> error option exec" where
  "defaultcall_back write data cnt =
     (if cnt < 0 \<or> int (length data) < cnt then Panic ''slice bounds out of range''
      else Ret (case write (take (nat cnt) data) of None \<Rightarrow> None | Some e \<Rightarrow> Some (Errorf ''CallBackToClien error'')))"

section \<open>The client\<close>

definition client_message :: Message where
  "client_message = NewMsgPackage 1 (bytes_of ''Zinx V0.5 Client Test Message'')"

text \<open>
  The first \<open>n\<close> rounds of the client's loop: \<open>inq\<close> has the chunks that have arrived, \<open>peer\<close> takes the
  bytes that the client writes and gives the chunks that arrive then, or the error of the write. The
  result has the messages that are printed, what is left of the input, and the peer's state.
\<close>

fun client_loop ::
  "u32 \<Rightarrow> ('s \<Rightarrow> bytes \<Rightarrow> (error + bytes list \<times> 's) exec) \<Rightarrow> nat \<Rightarrow> bytes list \<Rightarrow> 's \<Rightarrow>
   (Message list \<times> bytes list \<times> 's) exec" where
  "client_loop mx peer 0 inq s = Ret ([], inq, s)"
| "client_loop mx peer (Suc n) inq s =
     bind_exec (peer s (Pack client_message)) (\<lambda>w.
       case w of
         Inl e \<Rightarrow> Ret ([], inq, s)
       | Inr (chunks, s') \<Rightarrow>
           (case Unpack mx (inq @ chunks) of
              (Inl e, rest) \<Rightarrow> Ret ([], rest, s')
            | (Inr msgHead, rest) \<Rightarrow>
                bind_exec (client_loop mx peer n rest s') (\<lambda>(ms, rest', s'').
                  Ret (if 0 < GetDataLen msgHead then msgHead # ms else ms, rest', s''))))"

definition client_main ::
  "u32 \<Rightarrow> error + 's \<Rightarrow> ('s \<Rightarrow> bytes \<Rightarrow> (error + bytes list \<times> 's) exec) \<Rightarrow> nat \<Rightarrow> Message list exec" where
  "client_main mx Dial peer n =
     (case Dial of
        Inl e \<Rightarrow> Ret []
      | Inr s \<Rightarrow> bind_exec (client_loop mx peer n [] s) (\<lambda>(ms, rest, s'). Ret ms))"

section \<open>A session\<close>

text \<open>
  The server as the peer of a client that waits for each answer: what the client writes arrives at
  the connection in the chunks \<open>frag\<close>, the reader takes one message and has it handled, and what
  the handler sends arrives at the client in chunks.
\<close>

definition server_peer ::
  "(bytes \<Rightarrow> bytes list) \<Rightarrow> u32 \<Rightarrow> conns exec MsgHandle \<Rightarrow> u32 \<Rightarrow> conns \<Rightarrow> bytes \<Rightarrow> (error + bytes list \<times> conns) exec" where
  "server_peer frag mx h cid cs b =
     (let c = cs cid in
      case conn_Unpack mx (c\<lparr>Conn := Conn c @ frag b\<rparr>) of
        (Inl e, c1) \<Rightarrow> Ret (Inl e)
      | (Inr m, c1) \<Rightarrow>
          bind_exec (DoMsgHandle h \<lparr>z_conn = conn_GetConnID c1, z_msg = m\<rparr> (Ret (cs(cid := c1)))) (\<lambda>cs'.
            Ret (Inr (concat (map frag (drop (length (written c)) (written (cs' cid)))), cs'))))"

text \<open>How a stream may cut a message into chunks.\<close>

definition fragments :: "(bytes \<Rightarrow> bytes list) \<Rightarrow> bool" where
  "fragments frag \<longleftrightarrow> (\<forall>b. concat (frag b) = b \<and> [] \<notin> set (frag b))"

lemma server_main_routes:
  assumes "server_main ReadFile Unmarshal = Ret (g, s)"
  shows "Apis (s_msgHandler s) = [0 \<mapsto> PingRouter, 1 \<mapsto> HelloZinxRouter]"
  using assms
  by (auto simp: server_main_def znet_NewServer_def server_AddRouter_def AddRouter_def NewMsgHandle_def
      bind_exec_Ret_iff split: if_splits)

lemma Unpack_fragments:
  assumes "fragments frag" "length d \<le> unat mx"
  shows "Unpack mx (frag (Pack (NewMsgPackage i d))) = (Inr (NewMsgPackage i d), [])"
proof -
  have "dp.framed mx [NewMsgPackage i d] [frag (Pack (NewMsgPackage i d))]"
    using framed_packages [of mx "[(i, d)]" "[frag (Pack (NewMsgPackage i d))]"] assms by (simp add: fragments_def)
  from dp.framed_Cons [OF this] show ?thesis by (auto simp: dp.framed_def)
qed

lemma server_peer_hello:
  assumes "fragments frag" "29 \<le> unat mx" "Apis h = [0 \<mapsto> PingRouter, 1 \<mapsto> HelloZinxRouter]"
    and "c = cs cid" "Conn c = []" "ConnID c = cid" "\<not> isClosed c" "\<not> tcp_closed c" "writer c"
  shows "server_peer frag mx h cid cs (Pack client_message) =
    Ret (Inr (frag (Pack (NewMsgPackage 1 (bytes_of ''Hello Zinx Router V0.6''))),
      cs(cid := c\<lparr>written := written c @ [Pack (NewMsgPackage 1 (bytes_of ''Hello Zinx Router V0.6''))]\<rparr>)))"
proof -
  have "Unpack mx (frag (Pack client_message)) = (Inr client_message, [])"
    unfolding client_message_def by (rule Unpack_fragments [OF assms(1)]) (use assms(2) in simp)
  then have u: "conn_Unpack mx (c\<lparr>Conn := Conn c @ frag (Pack client_message)\<rparr>) = (Inr client_message, c)"
    using assms(5,8) by (simp add: conn_Unpack_def)
  have "GetMsgId client_message = 1" by (simp add: client_message_def NewMsgPackage_def GetMsgId_def)
  then show ?thesis
    using u assms(3-9)
    by (simp add: server_peer_def DoMsgHandle_def req_GetMsgId_def req_GetConnID_def conn_GetConnID_def HelloZinxRouter_def
        BaseRouter_def HelloZinx_Handle_def reply_with_def SendMsg_def Let_def)
qed

text \<open>
  C17. Client and server of the repository understand each other: in a session in which the stream
  cuts messages in any way, and with a configuration that accepts messages of 29 bytes, every round of the
  client gets the answer of the route for message 1, the server has written one packed answer
  per round, and nothing is left over on the stream.
\<close>

theorem zinx_session:
  assumes "server_main ReadFile Unmarshal = Ret (g, srv)" "fragments frag" "29 \<le> unat (MaxPackerSize g)" "29 \<le> unat mx"
    and "cs cid = conn_Start (NewConnection [] cid)"
  shows "\<exists>cs'. client_loop mx (server_peer frag (MaxPackerSize g) (s_msgHandler srv) cid) n [] cs =
      Ret (replicate n (NewMsgPackage 1 (bytes_of ''Hello Zinx Router V0.6'')), [], cs') \<and>
    written (cs' cid) = replicate n (Pack (NewMsgPackage 1 (bytes_of ''Hello Zinx Router V0.6'')))"
proof -
  let ?m = "NewMsgPackage 1 (bytes_of ''Hello Zinx Router V0.6'')"
  let ?peer = "server_peer frag (MaxPackerSize g) (s_msgHandler srv) cid"
  have r: "Unpack mx (frag (Pack ?m)) = (Inr ?m, [])" by (rule Unpack_fragments [OF assms(2)]) (use assms(4) in simp)
  have l: "0 < GetDataLen ?m" by (simp add: NewMsgPackage_def GetDataLen_def)
  have loop: "\<exists>cs'. client_loop mx ?peer n [] cs = Ret (replicate n ?m, [], cs') \<and>
      written (cs' cid) = written (cs cid) @ replicate n (Pack ?m)"
    if "Conn (cs cid) = []" "ConnID (cs cid) = cid" "\<not> isClosed (cs cid)" "\<not> tcp_closed (cs cid)" "writer (cs cid)" for cs
    using that
  proof (induction n arbitrary: cs)
    case (Suc n)
    let ?cs = "cs(cid := (cs cid)\<lparr>written := written (cs cid) @ [Pack ?m]\<rparr>)"
    have p: "?peer cs (Pack client_message) = Ret (Inr (frag (Pack ?m), ?cs))"
      by (rule server_peer_hello [OF assms(2,3) server_main_routes [OF assms(1)] refl]) (use Suc.prems in simp_all)
    have "\<exists>cs'. client_loop mx ?peer n [] ?cs = Ret (replicate n ?m, [], cs') \<and>
        written (cs' cid) = written (?cs cid) @ replicate n (Pack ?m)"
      by (rule Suc.IH) (use Suc.prems in simp_all)
    then obtain cs' where "client_loop mx ?peer n [] ?cs = Ret (replicate n ?m, [], cs')"
        "written (cs' cid) = written (?cs cid) @ replicate n (Pack ?m)" by blast
    with p r l show ?case by simp
  qed simp
  have "written (cs cid) = []" using assms(5) by (simp add: conn_Start_def NewConnection_def)
  with loop [of cs] assms(5) show ?thesis by (simp add: conn_Start_def NewConnection_def)
qed

theorem zinx_session_witness:
  "\<exists>g srv cs'. server_main (Inr ()) (\<lambda>f g. Inr g) = Ret (g, srv) \<and>
     client_loop 4096 (server_peer (map (\<lambda>x. [x])) (MaxPackerSize g) (s_msgHandler srv) 0) 2 []
       (\<lambda>i. conn_Start (NewConnection [] i)) =
     Ret ([NewMsgPackage 1 (bytes_of ''Hello Zinx Router V0.6''), NewMsgPackage 1 (bytes_of ''Hello Zinx Router V0.6'')], [], cs')"
proof -
  obtain g srv where s: "server_main (Inr ()) (\<lambda>f g. Inr g) = Ret (g, srv)" "MaxPackerSize g = 4096"
    by (auto simp: server_main_def globals_init_def znet_NewServer_def Reload_def server_AddRouter_def AddRouter_def NewMsgHandle_def
        default_GlobalObject_def)
  have f: "fragments (map (\<lambda>x. [x]))" by (auto simp: fragments_def)
  have u: "29 \<le> unat (4096 :: u32)" "29 \<le> unat (MaxPackerSize g)" unfolding s(2) by simp_all
  have "replicate 2 x = [x, x]" for x :: Message by (simp add: numeral_2_eq_2)
  with zinx_session [OF s(1) f u(2,1), of "\<lambda>i. conn_Start (NewConnection [] i)" 0 2] s(1) show ?thesis by metis
qed

end
