(* ===== verification/ZPipeline.thy ===== *)
theory ZPipeline
  imports ZMain "HOL-Library.Sublist"
begin

text \<open>
  The server of \<^verbatim>\<open>myzinx/znet\<close> as a whole: the connections of \<^verbatim>\<open>connection.go\<close>, whose readers
  hand requests to the message handler of \<^verbatim>\<open>msghandler.go\<close>, and the workers, which run the handlers,
  which call \<open>SendMsg\<close> on the connection of the request. Readers run concurrently, and
  \<open>SendMsgToTaskQueue\<close> takes no lock, so its reads and writes of \<open>mh.TaskQueue\<close> are steps of their
  own here, while \<open>MsgHandler\<close> has the function as one step. The goroutines of a connection are those of
  \<^const>\<open>z_step\<close>.
\<close>

section \<open>State\<close>

text \<open>Where a reader is: in \<open>Unpack\<close> or its error handling, or in \<open>SendMsgToTaskQueue\<close>.\<close>

datatype zhand =
    HIdle
  | HCheck zrequest       \<comment> \<open>at \<open>if mh.TaskQueue[workerID] == nil\<close>\<close>
  | HMake zrequest        \<comment> \<open>at \<open>mh.TaskQueue[workerID] = make(...)\<close>\<close>
  | HGo zrequest          \<comment> \<open>at \<open>go mh.StartOneWorker(...)\<close>\<close>
  | HSend zrequest        \<comment> \<open>before \<open>mh.TaskQueue[workerID]\<close> is read for the send\<close>
  | HPut nat zrequest     \<comment> \<open>at the send to this channel\<close>

text \<open>A worker: waiting for a task, or in a handler, with the messages it has still to send.\<close>

datatype zworker =
    WIdle
  | WRun zrequest "(u32 \<times> bytes) list"
  | WWait zrequest nat "(u32 \<times> bytes) list"   \<comment> \<open>in the call of \<open>SendMsg\<close> with this number\<close>

text \<open>
  The slots of \<open>TaskQueue\<close> are nil or refer to a channel; \<open>v_chans\<close> has the contents of the
  channels that were made. A worker has the channel it was started with.
\<close>

record zsrv =
  v_conns :: "zsys list"
  v_hands :: "zhand list"
  v_slots :: "nat option list"
  v_chans :: "zrequest list list"
  v_workers :: "(nat \<times> zworker) list"

text \<open>
  What a handler sends: a handler is caller code that calls \<open>SendMsg\<close> on the connection of its request, so
  the state it works on is the list of the messages sent.
\<close>

type_synonym outbox = "(u32 \<times> bytes) list"

definition outs :: "outbox MsgHandle \<Rightarrow> zrequest \<Rightarrow> outbox" where
  "outs m req = DoMsgHandle m req []"

text \<open>The server after \<open>Start\<close> has accepted connections on which the given chunks arrive.\<close>

definition v_init :: "u32 \<Rightarrow> bytes list list \<Rightarrow> zsrv" where
  "v_init pool ins = \<lparr>v_conns = map (\<lambda>(i, cs). z_init (of_nat i) cs) (enumerate 0 ins),
     v_hands = replicate (length ins) HIdle, v_slots = replicate (unat pool) None, v_chans = [], v_workers = []\<rparr>"

section \<open>Steps\<close>

definition slot_of :: "u32 \<Rightarrow> zrequest \<Rightarrow> nat" where
  "slot_of pool req = unat (req_GetConnID req mod pool)"

definition set_hand :: "nat \<Rightarrow> zhand \<Rightarrow> zsrv \<Rightarrow> zsrv" where
  "set_hand i h s = s\<lparr>v_hands := (v_hands s)[i := h]\<rparr>"

definition set_conn :: "nat \<Rightarrow> zsys \<Rightarrow> zsrv \<Rightarrow> zsrv" where
  "set_conn i c s = s\<lparr>v_conns := (v_conns s)[i := c]\<rparr>"

definition set_worker :: "nat \<Rightarrow> nat \<times> zworker \<Rightarrow> zsrv \<Rightarrow> zsrv" where
  "set_worker j w s = s\<lparr>v_workers := (v_workers s)[j := w]\<rparr>"

definition set_chan :: "nat \<Rightarrow> zrequest list \<Rightarrow> zsrv \<Rightarrow> zsrv" where
  "set_chan ch q s = s\<lparr>v_chans := (v_chans s)[ch := q]\<rparr>"

text \<open>A panic of a goroutine ends the process.\<close>

definition v_alive :: "zsrv \<Rightarrow> bool" where
  "v_alive s \<longleftrightarrow> (\<forall>c \<in> set (v_conns s). \<not> z_crashed c)"

text \<open>The reader of a connection did not take part in a step.\<close>

definition reader_still :: "zsys \<Rightarrow> zsys \<Rightarrow> bool" where
  "reader_still c c' \<longleftrightarrow> z_rd c' = z_rd c \<and> z_in c' = z_in c"

definition conn_of :: "zrequest \<Rightarrow> nat" where
  "conn_of req = unat (req_GetConnID req)"

definition call_send :: "u32 \<Rightarrow> bytes \<Rightarrow> zsys \<Rightarrow> zsys" where
  "call_send n d c = c\<lparr>z_senders := z_senders c @ [SdCheck n d]\<rparr>"

text \<open>
  \<open>pool\<close> is \<open>WorkerPoolSize\<close> and \<open>cap\<close> is \<open>MaxWorkerTaskLen\<close>; a channel without room for a value
  hands it to a worker that waits for it.
\<close>

inductive v_step :: "u32 \<Rightarrow> u32 \<Rightarrow> u32 \<Rightarrow> outbox MsgHandle \<Rightarrow> zsrv \<Rightarrow> zsrv \<Rightarrow> bool"
  for mx pool cap :: u32 and m :: "outbox MsgHandle" where
  v_conn: "v_alive s \<Longrightarrow> i < length (v_conns s) \<Longrightarrow> z_step mx (v_conns s ! i) c \<Longrightarrow>
    z_dispatched c = z_dispatched (v_conns s ! i) \<Longrightarrow> v_hands s ! i = HIdle \<or> reader_still (v_conns s ! i) c \<Longrightarrow>
    v_step mx pool cap m s (set_conn i c s)"
| v_msg: "v_alive s \<Longrightarrow> i < length (v_conns s) \<Longrightarrow> z_step mx (v_conns s ! i) c \<Longrightarrow>
    z_dispatched c = z_dispatched (v_conns s ! i) @ [req] \<Longrightarrow> v_hands s ! i = HIdle \<Longrightarrow>
    v_step mx pool cap m s (set_hand i (HCheck req) (set_conn i c s))"
| v_div: "v_alive s \<Longrightarrow> i < length (v_hands s) \<Longrightarrow> v_hands s ! i = HCheck req \<Longrightarrow> pool = 0 \<Longrightarrow>
    v_step mx pool cap m s (set_conn i ((v_conns s ! i)\<lparr>z_crashed := True\<rparr>) s)"
| v_nil: "v_alive s \<Longrightarrow> i < length (v_hands s) \<Longrightarrow> v_hands s ! i = HCheck req \<Longrightarrow> pool \<noteq> 0 \<Longrightarrow> v_slots s ! slot_of pool req = None \<Longrightarrow>
    v_step mx pool cap m s (set_hand i (HMake req) s)"
| v_nonnil: "v_alive s \<Longrightarrow> i < length (v_hands s) \<Longrightarrow> v_hands s ! i = HCheck req \<Longrightarrow> pool \<noteq> 0 \<Longrightarrow> v_slots s ! slot_of pool req = Some ch \<Longrightarrow>
    v_step mx pool cap m s (set_hand i (HSend req) s)"
| v_make: "v_alive s \<Longrightarrow> i < length (v_hands s) \<Longrightarrow> v_hands s ! i = HMake req \<Longrightarrow>
    v_step mx pool cap m s (set_hand i (HGo req)
      (s\<lparr>v_slots := (v_slots s)[slot_of pool req := Some (length (v_chans s))], v_chans := v_chans s @ [[]]\<rparr>))"
| v_go: "v_alive s \<Longrightarrow> i < length (v_hands s) \<Longrightarrow> v_hands s ! i = HGo req \<Longrightarrow> v_slots s ! slot_of pool req = Some ch \<Longrightarrow>
    v_step mx pool cap m s (set_hand i (HSend req) (s\<lparr>v_workers := v_workers s @ [(ch, WIdle)]\<rparr>))"
| v_send: "v_alive s \<Longrightarrow> i < length (v_hands s) \<Longrightarrow> v_hands s ! i = HSend req \<Longrightarrow> v_slots s ! slot_of pool req = Some ch \<Longrightarrow>
    v_step mx pool cap m s (set_hand i (HPut ch req) s)"
| v_put: "v_alive s \<Longrightarrow> i < length (v_hands s) \<Longrightarrow> v_hands s ! i = HPut ch req \<Longrightarrow> length (v_chans s ! ch) < unat cap \<Longrightarrow>
    v_step mx pool cap m s (set_hand i HIdle (set_chan ch (v_chans s ! ch @ [req]) s))"
| v_handoff: "v_alive s \<Longrightarrow> i < length (v_hands s) \<Longrightarrow> v_hands s ! i = HPut ch req \<Longrightarrow> cap = 0 \<Longrightarrow>
    j < length (v_workers s) \<Longrightarrow> v_workers s ! j = (ch, WIdle) \<Longrightarrow>
    v_step mx pool cap m s (set_hand i HIdle (set_worker j (ch, WRun req (outs m req)) s))"
| w_take: "v_alive s \<Longrightarrow> j < length (v_workers s) \<Longrightarrow> v_workers s ! j = (ch, WIdle) \<Longrightarrow> v_chans s ! ch = req # q \<Longrightarrow>
    v_step mx pool cap m s (set_worker j (ch, WRun req (outs m req)) (set_chan ch q s))"
| w_send: "v_alive s \<Longrightarrow> j < length (v_workers s) \<Longrightarrow> v_workers s ! j = (ch, WRun req ((n, d) # ms)) \<Longrightarrow>
    c = v_conns s ! conn_of req \<Longrightarrow>
    v_step mx pool cap m s (set_worker j (ch, WWait req (length (z_senders c)) ms) (set_conn (conn_of req) (call_send n d c) s))"
| w_sent: "v_alive s \<Longrightarrow> j < length (v_workers s) \<Longrightarrow> v_workers s ! j = (ch, WWait req x ms) \<Longrightarrow>
    z_senders (v_conns s ! conn_of req) ! x = SdDone f e \<Longrightarrow>
    v_step mx pool cap m s (set_worker j (ch, WRun req ms) s)"
| w_done: "v_alive s \<Longrightarrow> j < length (v_workers s) \<Longrightarrow> v_workers s ! j = (ch, WRun req []) \<Longrightarrow>
    v_step mx pool cap m s (set_worker j (ch, WIdle) s)"

lemma v_set_simps [simp]:
  "v_conns (set_hand i h s) = v_conns s" "v_hands (set_hand i h s) = (v_hands s)[i := h]" "v_slots (set_hand i h s) = v_slots s"
  "v_chans (set_hand i h s) = v_chans s" "v_workers (set_hand i h s) = v_workers s"
  "v_conns (set_conn i c s) = (v_conns s)[i := c]" "v_hands (set_conn i c s) = v_hands s" "v_slots (set_conn i c s) = v_slots s"
  "v_chans (set_conn i c s) = v_chans s" "v_workers (set_conn i c s) = v_workers s"
  "v_conns (set_worker j w s) = v_conns s" "v_hands (set_worker j w s) = v_hands s" "v_slots (set_worker j w s) = v_slots s"
  "v_chans (set_worker j w s) = v_chans s" "v_workers (set_worker j w s) = (v_workers s)[j := w]"
  "v_conns (set_chan ch q s) = v_conns s" "v_hands (set_chan ch q s) = v_hands s" "v_slots (set_chan ch q s) = v_slots s"
  "v_chans (set_chan ch q s) = (v_chans s)[ch := q]" "v_workers (set_chan ch q s) = v_workers s"
  by (simp_all add: set_hand_def set_conn_def set_worker_def set_chan_def)

section \<open>One connection and its worker\<close>

text \<open>
  While there are no more connections than workers, each connection has a slot, a channel and a
  worker of its own. Its part of the server: the connection, the position of its reader, the
  queue, if there is one, and the workers on that queue.
\<close>

record pview =
  pc :: zsys
  ph :: zhand
  pq :: "zrequest list option"
  pw :: "zworker list"

definition workers_on :: "(nat \<times> zworker) list \<Rightarrow> nat \<Rightarrow> zworker list" where
  "workers_on ws ch = map snd (filter (\<lambda>w. fst w = ch) ws)"

definition view :: "zsrv \<Rightarrow> nat \<Rightarrow> pview" where
  "view s i = \<lparr>pc = v_conns s ! i, ph = v_hands s ! i, pq = map_option (\<lambda>ch. v_chans s ! ch) (v_slots s ! i),
     pw = (case v_slots s ! i of None \<Rightarrow> [] | Some ch \<Rightarrow> workers_on (v_workers s) ch)\<rparr>"

inductive p_step :: "u32 \<Rightarrow> u32 \<Rightarrow> outbox MsgHandle \<Rightarrow> pview \<Rightarrow> pview \<Rightarrow> bool"
  for mx cap :: u32 and m :: "outbox MsgHandle" where
  p_conn: "z_step mx (pc v) c \<Longrightarrow> z_dispatched c = z_dispatched (pc v) \<Longrightarrow> ph v = HIdle \<or> reader_still (pc v) c \<Longrightarrow>
    p_step mx cap m v (v\<lparr>pc := c\<rparr>)"
| p_msg: "z_step mx (pc v) c \<Longrightarrow> z_dispatched c = z_dispatched (pc v) @ [req] \<Longrightarrow> ph v = HIdle \<Longrightarrow>
    p_step mx cap m v (v\<lparr>pc := c, ph := HCheck req\<rparr>)"
| p_nil: "ph v = HCheck req \<Longrightarrow> pq v = None \<Longrightarrow> p_step mx cap m v (v\<lparr>ph := HMake req\<rparr>)"
| p_nonnil: "ph v = HCheck req \<Longrightarrow> pq v = Some q \<Longrightarrow> p_step mx cap m v (v\<lparr>ph := HSend req\<rparr>)"
| p_make: "ph v = HMake req \<Longrightarrow> p_step mx cap m v (v\<lparr>ph := HGo req, pq := Some [], pw := []\<rparr>)"
| p_go: "ph v = HGo req \<Longrightarrow> pq v = Some q \<Longrightarrow> p_step mx cap m v (v\<lparr>ph := HSend req, pw := pw v @ [WIdle]\<rparr>)"
| p_send: "ph v = HSend req \<Longrightarrow> pq v = Some q \<Longrightarrow> p_step mx cap m v (v\<lparr>ph := HPut ch req\<rparr>)"
| p_put: "ph v = HPut ch req \<Longrightarrow> pq v = Some q \<Longrightarrow> length q < unat cap \<Longrightarrow>
    p_step mx cap m v (v\<lparr>ph := HIdle, pq := Some (q @ [req])\<rparr>)"
| p_handoff: "ph v = HPut ch req \<Longrightarrow> cap = 0 \<Longrightarrow> pw v = [WIdle] \<Longrightarrow> p_step mx cap m v (v\<lparr>ph := HIdle, pw := [WRun req (outs m req)]\<rparr>)"
| p_take: "pw v = [WIdle] \<Longrightarrow> pq v = Some (req # q) \<Longrightarrow> p_step mx cap m v (v\<lparr>pq := Some q, pw := [WRun req (outs m req)]\<rparr>)"
| p_call: "pw v = [WRun req ((n, d) # ms)] \<Longrightarrow> \<not> z_crashed (pc v) \<Longrightarrow>
    p_step mx cap m v (v\<lparr>pc := call_send n d (pc v), pw := [WWait req (length (z_senders (pc v))) ms]\<rparr>)"
| p_sent: "pw v = [WWait req x ms] \<Longrightarrow> z_senders (pc v) ! x = SdDone f e \<Longrightarrow> p_step mx cap m v (v\<lparr>pw := [WRun req ms]\<rparr>)"
| p_done: "pw v = [WRun req []] \<Longrightarrow> p_step mx cap m v (v\<lparr>pw := [WIdle]\<rparr>)"

text \<open>The requests a reader and a worker have in hand, and the frames of messages.\<close>

fun reader_has :: "zhand \<Rightarrow> zrequest list" where
  "reader_has HIdle = []"
| "reader_has (HCheck r) = [r]"
| "reader_has (HMake r) = [r]"
| "reader_has (HGo r) = [r]"
| "reader_has (HSend r) = [r]"
| "reader_has (HPut ch r) = [r]"

fun worker_has :: "zworker list \<Rightarrow> zrequest list" where
  "worker_has [WRun r ms] = [r]"
| "worker_has [WWait r x ms] = [r]"
| "worker_has ws = []"

definition frames :: "outbox \<Rightarrow> bytes list" where
  "frames ms = map (\<lambda>(n, d). Pack (NewMsgPackage n d)) ms"

fun frame_of :: "zsender \<Rightarrow> bytes" where
  "frame_of (SdCheck n d) = Pack (NewMsgPackage n d)"
| "frame_of (SdChan f) = f"
| "frame_of (SdDone f e) = f"

fun calling :: "bool \<Rightarrow> zsender list \<Rightarrow> bool" where
  "calling failed [] = True"
| "calling failed [SdCheck n d] = True"
| "calling failed [SdChan f] = (\<not> failed)"
| "calling failed _ = False"

text \<open>
  The calls of \<open>SendMsg\<close> on a connection, for the frames \<open>F\<close>: those that were taken by the writer,
  then those that failed, which happens only once the connection is closed, then perhaps one that
  has not returned.
\<close>

definition sends_ok :: "zsys \<Rightarrow> bytes list \<Rightarrow> zsender list \<Rightarrow> bool" where
  "sends_ok c F P \<longleftrightarrow> (\<exists>es H. z_senders c = map (\<lambda>f. SdDone f None) (z_taken c) @ map (\<lambda>e. SdDone [] (Some e)) es @ P \<and>
     length H = length es \<and> F = z_taken c @ H @ map frame_of P \<and> (es \<noteq> [] \<longrightarrow> z_isClosed c) \<and> calling (es \<noteq> []) P)"

fun work_ok :: "outbox MsgHandle \<Rightarrow> zsys \<Rightarrow> outbox \<Rightarrow> zworker list \<Rightarrow> bool" where
  "work_ok m c ms0 [WRun r ms] = (\<exists>sofar. outs m r = sofar @ ms \<and> sends_ok c (frames (ms0 @ sofar)) [])"
| "work_ok m c ms0 [WWait r x ms] = (\<exists>sofar P. outs m r = sofar @ ms \<and> Suc x = length (z_senders c) \<and>
     sends_ok c (frames (ms0 @ sofar)) P)"
| "work_ok m c ms0 ws = sends_ok c (frames ms0) []"

fun hand_ok :: "u32 \<Rightarrow> zhand \<Rightarrow> zrequest list option \<Rightarrow> zworker list \<Rightarrow> bool" where
  "hand_ok cap (HMake r) q ws = (q = None \<and> ws = [])"
| "hand_ok cap (HGo r) q ws = (q = Some [] \<and> ws = [])"
| "hand_ok cap HIdle q ws = (case q of None \<Rightarrow> ws = [] | Some q \<Rightarrow> length q \<le> unat cap \<and> length ws = 1)"
| "hand_ok cap (HCheck r) q ws = (case q of None \<Rightarrow> ws = [] | Some q \<Rightarrow> length q \<le> unat cap \<and> length ws = 1)"
| "hand_ok cap (HSend r) q ws = (\<exists>q'. q = Some q' \<and> length q' \<le> unat cap \<and> length ws = 1)"
| "hand_ok cap (HPut ch r) q ws = (\<exists>q'. q = Some q' \<and> length q' \<le> unat cap \<and> length ws = 1)"

definition queue_of :: "zrequest list option \<Rightarrow> zrequest list" where
  "queue_of q = (case q of None \<Rightarrow> [] | Some q \<Rightarrow> q)"

definition pipe_inv :: "u32 \<Rightarrow> outbox MsgHandle \<Rightarrow> u32 \<Rightarrow> pview \<Rightarrow> bool" where
  [invs]: "pipe_inv cap m cid v \<longleftrightarrow> z_id (pc v) = cid \<and> (\<forall>r \<in> set (z_dispatched (pc v)). z_conn r = cid) \<and>
     hand_ok cap (ph v) (pq v) (pw v) \<and>
     (\<exists>handled. z_dispatched (pc v) = handled @ worker_has (pw v) @ queue_of (pq v) @ reader_has (ph v) \<and>
        work_ok m (pc v) (concat (map (outs m) handled)) (pw v))"

text \<open>Only the last call can be one that has not returned.\<close>

lemma calling_cases:
  assumes "calling b P"
  obtains "P = []" | n d where "P = [SdCheck n d]" | f where "P = [SdChan f]" "\<not> b"
  using assms by (cases "(b, P)" rule: calling.cases) auto

lemma sends_ok_last:
  assumes "sends_ok c F P" "i < length (z_senders c)" "z_senders c ! i = x" "\<forall>f e. x \<noteq> SdDone f e"
  shows "P = [x] \<and> Suc i = length (z_senders c) \<and> z_senders c = butlast (z_senders c) @ [x]"
proof -
  from assms(1) obtain es H where s: "z_senders c = map (\<lambda>f. SdDone f None) (z_taken c) @ map (\<lambda>e. SdDone [] (Some e)) es @ P"
      "calling (es \<noteq> []) P" by (auto simp: sends_ok_def)
  define A where "A = map (\<lambda>f. SdDone f None) (z_taken c) @ map (\<lambda>e. SdDone [] (Some e)) es"
  have A: "z_senders c = A @ P" using s(1) by (simp add: A_def)
  have "\<not> i < length A"
  proof
    assume "i < length A"
    then have "x \<in> set A" using assms(3) by (auto simp: A nth_append)
    with assms(4) show False by (auto simp: A_def)
  qed
  moreover from this assms(2) A have "P \<noteq> []" by auto
  with s(2) obtain y where "P = [y]" by (auto elim: calling_cases)
  ultimately show ?thesis using assms(2,3) by (simp add: A nth_append)
qed

lemma update_last: "Suc i = length xs \<Longrightarrow> xs[i := y] = butlast xs @ [y]"
  by (cases xs rule: rev_cases) auto

lemma sends_ok_step:
  assumes "z_step mx c c'" "sends_ok c F P"
  shows "\<exists>P'. sends_ok c' F P' \<and> (P = [] \<longrightarrow> P' = []) \<and> length (z_senders c') = length (z_senders c)"
  using assms
proof (induction rule: z_step.induct)
  case (wr_take c i f)
  from sends_ok_last [OF wr_take.prems wr_take(3,4)] have l: "P = [SdChan f]" "Suc i = length (z_senders c)" by auto
  with wr_take.prems have "z_senders c = map (\<lambda>f. SdDone f None) (z_taken c) @ [SdChan f]" "F = z_taken c @ [f]"
    by (auto simp: sends_ok_def)
  then show ?case by (intro exI [of _ "[]"]) (simp add: sends_ok_def update_last l(2))
next
  case (sd_closed c i n d)
  let ?e = "Errorf ''Connection closed when send msg''"
  from sends_ok_last [OF sd_closed.prems sd_closed(2,3)] have l: "P = [SdCheck n d]" "Suc i = length (z_senders c)" by auto
  with sd_closed.prems obtain es H where
    "z_senders c = map (\<lambda>f. SdDone f None) (z_taken c) @ map (\<lambda>e. SdDone [] (Some e)) es @ [SdCheck n d]"
    "length H = length es" "F = z_taken c @ H @ [Pack (NewMsgPackage n d)]" by (auto simp: sends_ok_def)
  then show ?case using sd_closed(4)
    by (intro exI [of _ "[]"]) (auto simp: sends_ok_def update_last l(2) butlast_append intro!: exI [of _ "es @ [?e]"] exI [of _ "H @ [_]"])
next
  case (sd_pack c i n d)
  from sends_ok_last [OF sd_pack.prems sd_pack(2,3)] have l: "P = [SdCheck n d]" "Suc i = length (z_senders c)" by auto
  with sd_pack have "z_senders c = map (\<lambda>f. SdDone f None) (z_taken c) @ [SdCheck n d]" "F = z_taken c @ [Pack (NewMsgPackage n d)]"
    by (auto simp: sends_ok_def)
  then show ?case by (intro exI [of _ "[SdChan (Pack (NewMsgPackage n d))]"]) (simp add: sends_ok_def update_last l)
next
  case (rd_stop c)
  then show ?case by (intro exI [of _ P]) (auto simp: sends_ok_def z_Stop_def split: if_splits)
qed (auto simp: sends_ok_def)

lemma sends_ok_call:
  assumes "sends_ok c F []"
  shows "sends_ok (call_send n d c) (F @ [Pack (NewMsgPackage n d)]) [SdCheck n d]"
  using assms by (auto simp: sends_ok_def call_send_def)

lemma sends_ok_returned:
  assumes "sends_ok c F P" "Suc x = length (z_senders c)" "z_senders c ! x = SdDone f e"
  shows "sends_ok c F []"
proof -
  obtain es where "z_senders c = (map (\<lambda>f. SdDone f None) (z_taken c) @ map (\<lambda>e. SdDone [] (Some e)) es) @ P"
      and c: "calling (es \<noteq> []) P"
    using assms(1) by (auto simp: sends_ok_def)
  with c have "P = []" using assms(2,3) by (cases rule: calling_cases [OF c]) (auto simp: nth_append simp del: append_assoc)
  with assms(1) show ?thesis by simp
qed

lemma work_ok_step:
  assumes "z_step mx c c'" "work_ok m c ms0 ws"
  shows "work_ok m c' ms0 ws"
proof -
  have s: "sends_ok c' F []" if "sends_ok c F []" for F using sends_ok_step [OF assms(1) that] by auto
  show ?thesis
    using assms(2) sends_ok_step [OF assms(1)] s
    by (cases "(m, c, ms0, ws)" rule: work_ok.cases) (simp_all, (blast | metis)+)
qed

lemma z_step_keeps:
  assumes "z_step mx c c'"
  shows "z_id c' = z_id c" "z_dispatched c' = z_dispatched c @ [req] \<Longrightarrow> z_conn req = z_id c"
  using assms by (induction rule: z_step.induct) auto

lemma pipe_inv_step:
  assumes "p_step mx cap m v v'" "pipe_inv cap m cid v"
  shows "pipe_inv cap m cid v'"
  using assms
proof (induction rule: p_step.induct)
  case (p_conn v c)
  with z_step_keeps(1) [OF p_conn(1)] work_ok_step [OF p_conn(1)] show ?case by (auto simp: pipe_inv_def)
next
  case (p_msg v c req)
  then have "z_conn req = cid" using z_step_keeps(2) [OF p_msg(1,2)] by (simp add: pipe_inv_def)
  with p_msg z_step_keeps(1) [OF p_msg(1)] work_ok_step [OF p_msg(1)] show ?case by (auto simp: pipe_inv_def)
next
  case (p_take v req q)
  then obtain h where h: "z_dispatched (pc v) = h @ req # q @ reader_has (ph v)" "sends_ok (pc v) (frames (concat (map (outs m) h))) []"
    by (auto simp: pipe_inv_def queue_of_def)
  moreover have "hand_ok cap (ph v) (Some q) [WRun req (outs m req)]" using p_take by (cases "ph v") (auto simp: pipe_inv_def)
  ultimately show ?case using p_take by (auto simp: pipe_inv_def queue_of_def intro!: exI [of _ h])
next
  case (p_handoff v ch req)
  then obtain h where h: "z_dispatched (pc v) = h @ [req]" "sends_ok (pc v) (frames (concat (map (outs m) h))) []"
    by (auto simp: pipe_inv_def queue_of_def)
  with p_handoff show ?case by (auto simp: pipe_inv_def queue_of_def intro!: exI [of _ h])
next
  case (p_call v req n d ms)
  then obtain h sofar where h: "z_dispatched (pc v) = h @ req # queue_of (pq v) @ reader_has (ph v)" "outs m req = sofar @ (n, d) # ms"
      "sends_ok (pc v) (frames (concat (map (outs m) h) @ sofar)) []"
    by (auto simp: pipe_inv_def)
  have "sends_ok (call_send n d (pc v)) (frames (concat (map (outs m) h) @ sofar @ [(n, d)])) [SdCheck n d]"
    using sends_ok_call [OF h(3), of n d] by (simp add: frames_def)
  moreover have "hand_ok cap (ph v) (pq v) [WWait req (length (z_senders (pc v))) ms]"
    using p_call by (cases "ph v") (auto simp: pipe_inv_def split: option.splits)
  ultimately show ?case using p_call h(1,2)
    by (auto simp: pipe_inv_def call_send_def intro!: exI [of _ h] exI [of _ "sofar @ [(n, d)]"])
next
  case (p_sent v req x ms f e)
  then obtain h sofar P where h: "z_dispatched (pc v) = h @ req # queue_of (pq v) @ reader_has (ph v)" "outs m req = sofar @ ms"
      "sends_ok (pc v) (frames (concat (map (outs m) h) @ sofar)) P" "Suc x = length (z_senders (pc v))"
    by (auto simp: pipe_inv_def)
  from sends_ok_returned [OF h(3,4) p_sent(2)] h(1,2) p_sent show ?case
    by (cases "ph v") (auto simp: pipe_inv_def split: option.splits)
next
  case (p_done v req)
  then obtain h where h: "z_dispatched (pc v) = (h @ [req]) @ queue_of (pq v) @ reader_has (ph v)"
      "sends_ok (pc v) (frames (concat (map (outs m) (h @ [req])))) []"
    by (auto simp: pipe_inv_def)
  moreover have "hand_ok cap (ph v) (pq v) [WIdle]" using p_done by (cases "ph v") (auto simp: pipe_inv_def split: option.splits)
  ultimately show ?case using p_done by (auto simp: pipe_inv_def intro!: exI [of _ "h @ [req]"])
qed (auto simp: pipe_inv_def queue_of_def split: option.splits)

section \<open>The server as a family of connections\<close>

text \<open>
  The structure of a server with \<open>n\<close> connections and at least as many workers: slots do not share
  channels, only the slots of connections are used, and the workers' channels are in slots.
\<close>

definition v_wf :: "u32 \<Rightarrow> nat \<Rightarrow> zsrv \<Rightarrow> bool" where
  "v_wf pool n s \<longleftrightarrow> n \<le> unat pool \<and> length (v_conns s) = n \<and> length (v_hands s) = n \<and> length (v_slots s) = unat pool \<and>
     (\<forall>i < unat pool. \<forall>ch. v_slots s ! i = Some ch \<longrightarrow> ch < length (v_chans s)) \<and>
     (\<forall>i < unat pool. \<forall>j < unat pool. \<forall>ch. v_slots s ! i = Some ch \<and> v_slots s ! j = Some ch \<longrightarrow> i = j) \<and>
     (\<forall>w \<in> set (v_workers s). \<exists>i < n. v_slots s ! i = Some (fst w)) \<and>
     (\<forall>i < n. \<forall>ch r. v_hands s ! i = HPut ch r \<longrightarrow> v_slots s ! i = Some ch)"

definition v_inv :: "u32 \<Rightarrow> u32 \<Rightarrow> outbox MsgHandle \<Rightarrow> nat \<Rightarrow> zsrv \<Rightarrow> bool" where
  [invs]: "v_inv pool cap m n s \<longleftrightarrow> v_wf pool n s \<and> (\<forall>i < n. pipe_inv cap m (of_nat i) (view s i))"

lemma workers_on_update:
  assumes "j < length ws" "ws ! j = (ch, w)"
  shows "length (workers_on ws ch) = 1 \<Longrightarrow> workers_on (ws[j := (ch, w')]) ch = [w']"
    and "k \<noteq> ch \<Longrightarrow> workers_on (ws[j := (ch, w')]) k = workers_on ws k"
    and "length (workers_on ws ch) = 1 \<Longrightarrow> workers_on ws ch = [w]"
proof -
  have split: "ws = take j ws @ (ch, w) # drop (Suc j) ws" using assms by (metis id_take_nth_drop)
  have upd: "ws[j := x] = take j ws @ x # drop (Suc j) ws" for x using assms(1) by (rule upd_conv_take_nth_drop)
  have 1: "workers_on ws k = workers_on (take j ws) k @ (if k = ch then [w] else []) @ workers_on (drop (Suc j) ws) k" for k
    by (subst split) (simp add: workers_on_def)
  have 2: "workers_on (ws[j := (ch, w')]) k = workers_on (take j ws) k @ (if k = ch then [w'] else []) @ workers_on (drop (Suc j) ws) k" for k
    unfolding upd by (simp add: workers_on_def)
  show "length (workers_on ws ch) = 1 \<Longrightarrow> workers_on (ws[j := (ch, w')]) ch = [w']"
    "k \<noteq> ch \<Longrightarrow> workers_on (ws[j := (ch, w')]) k = workers_on ws k" "length (workers_on ws ch) = 1 \<Longrightarrow> workers_on ws ch = [w]"
    using 1 [of ch] 1 [of k] 2 [of k] 2 [of ch] by auto
qed

lemma slot_of_own:
  assumes "i < unat (pool :: u32)" "z_conn req = of_nat i"
  shows "slot_of pool req = i" "conn_of req = i"
proof -
  have "unat (of_nat i :: u32) = i" using assms(1) unsigned_less [of pool, where 'a = nat] by (simp add: unsigned_of_nat take_bit_nat_eq_self)
  then show "slot_of pool req = i" "conn_of req = i" using assms by (simp_all add: slot_of_def conn_of_def req_GetConnID_def unat_mod)
qed

text \<open>The requests in the hands of a connection's reader and worker are its own.\<close>

lemma v_inv_own:
  assumes "v_inv pool cap m n s" "i < n" "r \<in> set (reader_has (v_hands s ! i)) \<union> set (worker_has (pw (view s i)))"
  shows "slot_of pool r = i" "conn_of r = i"
proof -
  have "pipe_inv cap m (of_nat i) (view s i)" "i < unat pool" using assms(1,2) by (auto simp: v_inv_def v_wf_def)
  moreover from this assms(3) have "z_conn r = of_nat i" by (auto simp: pipe_inv_def view_def)
  ultimately show "slot_of pool r = i" "conn_of r = i" using slot_of_own by blast+
qed

text \<open>The worker \<open>j\<close> is the only worker of one connection.\<close>

lemma v_inv_worker:
  assumes "v_inv pool cap m n s" "j < length (v_workers s)" "v_workers s ! j = (ch, w)"
  shows "\<exists>i < n. v_slots s ! i = Some ch \<and> pw (view s i) = [w] \<and>
    (\<forall>w'. workers_on ((v_workers s)[j := (ch, w')]) ch = [w'])"
proof -
  have "(ch, w) \<in> set (v_workers s)" using assms(2,3) by (metis nth_mem)
  then obtain i where i: "i < n" "v_slots s ! i = Some ch" using assms(1) by (fastforce simp: v_inv_def v_wf_def)
  let ?ws = "workers_on (v_workers s) ch"
  have pw: "pw (view s i) = ?ws" "pq (view s i) \<noteq> None" using i by (simp_all add: view_def)
  have "w \<in> set ?ws" using \<open>(ch, w) \<in> set (v_workers s)\<close> by (force simp: workers_on_def)
  moreover have "hand_ok cap (ph (view s i)) (pq (view s i)) ?ws" using assms(1) i(1) pw(1) by (auto simp: v_inv_def pipe_inv_def)
  ultimately have "length ?ws = 1" using pw(2) by (cases "ph (view s i)") (auto split: option.splits)
  with workers_on_update [OF assms(2,3)] i pw show ?thesis by (metis (no_types, lifting))
qed

lemma view_updates:
  "i < length (v_conns s) \<Longrightarrow> view (set_conn i c s) k = (if k = i then (view s k)\<lparr>pc := c\<rparr> else view s k)"
  "i < length (v_hands s) \<Longrightarrow> view (set_hand i h s) k = (if k = i then (view s k)\<lparr>ph := h\<rparr> else view s k)"
  "ch < length (v_chans s) \<Longrightarrow> view (set_chan ch q s) k = (if v_slots s ! k = Some ch then (view s k)\<lparr>pq := Some q\<rparr> else view s k)"
  "j < length (v_workers s) \<Longrightarrow> v_workers s ! j = (ch, w) \<Longrightarrow> view (set_worker j (ch, w') s) k =
    (if v_slots s ! k = Some ch then (view s k)\<lparr>pw := workers_on ((v_workers s)[j := (ch, w')]) ch\<rparr> else view s k)"
  using workers_on_update(2) [of j "v_workers s" ch w _ w']
  by (auto simp: view_def split: option.splits)

lemma v_wf_updates:
  assumes "v_wf pool n s"
  shows "v_wf pool n (set_conn i c s)" "\<forall>ch r. h = HPut ch r \<longrightarrow> v_slots s ! i = Some ch \<Longrightarrow> v_wf pool n (set_hand i h s)"
    "v_wf pool n (set_chan ch q s)" "v_workers s ! j = (ch, w) \<Longrightarrow> j < length (v_workers s) \<Longrightarrow> v_wf pool n (set_worker j (ch, w') s)"
proof -
  show "v_wf pool n (set_conn i c s)" "v_wf pool n (set_chan ch q s)" using assms by (simp_all add: v_wf_def)
  show "v_wf pool n (set_hand i h s)" if "\<forall>ch r. h = HPut ch r \<longrightarrow> v_slots s ! i = Some ch"
    using assms that by (cases "i < length (v_hands s)") (auto simp: v_wf_def nth_list_update)
  show "v_wf pool n (set_worker j (ch, w') s)" if "v_workers s ! j = (ch, w)" "j < length (v_workers s)"
  proof -
    have "\<exists>i < n. v_slots s ! i = Some ch" using assms that nth_mem [of j "v_workers s"] by (force simp: v_wf_def)
    with assms show ?thesis by (auto simp: v_wf_def dest!: in_set_updateD)
  qed
qed

definition one_view :: "u32 \<Rightarrow> u32 \<Rightarrow> outbox MsgHandle \<Rightarrow> nat \<Rightarrow> zsrv \<Rightarrow> zsrv \<Rightarrow> bool" where
  "one_view mx cap m n s t \<longleftrightarrow> (\<exists>i < n. p_step mx cap m (view s i) (view t i) \<and> (\<forall>k < n. k \<noteq> i \<longrightarrow> view t k = view s k))"

lemma one_viewI:
  "i < n \<Longrightarrow> p_step mx cap m (view s i) v \<Longrightarrow> (\<And>k. k < n \<Longrightarrow> view t k = (if k = i then v else view s k)) \<Longrightarrow> one_view mx cap m n s t"
  unfolding one_view_def by (rule exI [of _ i]) auto

lemma v_hand_view:
  assumes "v_inv pool cap m n s" "i < n" "p_step mx cap m (view s i) ((view s i)\<lparr>ph := h\<rparr>)" "\<forall>ch r. h = HPut ch r \<longrightarrow> v_slots s ! i = Some ch"
  shows "v_wf pool n (set_hand i h s) \<and> one_view mx cap m n s (set_hand i h s)"
proof -
  have "v_wf pool n s" "i < length (v_hands s)" using assms(1,2) by (simp_all add: v_inv_def v_wf_def)
  then show ?thesis using assms by (auto intro: v_wf_updates one_viewI simp: view_updates)
qed

lemma v_inv_hand: "v_inv pool cap m n s \<Longrightarrow> i < length (v_hands s) \<Longrightarrow> i < n"
  by (simp add: v_inv_def v_wf_def)

lemma v_slot_inj:
  assumes "v_inv pool cap m n s" "i < n" "k < n" "v_slots s ! i = Some ch"
  shows "v_slots s ! k = Some ch \<longleftrightarrow> k = i"
  using assms unfolding v_inv_def v_wf_def by (metis order_less_le_trans)

lemma v_worker_view:
  assumes "v_inv pool cap m n s" "j < length (v_workers s)" "v_workers s ! j = (ch, w)"
  obtains i where "i < n" "v_slots s ! i = Some ch" "pw (view s i) = [w]"
    "\<And>w'. v_wf pool n (set_worker j (ch, w') s)"
    "\<And>w' k. k < n \<Longrightarrow> view (set_worker j (ch, w') s) k = (if k = i then (view s k)\<lparr>pw := [w']\<rparr> else view s k)"
proof -
  from v_inv_worker [OF assms] obtain i where i: "i < n" "v_slots s ! i = Some ch" "pw (view s i) = [w]"
      "\<forall>w'. workers_on ((v_workers s)[j := (ch, w')]) ch = [w']" by blast
  have wf: "v_wf pool n s" using assms(1) by (simp add: v_inv_def)
  show ?thesis
    by (rule that [OF i(1-3)])
      (use i(4) v_wf_updates(4) [OF wf assms(3,2)] v_slot_inj [OF assms(1) i(1) _ i(2)] in \<open>simp_all add: view_updates(4) [OF assms(2,3)]\<close>)
qed

text \<open>The steps of the readers.\<close>

lemma v_make_view:
  assumes "v_inv pool cap m n s" "i < n" "v_hands s ! i = HMake req"
  defines "t \<equiv> set_hand i (HGo req) (s\<lparr>v_slots := (v_slots s)[slot_of pool req := Some (length (v_chans s))], v_chans := v_chans s @ [[]]\<rparr>)"
  shows "v_wf pool n t \<and> one_view mx cap m n s t"
proof -
  have o: "slot_of pool req = i" using v_inv_own(1) [OF assms(1,2), of req] assms(3) by simp
  have wf: "v_wf pool n s" "i < unat pool" using assms(1,2) by (auto simp: v_inv_def v_wf_def)
  have none: "v_slots s ! i = None" using assms(1-3) by (auto simp: v_inv_def pipe_inv_def view_def)
  have low: "ch < length (v_chans s)" if "v_slots s ! k = Some ch" "k < n" for k ch
    using that wf(1) unfolding v_wf_def by (metis order_less_le_trans)
  have ws: "workers_on (v_workers s) (length (v_chans s)) = []"
    using wf(1) low unfolding v_wf_def workers_on_def by (fastforce simp: filter_empty_conv)
  have v: "view t k = (if k = i then (view s i)\<lparr>ph := HGo req, pq := Some [], pw := []\<rparr> else view s k)" if "k < n" for k
    using that low [of k] wf ws o
    by (auto simp: t_def view_def v_wf_def nth_append split: option.splits)
  have "ph (view s i) = HMake req" using assms(3) by (simp add: view_def)
  from one_viewI [OF assms(2) p_make [OF this] v] have "one_view mx cap m n s t" .
  moreover have "v_wf pool n t"
  proof -
    have sl: "v_slots t ! k = (if k = i then Some (length (v_chans s)) else v_slots s ! k)" if "k < unat pool" for k
      using that wf o by (simp add: t_def v_wf_def)
    have "v_slots t ! k = Some ch \<Longrightarrow> ch < length (v_chans t)" if "k < unat pool" for k ch
      using that wf(1) sl [OF that] by (auto simp: v_wf_def t_def less_Suc_eq split: if_splits)
    moreover have "v_slots t ! k = Some ch \<Longrightarrow> v_slots t ! l = Some ch \<Longrightarrow> k = l" if "k < unat pool" "l < unat pool" for k l ch
      using that wf(1) sl unfolding v_wf_def by (metis less_irrefl option.inject)
    moreover have "\<exists>k < n. v_slots t ! k = Some (fst w)" if "w \<in> set (v_workers s)" for w
      using that wf(1) none sl unfolding v_wf_def by (metis option.distinct(1) order_less_le_trans)
    moreover have "v_hands t ! k = HPut ch r \<Longrightarrow> v_slots t ! k = Some ch" if "k < n" for k ch r
      using that wf none o assms(2) by (auto simp: t_def v_wf_def nth_list_update split: if_splits)
    moreover have "v_workers t = v_workers s" by (simp add: t_def)
    ultimately show ?thesis using wf(1) unfolding v_wf_def by (simp add: t_def)
  qed
  ultimately show ?thesis by blast
qed

lemma v_go_view:
  assumes "v_inv pool cap m n s" "i < n" "v_hands s ! i = HGo req" "v_slots s ! slot_of pool req = Some ch"
  defines "t \<equiv> set_hand i (HSend req) (s\<lparr>v_workers := v_workers s @ [(ch, WIdle)]\<rparr>)"
  shows "v_wf pool n t \<and> one_view mx cap m n s t"
proof -
  have o: "v_slots s ! i = Some ch" using v_inv_own(1) [OF assms(1,2), of req] assms(3,4) by simp
  have wf: "v_wf pool n s" "i < length (v_hands s)" using assms(1,2) by (auto simp: v_inv_def v_wf_def)
  have v: "view t k = (if k = i then (view s i)\<lparr>ph := HSend req, pw := pw (view s i) @ [WIdle]\<rparr> else view s k)" if "k < n" for k
    using v_slot_inj [OF assms(1,2) that o] wf(2) o
    by (auto simp: t_def view_def workers_on_def split: option.splits)
  have "ph (view s i) = HGo req" "pq (view s i) = Some (v_chans s ! ch)" using assms(3) o by (simp_all add: view_def)
  from one_viewI [OF assms(2) p_go [OF this] v] have "one_view mx cap m n s t" .
  moreover have "v_wf pool n (s\<lparr>v_workers := v_workers s @ [(ch, WIdle)]\<rparr>)" using wf(1) o assms(2) by (auto simp: v_wf_def)
  ultimately show ?thesis by (simp add: t_def v_wf_updates)
qed

lemma v_put_view:
  assumes "v_inv pool cap m n s" "i < n" "v_hands s ! i = HPut ch req" "length (v_chans s ! ch) < unat cap"
  defines "t \<equiv> set_hand i HIdle (set_chan ch (v_chans s ! ch @ [req]) s)"
  shows "v_wf pool n t \<and> one_view mx cap m n s t"
proof -
  have wf: "v_wf pool n s" "i < length (v_hands s)" using assms(1,2) by (auto simp: v_inv_def v_wf_def)
  have o: "v_slots s ! i = Some ch" "ch < length (v_chans s)" using wf(1) assms(2,3) unfolding v_wf_def by (metis order_less_le_trans)+
  have v: "view t k = (if k = i then (view s i)\<lparr>ph := HIdle, pq := Some (v_chans s ! ch @ [req])\<rparr> else view s k)" if "k < n" for k
    using v_slot_inj [OF assms(1,2) that o(1)] wf(2) o by (auto simp: t_def view_updates)
  have "ph (view s i) = HPut ch req" "pq (view s i) = Some (v_chans s ! ch)" using assms(3) o by (simp_all add: view_def)
  from one_viewI [OF assms(2) p_put [OF this assms(4)] v] wf(1) show ?thesis by (simp add: t_def v_wf_updates)
qed

lemma v_handoff_view:
  assumes "v_inv pool 0 m n s" "i < n" "v_hands s ! i = HPut ch req" "j < length (v_workers s)" "v_workers s ! j = (ch, WIdle)"
  defines "t \<equiv> set_hand i HIdle (set_worker j (ch, WRun req (outs m req)) s)"
  shows "v_wf pool n t \<and> one_view mx 0 m n s t"
proof -
  have wf: "v_wf pool n s" "i < length (v_hands s)" using assms(1,2) by (auto simp: v_inv_def v_wf_def)
  have o: "v_slots s ! i = Some ch" using wf(1) assms(2,3) unfolding v_wf_def by metis
  from v_worker_view [OF assms(1,4,5)] obtain l where l: "l < n" "v_slots s ! l = Some ch" "pw (view s l) = [WIdle]"
      "v_wf pool n (set_worker j (ch, WRun req (outs m req)) s)"
      "\<And>k. k < n \<Longrightarrow> view (set_worker j (ch, WRun req (outs m req)) s) k = (if k = l then (view s k)\<lparr>pw := [WRun req (outs m req)]\<rparr> else view s k)"
    by metis
  have li: "l = i" using v_slot_inj [OF assms(1) l(1) assms(2) l(2)] o by simp
  have v: "view t k = (if k = i then (view s i)\<lparr>ph := HIdle, pw := [WRun req (outs m req)]\<rparr> else view s k)" if "k < n" for k
    using l(5) [OF that] wf(2) li by (cases "k = i") (simp_all add: t_def view_updates)
  have "ph (view s i) = HPut ch req" using assms(3) by (simp add: view_def)
  from one_viewI [OF assms(2) p_handoff [OF this refl l(3) [unfolded li]] v] l(4) show ?thesis by (simp add: t_def v_wf_updates)
qed

text \<open>The steps of the workers.\<close>

lemma w_take_view:
  assumes "v_inv pool cap m n s" "j < length (v_workers s)" "v_workers s ! j = (ch, WIdle)" "v_chans s ! ch = req # q"
  defines "t \<equiv> set_worker j (ch, WRun req (outs m req)) (set_chan ch q s)"
  shows "v_wf pool n t \<and> one_view mx cap m n s t"
proof -
  from v_worker_view [OF assms(1-3)] obtain i where i: "i < n" "v_slots s ! i = Some ch" "pw (view s i) = [WIdle]"
      "v_wf pool n (set_worker j (ch, WRun req (outs m req)) s)"
      "\<And>k. k < n \<Longrightarrow> view (set_worker j (ch, WRun req (outs m req)) s) k = (if k = i then (view s k)\<lparr>pw := [WRun req (outs m req)]\<rparr> else view s k)"
    by metis
  have ch: "ch < length (v_chans s)" using assms(1) i(1,2) unfolding v_inv_def v_wf_def by (metis order_less_le_trans)
  have t: "t = set_chan ch q (set_worker j (ch, WRun req (outs m req)) s)" by (simp add: t_def set_worker_def set_chan_def)
  have v: "view t k = (if k = i then (view s i)\<lparr>pq := Some q, pw := [WRun req (outs m req)]\<rparr> else view s k)" if "k < n" for k
    using i(5) [OF that] v_slot_inj [OF assms(1) i(1) that i(2)] ch by (cases "k = i") (simp_all add: t view_updates)
  have "pq (view s i) = Some (req # q)" using i(2) assms(4) by (simp add: view_def)
  from one_viewI [OF i(1) p_take [OF i(3) this] v] v_wf_updates(3) [OF i(4)] show ?thesis by (simp add: t)
qed

lemma w_send_view:
  assumes "v_inv pool cap m n s" "v_alive s" "j < length (v_workers s)" "v_workers s ! j = (ch, WRun req ((x, d) # ms))"
    and "c = v_conns s ! conn_of req"
  defines "t \<equiv> set_worker j (ch, WWait req (length (z_senders c)) ms) (set_conn (conn_of req) (call_send x d c) s)"
  shows "v_wf pool n t \<and> one_view mx cap m n s t"
proof -
  let ?w = "WWait req (length (z_senders c)) ms"
  from v_worker_view [OF assms(1,3,4)] obtain i where i: "i < n" "v_slots s ! i = Some ch" "pw (view s i) = [WRun req ((x, d) # ms)]"
      "v_wf pool n (set_worker j (ch, ?w) s)"
      "\<And>k. k < n \<Longrightarrow> view (set_worker j (ch, ?w) s) k = (if k = i then (view s k)\<lparr>pw := [?w]\<rparr> else view s k)"
    by metis
  have o: "conn_of req = i" using v_inv_own(2) [OF assms(1) i(1), of req] i(3) by simp
  have c: "c = pc (view s i)" "i < length (v_conns s)" using assms(1,5) o i(1) by (auto simp: view_def v_inv_def v_wf_def)
  have t: "t = set_conn i (call_send x d c) (set_worker j (ch, ?w) s)" by (simp add: t_def o set_worker_def set_conn_def)
  have v: "view t k = (if k = i then (view s i)\<lparr>pc := call_send x d (pc (view s i)), pw := [WWait req (length (z_senders (pc (view s i)))) ms]\<rparr>
      else view s k)" if "k < n" for k
    using i(5) [OF that] c by (cases "k = i") (simp_all add: t view_updates)
  have "\<not> z_crashed (pc (view s i))" using assms(2) c by (auto simp: v_alive_def view_def)
  from one_viewI [OF i(1) p_call [OF i(3) this] v] v_wf_updates(1) [OF i(4)] show ?thesis by (simp add: t)
qed

lemma v_step_view:
  assumes "v_step mx pool cap m s t" "v_inv pool cap m n s"
  shows "v_wf pool n t \<and> one_view mx cap m n s t"
  using assms
proof (induction rule: v_step.induct)
  case (v_conn s i c)
  then have wf: "v_wf pool n s" "i < n" by (auto simp: v_inv_def v_wf_def)
  have "one_view mx cap m n s (set_conn i c s)"
    by (rule one_viewI [OF wf(2) p_conn [of mx _ c]]) (use v_conn in \<open>auto simp: view_updates view_def [of s i]\<close>)
  with wf show ?case by (simp add: v_wf_updates)
next
  case (v_msg s i c req)
  then have wf: "v_wf pool n s" "i < n" by (auto simp: v_inv_def v_wf_def)
  have "one_view mx cap m n s (set_hand i (HCheck req) (set_conn i c s))"
    by (rule one_viewI [OF wf(2) p_msg [of mx _ c req]])
      (use v_msg wf in \<open>auto simp: v_wf_def view_updates view_def [of s i]\<close>)
  with wf show ?case by (simp add: v_wf_updates)
next
  case (v_nil s i req)
  then have i: "i < n" "slot_of pool req = i" using v_inv_own(1) [OF v_nil.prems, of i req] by (auto simp: v_inv_def v_wf_def)
  with v_nil show ?case by (intro v_hand_view p_nil) (auto simp: view_def)
next
  case (v_nonnil s i req ch)
  then have i: "i < n" "slot_of pool req = i" using v_inv_own(1) [OF v_nonnil.prems, of i req] by (auto simp: v_inv_def v_wf_def)
  with v_nonnil show ?case by (intro v_hand_view p_nonnil) (auto simp: view_def)
next
  case (v_send s i req ch)
  then have i: "i < n" "slot_of pool req = i" using v_inv_own(1) [OF v_send.prems, of i req] by (auto simp: v_inv_def v_wf_def)
  with v_send show ?case by (intro v_hand_view p_send) (auto simp: view_def)
next
  case (w_sent s j ch req x ms f e)
  from v_worker_view [OF w_sent.prems w_sent(2,3)] obtain i where i: "i < n" "pw (view s i) = [WWait req x ms]"
      "v_wf pool n (set_worker j (ch, WRun req ms) s)"
      "\<And>k. k < n \<Longrightarrow> view (set_worker j (ch, WRun req ms) s) k = (if k = i then (view s k)\<lparr>pw := [WRun req ms]\<rparr> else view s k)" by metis
  have "z_senders (pc (view s i)) ! x = SdDone f e" using v_inv_own(2) [OF w_sent.prems i(1), of req] i(2) w_sent(4) by (simp add: view_def)
  from one_viewI [OF i(1) p_sent [OF i(2) this]] i(3,4) show ?case by (simp cong: if_cong)
next
  case (w_done s j ch req)
  from v_worker_view [OF w_done.prems w_done(2,3)] obtain i where i: "i < n" "pw (view s i) = [WRun req []]"
      "v_wf pool n (set_worker j (ch, WIdle) s)"
      "\<And>k. k < n \<Longrightarrow> view (set_worker j (ch, WIdle) s) k = (if k = i then (view s k)\<lparr>pw := [WIdle]\<rparr> else view s k)" by metis
  from one_viewI [OF i(1) p_done [OF i(2)]] i(3,4) show ?case by (simp cong: if_cong)
next
  case (v_div s i req)
  then show ?case by (auto simp: v_inv_def v_wf_def)
next
  case (v_handoff s i ch req j)
  then show ?case using v_handoff_view v_inv_hand by blast
next
  case (v_make s i req)
  then show ?case using v_make_view v_inv_hand by blast
next
  case (v_go s i req ch)
  then show ?case using v_go_view v_inv_hand by blast
next
  case (v_put s i ch req)
  then show ?case using v_put_view v_inv_hand by blast
next
  case (w_take s j ch req q)
  then show ?case using w_take_view by blast
next
  case (w_send s j ch req n d ms c)
  then show ?case using w_send_view by blast
qed

lemma v_inv_init:
  assumes "length ins = n" "n \<le> unat pool"
  shows "v_inv pool cap m n (v_init pool ins)"
proof -
  have "view (v_init pool ins) i = \<lparr>pc = z_init (of_nat i) (ins ! i), ph = HIdle, pq = None, pw = []\<rparr>" if "i < n" for i
    using that assms by (simp add: view_def v_init_def nth_enumerate_eq)
  then have "pipe_inv cap m (of_nat i) (view (v_init pool ins) i)" if "i < n" for i
    using that by (simp add: pipe_inv_def z_init_def queue_of_def sends_ok_def frames_def)
  moreover have "v_wf pool n (v_init pool ins)" using assms by (simp add: v_wf_def v_init_def)
  ultimately show ?thesis by (simp add: v_inv_def)
qed

interpretation vi: inductive_invariant "\<lambda>s. \<exists>ins. length ins = n \<and> n \<le> unat pool \<and> s = v_init pool ins" "v_step mx pool cap m"
  "v_inv pool cap m n" for mx pool cap m n
proof (unfold_locales, goal_cases)
  case (1 s)
  then show ?case by (auto intro: v_inv_init)
next
  case (2 s t)
  from v_step_view [OF 2(2,1)] obtain i where i: "v_wf pool n t" "i < n" "p_step mx cap m (view s i) (view t i)"
      "\<forall>k < n. k \<noteq> i \<longrightarrow> view t k = view s k" by (auto simp: one_view_def)
  with 2(1) pipe_inv_step [OF i(3)] show ?case by (metis v_inv_def)
qed

lemma reach_v_inv:
  assumes "reach (\<lambda>s. s = v_init pool ins) (v_step mx pool cap m) s" "length ins \<le> unat pool"
  shows "v_inv pool cap m (length ins) s"
  using assms(1)
proof (induction rule: reach.induct)
  case (reach_init s)
  then show ?case using assms(2) v_inv_init by blast
next
  case (reach_step s t)
  then show ?case using vi.Inv_step by blast
qed

text \<open>Each connection runs as a connection does on its own.\<close>

lemma p_step_run: "p_step mx cap m v v' \<Longrightarrow> pc v' = pc v \<or> z_run mx False (pc v) (pc v')"
  by (induction rule: p_step.induct) (auto simp: z_run_def call_send_def intro: call_SendMsg)

lemma v_conn_reach:
  assumes "reach (\<lambda>s. s = v_init pool ins) (v_step mx pool cap m) s" "length ins \<le> unat pool" "i < length ins"
  shows "reach (\<lambda>c. c = z_init (of_nat i) (ins ! i)) (z_run mx False) (v_conns s ! i)"
  using assms(1)
proof (induction rule: reach.induct)
  case (reach_init s)
  then show ?case using assms(3) by (auto simp: v_init_def nth_enumerate_eq intro: reach.reach_init)
next
  case (reach_step s t)
  have "v_inv pool cap m (length ins) s" using reach_step(1) assms(2) by (rule reach_v_inv)
  with reach_step(2) have "one_view mx cap m (length ins) s t" using v_step_view by blast
  then have "view t i = view s i \<or> p_step mx cap m (view s i) (view t i)" using assms(3) by (auto simp: one_view_def)
  then have "v_conns t ! i = v_conns s ! i \<or> z_run mx False (v_conns s ! i) (v_conns t ! i)"
    using p_step_run by (fastforce simp: view_def)
  then show ?case using reach_step(3) by (auto intro: reach.reach_step)
qed

text \<open>The chunks of a connection carry these messages.\<close>

definition carries :: "u32 \<Rightarrow> Message list \<Rightarrow> bytes list \<Rightarrow> bool" where
  "carries mx ms cs \<longleftrightarrow> (\<exists>css. dp.framed mx ms css \<and> cs = concat css)"

definition requests :: "nat \<Rightarrow> Message list \<Rightarrow> zrequest list" where
  "requests i ms = map (\<lambda>msg. \<lparr>z_conn = of_nat i, z_msg = msg\<rparr>) ms"

text \<open>The replies to messages: what the handlers send for them, in the order of the messages.\<close>

definition answers :: "outbox MsgHandle \<Rightarrow> nat \<Rightarrow> Message list \<Rightarrow> bytes list" where
  "answers m i ms = frames (concat (map (outs m) (requests i ms)))"

lemma v_conn_shut:
  assumes "reach (\<lambda>s. s = v_init pool ins) (v_step mx pool cap m) s" "list_all2 (carries mx) mss ins" "length ins \<le> unat pool" "i < length ins"
  shows "shut_inv mx (of_nat i) (mss ! i) (v_conns s ! i) \<and> write_inv (v_conns s ! i)"
proof -
  let ?c = "v_conns s ! i"
  have r: "reach (\<lambda>c. c = z_init (of_nat i) (ins ! i)) (z_run mx False) ?c" using v_conn_reach [OF assms(1,3,4)] .
  have "carries mx (mss ! i) (ins ! i)" using assms(2,4) by (simp add: list_all2_conv_all_nth)
  then obtain css where css: "dp.framed mx (mss ! i) css" "ins ! i = concat css" by (auto simp: carries_def)
  have "shut_inv mx (of_nat i) (mss ! i) ?c"
    using r by (induction rule: reach.induct) (use css in \<open>auto intro: zs.Inv_init zs.Inv_step\<close>)
  moreover have "write_inv ?c" using r by (induction rule: reach.induct) (auto intro: zw.Inv_init zw.Inv_step)
  ultimately show ?thesis ..
qed

lemma shut_inv_prefix:
  assumes "shut_inv mx (of_nat i) ms c"
  shows "prefix (z_dispatched c) (requests i ms)"
  using assms by (auto simp: shut_inv_def Let_def requests_def split: zreader.splits intro: prefixI [OF sym])

lemma pipe_inv_taken:
  assumes "pipe_inv cap m cid v"
  shows "prefix (z_taken (pc v)) (frames (concat (map (outs m) (z_dispatched (pc v)))))"
proof -
  from assms obtain h where h: "z_dispatched (pc v) = h @ worker_has (pw v) @ queue_of (pq v) @ reader_has (ph v)"
      "work_ok m (pc v) (concat (map (outs m) h)) (pw v)" by (auto simp: pipe_inv_def)
  have "\<exists>F P. sends_ok (pc v) (frames F) P \<and> prefix F (concat (map (outs m) (h @ worker_has (pw v))))"
    using h(2) by (cases "(m, pc v, concat (map (outs m) h), pw v)" rule: work_ok.cases) (auto simp: prefix_def)
  then obtain F P where "sends_ok (pc v) (frames F) P" "prefix F (concat (map (outs m) (z_dispatched (pc v))))"
    unfolding h(1) by (metis append_assoc concat_append map_append prefix_prefix)
  moreover from this(1) have "prefix (z_taken (pc v)) (frames F)" by (auto simp: sends_ok_def)
  ultimately show ?thesis by (metis frames_def map_mono_prefix prefix_order.trans)
qed

end
