(* ===== verification/ZAnswers.thy ===== *)
theory ZAnswers
  imports ZPipeline
begin

text \<open>
  What the clients of a \<^verbatim>\<open>myzinx\<close> server see: the answers to their messages, in order (from the
  invariant of \<open>ZPipeline\<close>), and all of them (every step takes a message on its way, and a connection on
  which nothing moves has no message left); and a run of two readers that meet in
  \<open>SendMsgToTaskQueue\<close>, after which the answers are out of order.
\<close>

section \<open>Progress\<close>

text \<open>The work left for a request at each point of its way, and for a connection.\<close>

definition msgs_left :: "outbox MsgHandle \<Rightarrow> zrequest \<Rightarrow> nat" where
  "msgs_left m r = 10 * length (outs m r)"

fun hand_weight :: "outbox MsgHandle \<Rightarrow> zhand \<Rightarrow> nat" where
  "hand_weight m HIdle = 0"
| "hand_weight m (HCheck r) = msgs_left m r + 9"
| "hand_weight m (HMake r) = msgs_left m r + 8"
| "hand_weight m (HGo r) = msgs_left m r + 7"
| "hand_weight m (HSend r) = msgs_left m r + 6"
| "hand_weight m (HPut ch r) = msgs_left m r + 5"

fun worker_weight :: "zworker \<Rightarrow> nat" where
  "worker_weight WIdle = 0"
| "worker_weight (WRun r ms) = 10 * length ms + 3"
| "worker_weight (WWait r x ms) = 10 * length ms + 4"

definition pipe_weight :: "outbox MsgHandle \<Rightarrow> zrequest list \<Rightarrow> pview \<Rightarrow> nat" where
  "pipe_weight m all v = z_weight (pc v) + ((\<Sum>r\<leftarrow>all. msgs_left m r + 10) - (\<Sum>r\<leftarrow>z_dispatched (pc v). msgs_left m r + 10)) +
     hand_weight m (ph v) + (\<Sum>r\<leftarrow>queue_of (pq v). msgs_left m r + 4) + (\<Sum>w\<leftarrow>pw v. worker_weight w)"

lemma pipe_weight_step:
  assumes "p_step mx cap m v v'" "shut_inv mx cid ms (pc v)" "hand_ok cap (ph v) (pq v) (pw v)" "prefix (z_dispatched (pc v')) all"
  shows "pipe_weight m all v' < pipe_weight m all v"
  using assms
proof (induction rule: p_step.induct)
  case (p_conn v c)
  with z_weight_step [OF p_conn(1)] show ?case by (simp add: pipe_weight_def)
next
  case (p_msg v c req)
  have "z_weight c < z_weight (pc v)" using z_weight_step [OF p_msg(1)] p_msg(4) .
  moreover from p_msg obtain zs where "all = z_dispatched (pc v) @ req # zs" by (auto simp: prefix_def)
  ultimately show ?case using p_msg by (simp add: pipe_weight_def)
qed (auto simp: pipe_weight_def queue_of_def msgs_left_def call_send_def z_weight_def)

lemma v_weight_step:
  assumes "v_step mx pool cap m s t" "v_inv pool cap m n s"
    and "\<And>i. i < n \<Longrightarrow> shut_inv mx (of_nat i) (mss ! i) (v_conns s ! i) \<and> shut_inv mx (of_nat i) (mss ! i) (v_conns t ! i)"
  shows "(\<Sum>i<n. pipe_weight m (requests i (mss ! i)) (view t i)) < (\<Sum>i<n. pipe_weight m (requests i (mss ! i)) (view s i))"
proof -
  let ?W = "\<lambda>u i. pipe_weight m (requests i (mss ! i)) (view u i)"
  from v_step_view [OF assms(1,2)] obtain i where i: "i < n" "p_step mx cap m (view s i) (view t i)"
      "\<And>k. k < n \<Longrightarrow> k \<noteq> i \<Longrightarrow> view t k = view s k" by (auto simp: one_view_def)
  have "?W t i < ?W s i"
    by (rule pipe_weight_step [OF i(2)])
      (use assms(2,3) i(1) shut_inv_prefix [of mx i "mss ! i" "v_conns t ! i"] in \<open>auto simp: v_inv_def pipe_inv_def view_def\<close>)
  moreover from this have "?W t k \<le> ?W s k" if "k < n" for k using i(3) [OF that] by (cases "k = i") auto
  ultimately show ?thesis using i(1) by (intro sum_strict_mono_ex1) auto
qed

text \<open>
  Nothing happens any more to a connection, its queue and its worker, unless its reader finds the
  end of the stream.
\<close>

definition idle_on :: "u32 \<Rightarrow> u32 \<Rightarrow> u32 \<Rightarrow> outbox MsgHandle \<Rightarrow> nat \<Rightarrow> zsrv \<Rightarrow> bool" where
  "idle_on mx pool cap m i s \<longleftrightarrow>
     (\<forall>t. v_step mx pool cap m s t \<longrightarrow> view t i = view s i \<or> (\<exists>e. z_rd (v_conns t ! i) = RdExit e))"

text \<open>An open connection: its reader waits for data and its writer runs.\<close>

definition open_conn :: "zsys \<Rightarrow> bool" where
  "open_conn c \<longleftrightarrow> z_rd c = RdUnpack \<and> z_wr c \<noteq> WrEnd"

lemma idle_onD:
  assumes "idle_on mx pool cap m i s" "v_step mx pool cap m s t" "z_rd (v_conns t ! i) = RdUnpack"
  shows "view t i = view s i"
  using assms by (auto simp: idle_on_def)

lemma view_sel [simp]: "pc (view s i) = v_conns s ! i" "ph (view s i) = v_hands s ! i"
  by (simp_all add: view_def)

lemma idle_hand:
  assumes "idle_on mx pool cap m i s" "v_inv pool cap m n s" "v_alive s" "i < n" "open_conn (v_conns s ! i)"
  shows "v_hands s ! i = HIdle \<or> (\<exists>ch r. v_hands s ! i = HPut ch r)"
proof (rule ccontr)
  assume no: "\<not> ?thesis"
  have len: "i < length (v_hands s)" "pool \<noteq> 0" using assms(2,4) by (auto simp: v_inv_def v_wf_def)
  have rd: "z_rd (v_conns s ! i) = RdUnpack" using assms(5) by (simp add: open_conn_def)
  have ok: "hand_ok cap (v_hands s ! i) (pq (view s i)) (pw (view s i))" using assms(2,4) by (auto simp: v_inv_def pipe_inv_def)
  have own: "slot_of pool r = i" if "reader_has (v_hands s ! i) = [r]" for r using v_inv_own(1) [OF assms(2,4), of r] that by simp
  have "\<exists>t h. v_step mx pool cap m s t \<and> v_conns t = v_conns s \<and> ph (view t i) = h \<and> h \<noteq> v_hands s ! i"
  proof (cases "v_hands s ! i")
    case (HCheck r)
    then show ?thesis using v_nil [OF assms(3) len(1) HCheck len(2)] v_nonnil [OF assms(3) len(1) HCheck len(2)] len(1)
      by (cases "v_slots s ! slot_of pool r") fastforce+
  next
    case (HMake r)
    then show ?thesis using v_make [OF assms(3) len(1) HMake] len(1) by fastforce
  next
    case (HGo r)
    then have "v_slots s ! slot_of pool r \<noteq> None" using ok own [of r] by (auto simp: view_def)
    then show ?thesis using v_go [OF assms(3) len(1) HGo] len(1) HGo by fastforce
  next
    case (HSend r)
    then have "v_slots s ! slot_of pool r \<noteq> None" using ok own [of r] by (auto simp: view_def)
    then show ?thesis using v_send [OF assms(3) len(1) HSend] len(1) HSend by fastforce
  qed (use no in auto)
  then obtain t where "v_step mx pool cap m s t" "v_conns t = v_conns s" "ph (view t i) \<noteq> v_hands s ! i" by blast
  with idle_onD [OF assms(1), of t] rd show False by simp
qed

lemma view_worker:
  assumes "pw (view s i) = [w]"
  obtains j ch where "v_slots s ! i = Some ch" "j < length (v_workers s)" "v_workers s ! j = (ch, w)"
proof -
  from assms obtain ch where ch: "v_slots s ! i = Some ch" "workers_on (v_workers s) ch = [w]" by (auto simp: view_def split: option.splits)
  then have "(ch, w) \<in> set (v_workers s)" by (auto simp: workers_on_def filter_eq_Cons_iff map_eq_Cons_conv)
  then show ?thesis using ch(1) that by (metis in_set_conv_nth)
qed

lemma pview_pw_eq: "v\<lparr>pw := ws\<rparr> = v \<longleftrightarrow> pw v = ws"
  by (cases v) auto

lemma view_set_worker:
  assumes "v_inv pool cap m n s" "i < n" "v_slots s ! i = Some ch" "j < length (v_workers s)" "v_workers s ! j = (ch, w)"
  shows "view (set_worker j (ch, w') s) i = (view s i)\<lparr>pw := [w']\<rparr>"
proof -
  obtain i' where "i' < n" "v_slots s ! i' = Some ch"
      "\<And>w' k. k < n \<Longrightarrow> view (set_worker j (ch, w') s) k = (if k = i' then (view s k)\<lparr>pw := [w']\<rparr> else view s k)"
    using v_worker_view [OF assms(1,4,5)] by metis
  then show ?thesis using v_slot_inj [OF assms(1), of i' i ch] assms(2,3) by simp
qed

text \<open>No goroutine of an idle connection other than the reader can do anything.\<close>

lemma idle_conn:
  assumes "idle_on mx pool cap m i s" "v_alive s" "i < length (v_conns s)" "open_conn (v_conns s ! i)"
    and "z_step mx (v_conns s ! i) c" "z_dispatched c = z_dispatched (v_conns s ! i)" "reader_still (v_conns s ! i) c"
  shows "c = v_conns s ! i"
proof -
  have "v_step mx pool cap m s (set_conn i c s)" using v_conn [OF assms(2,3,5,6)] assms(7) by blast
  from idle_onD [OF assms(1) this] have "view (set_conn i c s) i = view s i"
    using assms(3,4,7) by (simp add: reader_still_def open_conn_def)
  then have "pc (view (set_conn i c s) i) = v_conns s ! i" by simp
  with assms(3) show ?thesis by simp
qed

lemma idle_writer:
  assumes "idle_on mx pool cap m i s" "v_alive s" "i < length (v_conns s)" "open_conn (v_conns s ! i)"
    and "\<not> z_tcp_closed (v_conns s ! i)"
  shows "z_wr (v_conns s ! i) = WrSelect"
proof (cases "z_wr (v_conns s ! i)")
  case (WrWrite g)
  have "\<not> z_crashed (v_conns s ! i)" using assms(2,3) by (auto simp: v_alive_def)
  from idle_conn [OF assms(1-4) wr_write [OF this WrWrite assms(5)]] WrWrite show ?thesis
    by (auto simp: reader_still_def dest: arg_cong [of _ _ z_wr])
qed (use assms(4) in \<open>auto simp: open_conn_def\<close>)

lemma idle_senders:
  assumes "idle_on mx pool cap m i s" "v_alive s" "i < length (v_conns s)" "open_conn (v_conns s ! i)"
    and "\<not> z_tcp_closed (v_conns s ! i)" "x < length (z_senders (v_conns s ! i))"
  shows "\<exists>f e. z_senders (v_conns s ! i) ! x = SdDone f e"
proof -
  let ?c = "v_conns s ! i"
  have nc: "\<not> z_crashed ?c" using assms(2,3) by (auto simp: v_alive_def)
  note idle = idle_conn [OF assms(1-4)] and wr = idle_writer [OF assms(1-5)]
  have upd: "y = z_senders ?c ! x" if "z_step mx ?c c" "z_senders c = (z_senders ?c)[x := y]" "z_dispatched c = z_dispatched ?c" "reader_still ?c c" for c y
    using idle [OF that(1,3,4)] that(2) assms(6) by (metis nth_list_update_eq)
  show ?thesis
  proof (cases "z_senders ?c ! x")
    case (SdCheck n d)
    show ?thesis
      by (cases "z_isClosed ?c") (use upd [OF sd_closed [OF nc assms(6) SdCheck]] upd [OF sd_pack [OF nc assms(6) SdCheck], of "SdChan (Pack (NewMsgPackage n d))"] SdCheck in
        \<open>simp_all add: reader_still_def\<close>)
  next
    case (SdChan f)
    from upd [OF wr_take [OF nc wr assms(6) SdChan], of "SdDone f None"] SdChan show ?thesis by (simp add: reader_still_def)
  qed auto
qed

text \<open>A worker in a handler has something to do, or waits for the writer, which has.\<close>

lemma idle_worker:
  assumes "idle_on mx pool cap m i s" "v_inv pool cap m n s" "v_alive s" "i < n" "open_conn (v_conns s ! i)"
    and "\<not> z_tcp_closed (v_conns s ! i)" "pw (view s i) = [w]"
  shows "w = WIdle"
proof (cases w)
  let ?c = "v_conns s ! i"
  have rd: "z_rd ?c = RdUnpack" and len: "i < length (v_conns s)" using assms(2,4,5) by (auto simp: open_conn_def v_inv_def v_wf_def)
  obtain j ch where j: "v_slots s ! i = Some ch" "j < length (v_workers s)" "v_workers s ! j = (ch, w)" using view_worker [OF assms(7)] .
  have own: "conn_of r = i" if "worker_has [w] = [r]" for r using v_inv_own(2) [OF assms(2,4), of r] that assms(7) by simp
  note pw = view_set_worker [OF assms(2,4) j]
  {
    case (WRun r ms)
    show ?thesis
    proof (cases ms)
      case Nil
      from idle_onD [OF assms(1) w_done [OF assms(3) j(2) j(3) [unfolded WRun Nil]]] rd pw [of WIdle] assms(7) show ?thesis
        by (simp add: pview_pw_eq)
    next
      case (Cons x ms')
      obtain nn d where x: "x = (nn, d)" by (cases x)
      let ?t = "set_worker j (ch, WWait r (length (z_senders ?c)) ms') (set_conn i (call_send nn d ?c) s)"
      have "v_step mx pool cap m s ?t"
        using w_send [OF assms(3) j(2) j(3) [unfolded WRun Cons x] refl] own WRun by simp
      from idle_onD [OF assms(1) this] len rd have "pc (view ?t i) = ?c" by (simp add: call_send_def)
      then show ?thesis using len by (auto simp: call_send_def dest: arg_cong [of _ _ "\<lambda>c. length (z_senders c)"])
    qed
  next
    case (WWait r x ms)
    have "pipe_inv cap m (of_nat i) (view s i)" using assms(2,4) by (simp add: v_inv_def)
    then have "x < length (z_senders ?c)" using assms(7) WWait by (auto simp: pipe_inv_def)
    then obtain f e where "z_senders ?c ! x = SdDone f e" using idle_senders [OF assms(1,3) len assms(5,6)] by blast
    then have "v_step mx pool cap m s (set_worker j (ch, WRun r ms) s)"
      by (intro w_sent [OF assms(3) j(2) j(3) [unfolded WWait]]) (use own WWait in simp)
    from idle_onD [OF assms(1) this] rd pw [of "WRun r ms"] assms(7) WWait show ?thesis by (simp add: pview_pw_eq)
  }
qed

lemma idle_queue:
  assumes "idle_on mx pool cap m i s" "v_alive s" "z_rd (v_conns s ! i) = RdUnpack" "pw (view s i) = [WIdle]" "pq (view s i) = Some q"
    and "v_inv pool cap m n s" "i < n"
  shows "q = []"
proof (cases q)
  case (Cons r q')
  obtain j ch where j: "v_slots s ! i = Some ch" "j < length (v_workers s)" "v_workers s ! j = (ch, WIdle)" using view_worker [OF assms(4)] .
  have "v_chans s ! ch = r # q'" using assms(5) j(1) Cons by (simp add: view_def)
  from idle_onD [OF assms(1) w_take [OF assms(2) j(2,3) this]] assms(3,5) Cons
  have "pq (view (set_worker j (ch, WRun r (outs m r)) (set_chan ch q' s)) i) = Some (r # q')" by simp
  moreover have "ch < length (v_chans s)" using assms(6,7) j(1) unfolding v_inv_def v_wf_def by (metis order_less_le_trans)
  ultimately show ?thesis using j(1) by (simp add: view_def)
qed

text \<open>An idle open connection has no request left, anywhere.\<close>

lemma idle_empty:
  assumes "idle_on mx pool cap m i s" "v_inv pool cap m n s" "v_alive s" "i < n" "open_conn (v_conns s ! i)"
    and "\<not> z_tcp_closed (v_conns s ! i)"
  shows "v_hands s ! i = HIdle \<and> queue_of (pq (view s i)) = [] \<and> pw (view s i) \<in> {[], [WIdle]}"
proof -
  have len: "i < length (v_hands s)" and ok: "hand_ok cap (v_hands s ! i) (pq (view s i)) (pw (view s i))"
    using assms(2,4) by (auto simp: v_inv_def v_wf_def pipe_inv_def)
  have hand: "v_hands s ! i = HIdle \<or> (\<exists>ch r. v_hands s ! i = HPut ch r)" by (rule idle_hand [OF assms(1-5)])
  have rd: "z_rd (v_conns s ! i) = RdUnpack" using assms(5) by (simp add: open_conn_def)
  have ws: "pw (view s i) = [WIdle]" if "length (pw (view s i)) = 1"
    using that idle_worker [OF assms] by (cases "pw (view s i)") auto
  note q = idle_queue [OF assms(1,3) rd _ _ assms(2,4)]
  have "\<not> (\<exists>ch r. v_hands s ! i = HPut ch r)"
  proof
    assume "\<exists>ch r. v_hands s ! i = HPut ch r"
    then obtain ch r where h: "v_hands s ! i = HPut ch r" by blast
    then obtain q0 where q0: "pq (view s i) = Some q0" "pw (view s i) = [WIdle]" using ok ws by auto
    obtain j ch' where j: "v_slots s ! i = Some ch'" "j < length (v_workers s)" "v_workers s ! j = (ch', WIdle)" using view_worker [OF q0(2)] .
    have ch: "ch' = ch" using assms(2,4) h j(1) by (auto simp: v_inv_def v_wf_def)
    have "v_chans s ! ch = []" using q [OF q0(2,1)] q0(1) j(1) ch by (simp add: view_def)
    then have "\<exists>t. v_step mx pool cap m s t \<and> v_conns t = v_conns s \<and> v_hands t ! i = HIdle"
      using v_put [OF assms(3) len h] v_handoff [OF assms(3) len h _ j(2) j(3) [unfolded ch]] len
      by (cases "cap = 0") (fastforce simp: unat_gt_0)+
    then obtain t where "v_step mx pool cap m s t" "v_conns t = v_conns s" "v_hands t ! i = HIdle" by blast
    with idle_onD [OF assms(1), of t] rd h view_sel(2) show False by (metis zhand.distinct(9))
  qed
  with hand have "v_hands s ! i = HIdle" by blast
  moreover from this ok have "pw (view s i) = [] \<or> length (pw (view s i)) = 1" "pq (view s i) = None \<or> length (pw (view s i)) = 1"
    by (auto split: option.splits)
  ultimately show ?thesis using ws q by (auto simp: queue_of_def split: option.splits)
qed

section \<open>Two connections, one slot\<close>

text \<open>
  A run in which two readers find the same slot nil: connections 0 and 1 of a server with one worker
  slot, and a handler that sends back the data of its message.
\<close>

definition echo :: "outbox MsgHandle" where
  "echo = (NewMsgHandle default_GlobalObject)\<lparr>Apis := [1 \<mapsto> BaseRouter\<lparr>Handle := (\<lambda>r w. w @ [(1, req_GetData r)])\<rparr>]\<rparr>"

definition note_msg :: "u8 \<Rightarrow> Message" where
  "note_msg b = NewMsgPackage 1 [b]"

definition race_ins :: "bytes list list" where
  "race_ins = [[Pack (note_msg 65), Pack (note_msg 66)], [Pack (note_msg 67)]]"

definition duo :: "zsys \<Rightarrow> zsys \<Rightarrow> zhand \<Rightarrow> zhand \<Rightarrow> nat option \<Rightarrow> zrequest list list \<Rightarrow> (nat \<times> zworker) list \<Rightarrow> zsrv" where
  "duo c0 c1 h0 h1 slot chs ws = \<lparr>v_conns = [c0, c1], v_hands = [h0, h1], v_slots = [slot], v_chans = chs, v_workers = ws\<rparr>"

lemma duo_simps [simp]:
  "v_conns (duo c0 c1 h0 h1 slot chs ws) = [c0, c1]" "v_hands (duo c0 c1 h0 h1 slot chs ws) = [h0, h1]"
  "v_slots (duo c0 c1 h0 h1 slot chs ws) = [slot]" "v_chans (duo c0 c1 h0 h1 slot chs ws) = chs"
  "v_workers (duo c0 c1 h0 h1 slot chs ws) = ws"
  "set_hand 0 h (duo c0 c1 h0 h1 slot chs ws) = duo c0 c1 h h1 slot chs ws"
  "set_hand (Suc 0) h (duo c0 c1 h0 h1 slot chs ws) = duo c0 c1 h0 h slot chs ws"
  "set_conn 0 c (duo c0 c1 h0 h1 slot chs ws) = duo c c1 h0 h1 slot chs ws"
  "set_conn (Suc 0) c (duo c0 c1 h0 h1 slot chs ws) = duo c0 c h0 h1 slot chs ws"
  "set_worker j w (duo c0 c1 h0 h1 slot chs ws) = duo c0 c1 h0 h1 slot chs (ws[j := w])"
  "set_chan ch q (duo c0 c1 h0 h1 slot chs ws) = duo c0 c1 h0 h1 slot (chs[ch := q]) ws"
  "v_alive (duo c0 c1 h0 h1 slot chs ws) \<longleftrightarrow> \<not> z_crashed c0 \<and> \<not> z_crashed c1"
  by (simp_all add: duo_def set_hand_def set_conn_def set_worker_def set_chan_def v_alive_def)

lemma duo_make: "(duo c0 c1 h0 h1 slot chs ws)\<lparr>v_slots := [s'], v_chans := chs'\<rparr> = duo c0 c1 h0 h1 s' chs' ws"
  "(duo c0 c1 h0 h1 slot chs ws)\<lparr>v_workers := ws'\<rparr> = duo c0 c1 h0 h1 slot chs ws'"
  by (simp_all add: duo_def)

lemma slot_of_one [simp]: "slot_of 1 r = 0"
  by (simp add: slot_of_def unat_mod)

definition note_req :: "u32 \<Rightarrow> u8 \<Rightarrow> zrequest" where
  "note_req i b = \<lparr>z_conn = i, z_msg = note_msg b\<rparr>"

lemma note_facts: "outs echo (note_req i b) = [(1, [b])]" "conn_of (note_req 0 b) = 0"
  "Unpack 4096 (Pack (note_msg b) # rest) = (Inr (note_msg b), rest)"
proof -
  show "outs echo (note_req i b) = [(1, [b])]"
    by (simp add: outs_def echo_def DoMsgHandle_def note_req_def note_msg_def req_GetMsgId_def req_GetData_def GetMsgId_def GetData_def
        NewMsgPackage_def BaseRouter_def)
  show "conn_of (note_req 0 b) = 0" by (simp add: conn_of_def note_req_def req_GetConnID_def)
  have "well_formed 4096 (note_msg b)" unfolding note_msg_def by (rule NewMsgPackage_well_formed) simp
  from dp.unpack_frame [OF this, of "[Pack (note_msg b)]" rest]
  show "Unpack 4096 (Pack (note_msg b) # rest) = (Inr (note_msg b), rest)" by (simp add: Pack_def put_uint32_def)
qed

text \<open>A connection that waits in \<open>Unpack\<close> and writes nothing, with the requests dispatched so far.\<close>

definition reading :: "u32 \<Rightarrow> bytes list \<Rightarrow> zrequest list \<Rightarrow> zsys" where
  "reading i cs rs = (z_init i cs)\<lparr>z_dispatched := rs\<rparr>"

lemma reading_step: "z_step 4096 (reading i (Pack (note_msg b) # cs) rs) (reading i cs (rs @ [note_req i b]))"
  using rd_msg [of "reading i (Pack (note_msg b) # cs) rs" 4096 "note_msg b" cs]
  by (simp add: reading_def z_init_def z_Unpack_def note_facts note_req_def)

text \<open>The steps of such a server, for its two readers and its workers.\<close>

lemma duo_reader:
  assumes "\<not> z_crashed c0" "\<not> z_crashed c1"
  shows "z_step mx c0 c \<Longrightarrow> z_dispatched c = z_dispatched c0 @ [r] \<Longrightarrow>
      v_step mx 1 cap m (duo c0 c1 HIdle h1 sl chs ws) (duo c c1 (HCheck r) h1 sl chs ws)"
    and "z_step mx c1 c \<Longrightarrow> z_dispatched c = z_dispatched c1 @ [r] \<Longrightarrow>
      v_step mx 1 cap m (duo c0 c1 h0 HIdle sl chs ws) (duo c0 c h0 (HCheck r) sl chs ws)"
    and "v_step mx 1 cap m (duo c0 c1 (HCheck r) h1 None chs ws) (duo c0 c1 (HMake r) h1 None chs ws)"
    and "v_step mx 1 cap m (duo c0 c1 h0 (HCheck r) None chs ws) (duo c0 c1 h0 (HMake r) None chs ws)"
    and "v_step mx 1 cap m (duo c0 c1 (HCheck r) h1 (Some ch) chs ws) (duo c0 c1 (HSend r) h1 (Some ch) chs ws)"
    and "v_step mx 1 cap m (duo c0 c1 (HMake r) h1 sl chs ws) (duo c0 c1 (HGo r) h1 (Some (length chs)) (chs @ [[]]) ws)"
    and "v_step mx 1 cap m (duo c0 c1 h0 (HMake r) sl chs ws) (duo c0 c1 h0 (HGo r) (Some (length chs)) (chs @ [[]]) ws)"
    and "v_step mx 1 cap m (duo c0 c1 (HGo r) h1 (Some ch) chs ws) (duo c0 c1 (HSend r) h1 (Some ch) chs (ws @ [(ch, WIdle)]))"
    and "v_step mx 1 cap m (duo c0 c1 h0 (HGo r) (Some ch) chs ws) (duo c0 c1 h0 (HSend r) (Some ch) chs (ws @ [(ch, WIdle)]))"
    and "v_step mx 1 cap m (duo c0 c1 (HSend r) h1 (Some ch) chs ws) (duo c0 c1 (HPut ch r) h1 (Some ch) chs ws)"
    and "length (chs ! ch) < unat cap \<Longrightarrow>
      v_step mx 1 cap m (duo c0 c1 (HPut ch r) h1 sl chs ws) (duo c0 c1 HIdle h1 sl (chs[ch := chs ! ch @ [r]]) ws)"
  using v_msg [of "duo c0 c1 HIdle h1 sl chs ws" 0 mx c r 1 cap m] v_msg [of "duo c0 c1 h0 HIdle sl chs ws" 1 mx c r 1 cap m]
    v_nil [of "duo c0 c1 (HCheck r) h1 None chs ws" 0 r 1 mx cap m] v_nil [of "duo c0 c1 h0 (HCheck r) None chs ws" 1 r 1 mx cap m]
    v_nonnil [of "duo c0 c1 (HCheck r) h1 (Some ch) chs ws" 0 r 1 ch mx cap m]
    v_make [of "duo c0 c1 (HMake r) h1 sl chs ws" 0 r mx 1 cap m] v_make [of "duo c0 c1 h0 (HMake r) sl chs ws" 1 r mx 1 cap m]
    v_go [of "duo c0 c1 (HGo r) h1 (Some ch) chs ws" 0 r 1 ch mx cap m] v_go [of "duo c0 c1 h0 (HGo r) (Some ch) chs ws" 1 r 1 ch mx cap m]
    v_send [of "duo c0 c1 (HSend r) h1 (Some ch) chs ws" 0 r 1 ch mx cap m]
    v_put [of "duo c0 c1 (HPut ch r) h1 sl chs ws" 0 ch r cap mx 1 m] assms
  by (simp_all add: duo_make)

lemma duo_worker:
  assumes "\<not> z_crashed c0" "\<not> z_crashed c1" "j < length ws"
  shows "ws ! j = (ch, WIdle) \<Longrightarrow> chs ! ch = r # q \<Longrightarrow>
      v_step mx 1 cap m (duo c0 c1 h0 h1 sl chs ws) (duo c0 c1 h0 h1 sl (chs[ch := q]) (ws[j := (ch, WRun r (outs m r))]))"
    and "ws ! j = (ch, WRun r ((n, d) # ms)) \<Longrightarrow> conn_of r = 0 \<Longrightarrow> v_step mx 1 cap m (duo c0 c1 h0 h1 sl chs ws)
      (duo (call_send n d c0) c1 h0 h1 sl chs (ws[j := (ch, WWait r (length (z_senders c0)) ms)]))"
    and "z_step mx c0 c \<Longrightarrow> z_dispatched c = z_dispatched c0 \<Longrightarrow> reader_still c0 c \<Longrightarrow>
      v_step mx 1 cap m (duo c0 c1 h0 h1 sl chs ws) (duo c c1 h0 h1 sl chs ws)"
  using w_take [of "duo c0 c1 h0 h1 sl chs ws" j ch r q mx 1 cap m] w_send [of "duo c0 c1 h0 h1 sl chs ws" j ch r n d ms c0 mx 1 cap m]
    v_conn [of "duo c0 c1 h0 h1 sl chs ws" 0 mx c 1 cap m] assms
  by simp_all

lemma v_star: "v_step mx pool cap m s t \<Longrightarrow> (v_step mx pool cap m)\<^sup>*\<^sup>* t u \<Longrightarrow> (v_step mx pool cap m)\<^sup>*\<^sup>* s u"
  by (rule converse_rtranclp_into_rtranclp)

lemma reading_simps [simp]: "\<not> z_crashed (reading i cs rs)" "z_dispatched (reading i cs rs) = rs" "z_senders (reading i cs rs) = []"
  "z_wr (reading i cs rs) = WrSelect" "\<not> z_isClosed (reading i cs rs)" "\<not> z_tcp_closed (reading i cs rs)" "z_taken (reading i cs rs) = []"
  "z_sock (reading i cs rs) = []"
  by (simp_all add: reading_def z_init_def)

text \<open>Both readers see the slot nil, and two workers serve the second channel.\<close>

lemma race_workers:
  "(v_step 4096 1 1024 echo)\<^sup>*\<^sup>* (v_init 1 race_ins)
    (duo (reading 0 [Pack (note_msg 66)] [note_req 0 65]) (reading 1 [] [note_req 1 67])
      (HSend (note_req 0 65)) (HSend (note_req 1 67)) (Some 1) [[], []] [(1, WIdle), (1, WIdle)])" (is "?S\<^sup>*\<^sup>* _ ?end")
proof -
  have "v_init 1 race_ins = duo (reading 0 [Pack (note_msg 65), Pack (note_msg 66)] []) (reading 1 [Pack (note_msg 67)] []) HIdle HIdle None [] []"
    by (simp add: v_init_def race_ins_def duo_def reading_def z_init_def)
  moreover have "?S\<^sup>*\<^sup>* \<dots> ?end"
    apply (rule v_star [OF duo_reader(1) [OF _ _ reading_step]], simp_all)
    apply (rule v_star [OF duo_reader(3)], simp_all)
    apply (rule v_star [OF duo_reader(2) [OF _ _ reading_step]], simp_all)
    apply (rule v_star [OF duo_reader(4)], simp_all)
    apply (rule v_star [OF duo_reader(6)], simp_all)
    apply (rule v_star [OF duo_reader(7)], simp_all)
    apply (rule v_star [OF duo_reader(8)], simp_all)
    apply (rule v_star [OF duo_reader(9)], simp_all)
    done
  ultimately show ?thesis by simp
qed

text \<open>The second message of connection 0 goes to the second worker, which is faster.\<close>

lemma race_reply:
  "\<exists>s. (v_step 4096 1 1024 echo)\<^sup>*\<^sup>* (v_init 1 race_ins) s \<and> z_sock (v_conns s ! 0) = [Pack (note_msg 66)]"
proof -
  let ?S = "v_step 4096 1 1024 echo" and ?a = "note_req 0 65" and ?b = "note_req 0 66" and ?h = "HSend (note_req 1 67)"
  let ?x = "reading 0 [Pack (note_msg 66)] [?a]" and ?y = "reading 0 [] [?a, ?b]" and ?o = "reading 1 [] [note_req 1 67]"
  let ?f = "Pack (note_msg 66)" and ?ws = "[(1, WRun ?a [(1, [65])]), (1, WWait ?b 0 [])]"
  define p where "p = set_sender 0 (SdChan ?f) (call_send 1 [66] ?y)"
  define q where "q = (set_sender 0 (SdDone ?f None) p)\<lparr>z_wr := WrWrite ?f, z_taken := [?f]\<rparr>"
  have run: "?S\<^sup>*\<^sup>* (duo ?x ?o (HSend ?a) ?h (Some 1) [[], []] [(1, WIdle), (1, WIdle)])
      (duo (call_send 1 [66] ?y) ?o HIdle ?h (Some 1) [[], []] ?ws)"
    apply (rule v_star [OF duo_reader(10)], simp_all)
    apply (rule v_star [OF duo_reader(11)], simp_all)
    apply (rule v_star [OF duo_reader(1) [OF _ _ reading_step]], simp_all)
    apply (rule v_star [OF duo_reader(5)], simp_all)
    apply (rule v_star [OF duo_reader(10)], simp_all)
    apply (rule v_star [OF duo_reader(11)], simp_all)
    apply (rule v_star [OF duo_worker(1) [where j = 0 and r = ?a and q = "[?b]" and ch = 1]], simp_all)
    apply (rule v_star [OF duo_worker(1) [where j = 1 and r = ?b and q = "[]" and ch = 1]], simp_all)
    apply (rule v_star [OF duo_worker(2) [where j = 1 and ch = 1 and r = ?b and n = 1 and d = "[66]" and ms = "[]"]], simp_all add: note_facts)
    done
  have conn: "?S (duo c ?o HIdle ?h (Some 1) [[], []] ?ws) (duo c' ?o HIdle ?h (Some 1) [[], []] ?ws)"
    if "z_step 4096 c c'" "\<not> z_crashed c" "z_dispatched c' = z_dispatched c" "reader_still c c'" for c c'
    using duo_worker(3) [of c ?o 0 ?ws 4096 c'] that by simp
  have "z_step 4096 (call_send 1 [66] ?y) p" unfolding p_def
    using sd_pack [of "call_send 1 [66] ?y" 0 1 "[66]" 4096] by (simp add: call_send_def note_msg_def)
  note s1 = conn [OF this]
  have "z_step 4096 p q" unfolding q_def using wr_take [of p 0 ?f 4096] by (simp add: p_def call_send_def)
  note s2 = conn [OF this]
  have "z_step 4096 q (q\<lparr>z_wr := WrSelect, z_sock := z_sock q @ [?f]\<rparr>)"
    by (rule wr_write) (simp_all add: q_def p_def call_send_def)
  note s3 = conn [OF this]
  have "\<not> z_crashed (call_send 1 [66] ?y)" "\<not> z_crashed p" "\<not> z_crashed q" "z_dispatched p = z_dispatched (call_send 1 [66] ?y)"
      "z_dispatched q = z_dispatched p" "reader_still (call_send 1 [66] ?y) p" "reader_still p q"
      "reader_still q (q\<lparr>z_wr := WrSelect, z_sock := z_sock q @ [?f]\<rparr>)"
    by (simp_all add: q_def p_def call_send_def reader_still_def)
  then have "?S\<^sup>*\<^sup>* (duo (call_send 1 [66] ?y) ?o HIdle ?h (Some 1) [[], []] ?ws)
      (duo (q\<lparr>z_wr := WrSelect, z_sock := z_sock q @ [?f]\<rparr>) ?o HIdle ?h (Some 1) [[], []] ?ws)"
    by (intro v_star [OF s1] v_star [OF s2] v_star [OF s3]) simp_all
  with rtranclp_trans [OF race_workers run] have "?S\<^sup>*\<^sup>* (v_init 1 race_ins)
      (duo (q\<lparr>z_wr := WrSelect, z_sock := z_sock q @ [?f]\<rparr>) ?o HIdle ?h (Some 1) [[], []] ?ws)" by (rule rtranclp_trans)
  moreover have "z_sock (v_conns (duo (q\<lparr>z_wr := WrSelect, z_sock := z_sock q @ [?f]\<rparr>) ?o HIdle ?h (Some 1) [[], []] ?ws) ! 0) = [?f]"
    by (simp add: q_def p_def call_send_def)
  ultimately show ?thesis by blast
qed

lemma carries_note: "carries 4096 (map note_msg bs) (map (\<lambda>b. Pack (note_msg b)) bs)"
proof -
  have "well_formed 4096 (note_msg b)" "[] \<noteq> Pack (note_msg b)" for b
    unfolding note_msg_def by (rule NewMsgPackage_well_formed) (simp_all add: Pack_def put_uint32_def)
  then have "dp.framed 4096 (map note_msg bs) (map (\<lambda>b. [Pack (note_msg b)]) bs)"
    by (simp add: dp.framed_def list.rel_map list_all2_same)
  then show ?thesis by (auto simp: carries_def intro!: exI [of _ "map (\<lambda>b. [Pack (note_msg b)]) bs"])
qed

lemma echo_answers:
  "list_all2 (carries 4096) [[note_msg 65, note_msg 66], [note_msg 67]] race_ins"
  "answers echo 0 [note_msg 65, note_msg 66] = [Pack (note_msg 65), Pack (note_msg 66)]"
  using carries_note [of "[65, 66]"] carries_note [of "[67]"] note_facts(1) [of 0]
  by (simp_all add: race_ins_def answers_def requests_def note_req_def frames_def note_msg_def)

text \<open>An idle open connection has been answered.\<close>

lemma idle_answered:
  assumes "idle_on mx pool cap m i s" "v_inv pool cap m n s" "i < n" "open_conn (v_conns s ! i)"
    and "\<And>k. k < n \<Longrightarrow> shut_inv mx (of_nat k) (mss ! k) (v_conns s ! k) \<and> write_inv (v_conns s ! k)"
  shows "z_sock (v_conns s ! i) = answers m i (mss ! i)"
proof -
  let ?c = "v_conns s ! i"
  have len: "length (v_conns s) = n" "i < length (v_conns s)" "i < length (v_hands s)" using assms(2,3) by (auto simp: v_inv_def v_wf_def)
  have shut: "shut_inv mx (of_nat i) (mss ! i) ?c" "write_inv ?c" using assms(3,5) by blast+
  have rd: "z_rd ?c = RdUnpack" using assms(4) by (simp add: open_conn_def)
  have c: "\<not> z_tcp_closed ?c" "\<not> z_isClosed ?c" "\<not> z_crashed ?c" using shut(1) rd by (auto simp: shut_inv_def Let_def)
  have "\<not> z_crashed (v_conns s ! k)" if "k < n" for k using assms(5) [OF that] by (simp add: shut_inv_def)
  then have alive: "v_alive s" using len(1) by (auto simp: v_alive_def in_set_conv_nth)
  have e: "v_hands s ! i = HIdle" "queue_of (pq (view s i)) = []" "pw (view s i) \<in> {[], [WIdle]}"
    using idle_empty [OF assms(1,2) alive assms(3,4) c(1)] by auto
  have "pipe_inv cap m (of_nat i) (view s i)" using assms(2,3) by (simp add: v_inv_def)
  then have "sends_ok ?c (frames (concat (map (outs m) (z_dispatched ?c)))) []" using e by (auto simp: pipe_inv_def)
  then have "z_taken ?c = frames (concat (map (outs m) (z_dispatched ?c)))" using c(2) by (auto simp: sends_ok_def)
  moreover have "z_sock ?c = z_taken ?c"
    using shut(2) idle_writer [OF assms(1) alive len(2) assms(4) c(1)] by (auto simp: write_inv_def)
  moreover have "z_dispatched ?c = requests i (mss ! i)"
  proof (rule ccontr)
    assume "z_dispatched ?c \<noteq> requests i (mss ! i)"
    with shut_inv_unpack [OF shut(1) rd] obtain x rest where "z_Unpack mx ?c = (Inr x, rest)" by (auto simp: requests_def)
    from v_msg [OF alive len(2) rd_msg [OF c(3) rd this] _ e(1)] obtain t where "v_step mx pool cap m s t"
        "z_rd (v_conns t ! i) = RdUnpack" "v_hands t ! i \<noteq> HIdle" using len rd by fastforce
    with idle_onD [OF assms(1)] e(1) show False by (metis view_sel(2))
  qed
  ultimately show ?thesis by (simp add: answers_def)
qed

section \<open>Properties\<close>

text \<open>
  C14. A client gets its answers whole and in order: on a server with at least as many workers as
  connections, whose peers send well-formed messages, each in chunks of its own, and then close
  or keep their streams open, in every reachable state what has been written to a connection is
  a prefix of the answers to its messages, in the order of the messages, and nothing has
  panicked; the answers are the frames of what the handlers send, and readers, workers, handlers
  and writers of all connections run in any interleaving.
\<close>

theorem zinx_answers_in_order:
  assumes "reach (\<lambda>s. s = v_init pool ins) (v_step mx pool cap m) s" "list_all2 (carries mx) mss ins" "length ins \<le> unat pool" "i < length ins"
  shows "prefix (z_sock (v_conns s ! i)) (answers m i (mss ! i)) \<and> \<not> z_crashed (v_conns s ! i)"
proof -
  have inv: "shut_inv mx (of_nat i) (mss ! i) (v_conns s ! i)" "write_inv (v_conns s ! i)" using v_conn_shut [OF assms] by blast+
  have "pipe_inv cap m (of_nat i) (view s i)" using reach_v_inv [OF assms(1,3)] assms(4) by (simp add: v_inv_def)
  from pipe_inv_taken [OF this] have "prefix (z_sock (v_conns s ! i)) (frames (concat (map (outs m) (z_dispatched (v_conns s ! i)))))"
    using inv(2) by (auto simp: write_inv_def dest: append_prefixD)
  moreover have "prefix (frames (concat (map (outs m) (z_dispatched (v_conns s ! i))))) (answers m i (mss ! i))"
    using shut_inv_prefix [OF inv(1)] by (auto simp: answers_def frames_def prefix_def)
  ultimately show ?thesis using inv(1) by (auto simp: shut_inv_def intro: prefix_order.trans)
qed

theorem zinx_answers_in_order_witness:
  "\<nexists>s. reach (\<lambda>s. s = v_init 10 race_ins) (v_step 4096 10 1024 echo) s \<and>
     \<not> prefix (z_sock (v_conns s ! 0)) [Pack (note_msg 65), Pack (note_msg 66)]"
proof -
  show ?thesis
    using echo_answers zinx_answers_in_order [of 10 race_ins 4096 1024 echo _ "[[note_msg 65, note_msg 66], [note_msg 67]]" 0] by (auto simp: race_ins_def)
qed

text \<open>
  C15. Every message is answered: under the same conditions the server cannot run for ever, and when
  nothing more happens to a connection whose reader and writer still run, other than that its
  reader finds the end of the stream, all the answers to all its messages have been written to it.
\<close>

theorem zinx_answers_all:
  assumes "list_all2 (carries mx) mss ins" "length ins \<le> unat pool"
  shows "wfp (\<lambda>t s. reach (\<lambda>s. s = v_init pool ins) (v_step mx pool cap m) s \<and> v_step mx pool cap m s t) \<and>
    (\<forall>s i. reach (\<lambda>s. s = v_init pool ins) (v_step mx pool cap m) s \<and> i < length ins \<and>
      open_conn (v_conns s ! i) \<and> idle_on mx pool cap m i s \<longrightarrow> z_sock (v_conns s ! i) = answers m i (mss ! i))"
proof (intro conjI allI impI)
  let ?R = "reach (\<lambda>s. s = v_init pool ins) (v_step mx pool cap m)"
  note shut = v_conn_shut [OF _ assms]
  have dec: "(\<Sum>i<length ins. pipe_weight m (requests i (mss ! i)) (view t i)) < (\<Sum>i<length ins. pipe_weight m (requests i (mss ! i)) (view s i))"
    if "?R s" "v_step mx pool cap m s t" for s t
    by (rule v_weight_step [OF that(2) reach_v_inv [OF that(1) assms(2)]]) (use shut that in \<open>blast intro: reach_step\<close>)
  show "wfp (\<lambda>t s. ?R s \<and> v_step mx pool cap m s t)"
    by (rule wfp_if_convertible_to_nat [of _ "\<lambda>s. \<Sum>i<length ins. pipe_weight m (requests i (mss ! i)) (view s i)"]) (use dec in blast)
  fix s i
  assume a: "?R s \<and> i < length ins \<and> open_conn (v_conns s ! i) \<and> idle_on mx pool cap m i s"
  show "z_sock (v_conns s ! i) = answers m i (mss ! i)"
    by (rule idle_answered [OF _ reach_v_inv [OF _ assms(2)]]) (use a shut in auto)
qed

theorem zinx_answers_all_witness:
  "\<nexists>s. reach (\<lambda>s. s = v_init 10 race_ins) (v_step 4096 10 0 echo) s \<and> open_conn (v_conns s ! 0) \<and> idle_on 4096 10 0 echo 0 s \<and>
     z_sock (v_conns s ! 0) \<noteq> [Pack (note_msg 65), Pack (note_msg 66)]"
proof -
  show ?thesis
    using echo_answers zinx_answers_all [of 4096 "[[note_msg 65, note_msg 66], [note_msg 67]]" race_ins 10 0 echo] by (fastforce simp: race_ins_def)
qed

text \<open>
  C35. With more connections than workers the order is lost: \<open>SendMsgToTaskQueue\<close> tests a slot for nil
  and fills it without a lock, so two readers can both make a channel and start a worker, and
  both workers then serve the channel that was stored last; two requests of one connection are
  handled at the same time, and the answer to the second is written before that to the first.
\<close>

theorem worker_race_reorders:
  "\<exists>s. reach (\<lambda>s. s = v_init 1 race_ins) (v_step 4096 1 1024 echo) s \<and>
     list_all2 (carries 4096) [[note_msg 65, note_msg 66], [note_msg 67]] race_ins \<and>
     answers echo 0 [note_msg 65, note_msg 66] = [Pack (note_msg 65), Pack (note_msg 66)] \<and>
     z_sock (v_conns s ! 0) = [Pack (note_msg 66)]"
proof -
  obtain s where s: "(v_step 4096 1 1024 echo)\<^sup>*\<^sup>* (v_init 1 race_ins) s" "z_sock (v_conns s ! 0) = [Pack (note_msg 66)]"
    using race_reply by blast
  have "reach (\<lambda>s. s = v_init 1 race_ins) (v_step 4096 1 1024 echo) (v_init 1 race_ins)" by (rule reach_init) (rule refl)
  from reach_rtranclp [OF this s(1)] s(2) echo_answers show ?thesis by (intro exI [of _ s] conjI)
qed

end
