(* ===== verification/ZStop.thy ===== *)
theory ZStop
  imports ZGoroutines
begin

text \<open>
  \<open>Stop\<close> of \<^verbatim>\<open>myzinx/znet/connection.go\<close> statement by statement: the reader calls it when the peer
  hangs up, handlers call it when they like, and no lock keeps them apart. The other goroutines
  of the connection move as in \<open>ZGoroutines\<close>.
\<close>

section \<open>Steps\<close>

text \<open>
  A goroutine in \<open>Stop\<close>: before it reads \<open>isClosed\<close>, before it sets \<open>isClosed\<close>, closes the socket and
  closes \<open>ExitChan\<close>, and returned; \<open>StDone True\<close> when it closed the channel itself.
\<close>

datatype zstop = StCheck | StSet | StConn | StChan | StDone bool

type_synonym zstops = "zsys \<times> zstop list"

fun stop_stmt :: "zsys \<Rightarrow> zstop \<Rightarrow> zsys \<times> zstop" where
  "stop_stmt s StCheck = (s, if z_isClosed s then StDone False else StSet)"
| "stop_stmt s StSet = (s\<lparr>z_isClosed := True\<rparr>, StConn)"
| "stop_stmt s StConn = (s\<lparr>z_tcp_closed := True\<rparr>, StChan)"
| "stop_stmt s StChan = (if z_exit_closed s then (s\<lparr>z_crashed := True\<rparr>, StChan) else (s\<lparr>z_exit_closed := True\<rparr>, StDone True))"
| "stop_stmt s (StDone c) = (s, StDone c)"

inductive stmt_step :: "zstops \<Rightarrow> zstops \<Rightarrow> bool" where
  stmt: "\<not> z_crashed s \<Longrightarrow> i < length sts \<Longrightarrow> (\<nexists>c. sts ! i = StDone c) \<Longrightarrow> stop_stmt s (sts ! i) = (t, x) \<Longrightarrow>
    stmt_step (s, sts) (t, sts[i := x])"

text \<open>The reader that has left its loop goes on as one of the goroutines in \<open>Stop\<close>.\<close>

inductive stop_step :: "u32 \<Rightarrow> zstops \<Rightarrow> zstops \<Rightarrow> bool" for mx :: u32 where
  st_run: "z_run mx False s t \<Longrightarrow> \<not> (z_rd s = RdStop \<and> z_rd t = RdEnd) \<Longrightarrow> stop_step mx (s, sts) (t, sts)"
| st_defer: "\<not> z_crashed s \<Longrightarrow> z_rd s = RdStop \<Longrightarrow> stop_step mx (s, sts) (s\<lparr>z_rd := RdEnd\<rparr>, sts @ [StCheck])"
| st_call: "\<not> z_crashed s \<Longrightarrow> stop_step mx (s, sts) (s, sts @ [StCheck])"
| st_stmt: "stmt_step p q \<Longrightarrow> stop_step mx p q"

section \<open>One Stop is the Stop of the connection\<close>

lemma stop_alone:
  assumes "\<not> z_crashed s" "i < length sts" "sts ! i = StCheck" "z_isClosed s \<or> \<not> z_exit_closed s"
  shows "stmt_step\<^sup>*\<^sup>* (s, sts) (z_Stop s, sts[i := StDone (\<not> z_isClosed s)])"
proof (cases "z_isClosed s")
  case True
  with assms stmt [of s i sts s "StDone False"] show ?thesis by (auto simp: z_Stop_def)
next
  case False
  let ?t = "s\<lparr>z_isClosed := True\<rparr>" and ?u = "s\<lparr>z_isClosed := True, z_tcp_closed := True\<rparr>"
  have "stmt_step\<^sup>*\<^sup>* (s, sts) (s, sts[i := StSet])" using stmt [of s i sts s StSet] assms False by auto
  also have "stmt_step (s, sts[i := StSet]) (?t, sts[i := StConn])"
    using stmt [of s i "sts[i := StSet]" ?t StConn] assms(1,2) by simp
  also have "stmt_step (?t, sts[i := StConn]) (?u, sts[i := StChan])"
    using stmt [of ?t i "sts[i := StConn]" ?u StChan] assms(1,2) by simp
  also have "stmt_step (?u, sts[i := StChan]) (?u\<lparr>z_exit_closed := True\<rparr>, sts[i := StDone True])"
    using stmt [of ?u i "sts[i := StChan]" "?u\<lparr>z_exit_closed := True\<rparr>" "StDone True"] assms False by simp
  finally show ?thesis using False assms(4) by (simp add: z_Stop_def)
qed

section \<open>The channel is closed once\<close>

text \<open>\<open>past_check\<close>: the goroutine has found the connection open and closes \<open>ExitChan\<close> or has done so.\<close>

fun past_check :: "zstop \<Rightarrow> bool" where
  "past_check StCheck = False"
| "past_check (StDone c) = c"
| "past_check _ = True"

definition closed_once :: "zstops \<Rightarrow> bool" where
  [invs]: "closed_once p \<longleftrightarrow> (\<forall>i < length (snd p). snd p ! i = StDone True \<longrightarrow>
     z_exit_closed (fst p) \<and> (\<forall>j < length (snd p). snd p ! j = StDone True \<longrightarrow> j = i))"

lemma z_run_exit: "z_run mx False s t \<Longrightarrow> \<not> (z_rd s = RdStop \<and> z_rd t = RdEnd) \<Longrightarrow> z_exit_closed t = z_exit_closed s"
  unfolding z_run_def by (elim disjE z_step.cases z_envE) auto

lemma stop_stmt_exit:
  assumes "stop_stmt s x = (t, y)" "\<nexists>c. x = StDone c"
  shows "z_exit_closed s \<Longrightarrow> z_exit_closed t \<and> y \<noteq> StDone True" "y = StDone True \<Longrightarrow> z_exit_closed t"
  using assms by (cases x; auto split: if_splits)+

lemma closed_once_step: "stop_step mx p q \<Longrightarrow> closed_once p \<Longrightarrow> closed_once q"
proof (induction rule: stop_step.induct)
  case (st_run s t sts)
  then show ?case using z_run_exit by (simp add: closed_once_def)
next
  case (st_stmt p q)
  from this(1) show ?case
  proof cases
    case (stmt s i sts t x)
    with st_stmt(2) stop_stmt_exit [OF stmt(6,5)] show ?thesis by (fastforce simp: closed_once_def nth_list_update)
  qed
qed (fastforce simp: closed_once_def nth_append)+

interpretation zs: inductive_invariant "\<lambda>p. p = (z_init cid cs, [])" "stop_step mx" closed_once for mx cid cs
  by unfold_locales (simp add: closed_once_def, rule closed_once_step)

lemma past_check_step:
  "stop_step mx p q \<Longrightarrow> i < length (snd p) \<and> past_check (snd p ! i) \<Longrightarrow> i < length (snd q) \<and> past_check (snd q ! i)"
proof (induction rule: stop_step.induct)
  case (st_stmt p q)
  from this(1) show ?case
  proof cases
    case (stmt s j sts t x)
    have "past_check x" if "past_check (sts ! j)" using that stmt(5,6) by (cases "sts ! j") (auto split: if_splits)
    with st_stmt(2) stmt show ?thesis by (auto simp: nth_list_update)
  qed
qed (auto simp: nth_append)

lemma past_check_steps:
  "(stop_step mx)\<^sup>*\<^sup>* p q \<Longrightarrow> i < length (snd p) \<and> past_check (snd p ! i) \<Longrightarrow> i < length (snd q) \<and> past_check (snd q ! i)"
  by (induction rule: rtranclp_induct) (simp_all add: past_check_step)

text \<open>A goroutine in \<open>Stop\<close> can always go on while the process lives, and not for ever.\<close>

lemma stop_goes_on:
  assumes "\<not> z_crashed s" "i < length sts" "\<nexists>c. sts ! i = StDone c"
  shows "\<exists>q. stmt_step (s, sts) q"
  using stmt [OF assms] by (metis surj_pair)

fun stmts_left :: "zstop \<Rightarrow> nat" where
  "stmts_left StCheck = 4"
| "stmts_left StSet = 3"
| "stmts_left StConn = 2"
| "stmts_left StChan = 1"
| "stmts_left (StDone c) = 0"

lemma stmts_end: "wfp (\<lambda>q p. stmt_step p q)"
proof (rule wfp_if_convertible_to_nat [of _ "\<lambda>(s, sts). sum_list (map stmts_left sts) + (if z_crashed s then 0 else 1)"])
  fix q p assume "stmt_step p q"
  then show "(case q of (s, sts) \<Rightarrow> sum_list (map stmts_left sts) + (if z_crashed s then 0 else 1)) <
    (case p of (s, sts) \<Rightarrow> sum_list (map stmts_left sts) + (if z_crashed s then 0 else (1 :: nat)))"
  proof cases
    case (stmt s i sts t x)
    have "stmts_left x + (if z_crashed t then 0 else 1) < stmts_left (sts ! i) + 1"
      using stmt(3,5,6) by (cases "sts ! i") (auto split: if_splits)
    with sum_list_map_update [OF stmt(4), of stmts_left x] stmt(1-3) show ?thesis by simp
  qed
qed

text \<open>The peer of a connection hangs up at once, and a handler calls \<open>Stop\<close> at the same time.\<close>

lemma two_past_check: "\<exists>s. reach (\<lambda>p. p = (z_init cid [], [])) (stop_step mx) (s, [StSet, StSet])"
proof -
  let ?R = "reach (\<lambda>p. p = (z_init cid [], [])) (stop_step mx)"
  define a where "a = z_init cid []"
  let ?b = "a\<lparr>z_in := [], z_rd := RdExit EOF\<rparr>" and ?c = "a\<lparr>z_in := [], z_exit_buf := True, z_rd := RdStop\<rparr>"
  let ?d = "a\<lparr>z_in := [], z_exit_buf := True, z_rd := RdEnd\<rparr>"
  have "?R (a, [])" unfolding a_def by (rule reach_init) simp
  moreover have "stop_step mx (a, []) (?b, [])"
    using rd_err [of a mx EOF "[]"] by (intro st_run) (auto simp: z_run_def a_def z_init_def z_Unpack_def dp.unpack_end)
  ultimately have "?R (?b, [])" by (rule reach_step)
  moreover have "stop_step mx (?b, []) (?c, [])"
    using rd_exit [of ?b EOF mx] by (intro st_run) (auto simp: z_run_def a_def z_init_def)
  ultimately have "?R (?c, [])" by (rule reach_step)
  moreover have "stop_step mx (?c, []) (?d, [StCheck])" using st_defer [of ?c mx "[]"] by (simp add: a_def z_init_def)
  ultimately have "?R (?d, [StCheck])" by (rule reach_step)
  moreover have "stop_step mx (?d, [StCheck]) (?d, [StCheck, StCheck])"
    using st_call [of ?d mx "[StCheck]"] by (simp add: a_def z_init_def)
  ultimately have "?R (?d, [StCheck, StCheck])" by (rule reach_step)
  moreover have "stop_step mx (?d, [StCheck, StCheck]) (?d, [StSet, StCheck])"
    using stmt [of ?d 0 "[StCheck, StCheck]" ?d StSet] by (intro st_stmt) (simp add: a_def z_init_def)
  ultimately have "?R (?d, [StSet, StCheck])" by (rule reach_step)
  moreover have "stop_step mx (?d, [StSet, StCheck]) (?d, [StSet, StSet])"
    using stmt [of ?d 1 "[StSet, StCheck]" ?d StSet] by (intro st_stmt) (simp add: a_def z_init_def)
  ultimately show ?thesis by (blast intro: reach_step)
qed

section \<open>Properties\<close>

text \<open>
  C32. Two overlapping calls of \<open>Stop\<close> crash the process: \<open>isClosed\<close> is read and set without a lock,
  so when two goroutines (the reader whose peer hung up and a handler, or two handlers) have both
  found the connection open, then whatever the interleaving, the goroutines in \<open>Stop\<close>, which
  cannot go on for ever, come to a halt only with the panic of the second one to close
  \<open>ExitChan\<close>.
\<close>

theorem overlapping_Stops_crash:
  assumes "reach (\<lambda>p. p = (z_init cid chunks, [])) (stop_step mx) (s, sts)"
    and "i < length sts" "j < length sts" "i \<noteq> j" "past_check (sts ! i)" "past_check (sts ! j)"
  shows "wfp (\<lambda>q p. stmt_step p q) \<and>
    (\<forall>t sts'. (stop_step mx)\<^sup>*\<^sup>* (s, sts) (t, sts') \<and> (\<nexists>q. stmt_step (t, sts') q) \<longrightarrow> z_crashed t)"
proof (intro conjI allI impI stmts_end)
  fix t sts' assume t: "(stop_step mx)\<^sup>*\<^sup>* (s, sts) (t, sts') \<and> (\<nexists>q. stmt_step (t, sts') q)"
  then have run: "(stop_step mx)\<^sup>*\<^sup>* (s, sts) (t, sts')" and stuck: "\<nexists>q. stmt_step (t, sts') q" by blast+
  from zs.rtranclp_Inv [OF run zs.reach_Inv [OF assms(1)]] have inv: "closed_once (t, sts')" .
  show "z_crashed t"
  proof (rule ccontr)
    assume live: "\<not> z_crashed t"
    have ended: "sts' ! k = StDone True" "k < length sts'" if "k < length sts" "past_check (sts ! k)" for k
    proof -
      have k: "k < length sts'" "past_check (sts' ! k)" using past_check_steps [OF run, of k] that by simp_all
      with stop_goes_on [OF live k(1)] stuck obtain c where "sts' ! k = StDone c" by blast
      with k show "sts' ! k = StDone True" "k < length sts'" by simp_all
    qed
    from ended [OF assms(2,5)] ended [OF assms(3,6)] inv assms(4) show False by (auto simp: closed_once_def)
  qed
qed

text \<open>The peer hangs up while a handler calls \<open>Stop\<close>: both find the connection open, and one panics.\<close>

theorem overlapping_Stops_crash_witness:
  "\<exists>s t sts'. reach (\<lambda>p. p = (z_init 7 [], [])) (stop_step 512) (s, [StSet, StSet]) \<and>
     (stop_step 512)\<^sup>*\<^sup>* (s, [StSet, StSet]) (t, sts') \<and> z_crashed t"
proof -
  obtain s where s: "reach (\<lambda>p. p = (z_init 7 [], [])) (stop_step 512) (s, [StSet, StSet])" using two_past_check by blast
  let ?p = "(s, [StSet, StSet])"
  note crash = overlapping_Stops_crash [OF s, of 0 1, simplified]
  have "wfp (\<lambda>q p. (stop_step 512)\<^sup>*\<^sup>* ?p p \<and> stmt_step p q)" by (rule wfp_subset [OF conjunct1 [OF crash]]) auto
  then have "\<exists>t. (stop_step 512)\<^sup>*\<^sup>* ?p t \<and> (\<nexists>q. stmt_step t q)"
    by (rule wfp_stops [of _ _ ?p]) (auto intro: rtranclp.rtrancl_into_rtrancl st_stmt)
  then obtain t sts' where "(stop_step 512)\<^sup>*\<^sup>* ?p (t, sts')" "\<nexists>q. stmt_step (t, sts') q" by auto
  with s conjunct2 [OF crash] show ?thesis by blast
qed

end
