(* ===== verification/Spec2Isabelle.thy ===== *)
theory Spec2Isabelle
  imports GeeMain GeeConcurrent RpcMain RpcLive RpcShared ZAnswers ZStop
begin

text \<open>
  A verification library for the three programs of the repository: \<^verbatim>\<open>geecache\<close>, a distributed
  cache; \<^verbatim>\<open>geerpc\<close>, a remote procedure call framework with a registry; and \<^verbatim>\<open>myzinx\<close>, a TCP
  server framework. The programs share no code; each is modelled bottom up, one theory per
  component, and each ends with a theory that puts its components together the way its example
  programs do.

  \<^bold>\<open>Conventions.\<close> \<open>Prelude\<close> has the vocabulary: Go's integers are words of their width (\<open>int64\<close> and
  \<open>int\<close> read with \<open>sint\<close>), so arithmetic wraps; a Go string is a list of 8-bit characters; an
  \<open>error\<close> is a value; a call that can panic or never return has a result of type \<open>exec\<close> (\<open>Ret\<close>,
  \<open>Panic\<close>, \<open>Hang\<close>); a concurrent component is an inductive step relation, and the locale
  \<open>inductive_invariant\<close>, interpreted once per component, carries its invariant to every reachable
  state. \<open>GoLib\<close> has what the programs use of \<open>sort\<close>, \<open>strconv\<close>, \<open>hash/crc32\<close>, \<open>strings\<close> and \<open>net/url\<close>.
  Caller code and libraries outside the repository (getters and handlers, \<open>http.Get\<close>, protobuf, gob
  values, JSON, the clock, map iteration order, random draws, the cutting of a TCP stream into
  chunks) are arguments; the hypotheses on them (\<open>serves\<close>, \<open>delivers\<close>, \<open>proto_ok\<close>, \<open>headers_encode\<close>,
  \<open>fragments\<close>, \<open>visits\<close>) say what their documentation says.

  \<^bold>\<open>geecache.\<close>
  \<^item> \<open>Lru\<close> (\<^verbatim>\<open>lru/lru.go\<close>): the list and the map of \<open>Cache\<close>; \<open>lru_inv\<close> ties them together and
    counts the bytes; \<open>Add\<close> and \<open>Get\<close> refine a recency list (\<open>spec_Add\<close>, \<open>spec_Get\<close>): the entries
    are always the most recently used ones that fit the budget, and an entry is evicted only as
    the least recent. The eviction loop is a \<open>partial_function\<close>: it ends for every budget
    that is not negative, and never ends for a negative one.
  \<^item> \<open>ConsistentHash\<close> (\<^verbatim>\<open>consistenthash/consistenthash.go\<close>): the sorted ring of positions; \<open>Get\<close> finds the
    successor of the hash by binary search; adding nodes moves keys only to the added nodes,
    and the order of adding does not matter when positions do not collide.
  \<^item> \<open>Singleflight\<close> (\<^verbatim>\<open>singleflight/singleflight.go\<close>): \<open>Do\<close> by any number of goroutines, with mutex, map and
    wait groups: at most one run of \<open>fn\<close> per key, shared results, every caller returns; and a
    panic of \<open>fn\<close> shuts the key out.
  \<^item> \<open>GeeGroup\<close> (\<^verbatim>\<open>byteview.go\<close>, \<^verbatim>\<open>cache.go\<close>, \<^verbatim>\<open>peers.go\<close>, \<^verbatim>\<open>geecatche.go\<close>, the messages of \<^verbatim>\<open>geecachepb.pb.go\<close>):
    the synchronized cache meets the locale \<open>kv_cache\<close>; a group answers what its source has.
  \<^item> \<open>GeeConcurrent\<close> (\<^verbatim>\<open>geecatche.go\<close> with \<^verbatim>\<open>cache.go\<close> and \<^verbatim>\<open>singleflight.go\<close>): \<open>Get\<close> by any number of goroutines,
    each access of the cache, each step of \<open>Do\<close> and each call of a peer or the getter a step of
    its own: every \<open>Get\<close> returns, with what the source has, and for a key one goroutine at a time
    asks. \<open>joined\<close> ties the points of \<open>Get\<close> to the points of \<open>Do\<close>, whose invariant carries over; and a \<open>Get\<close>
    that nobody disturbs is the sequential one of \<open>GeeGroup\<close>.
  \<^item> \<open>HttpPool\<close> (\<^verbatim>\<open>http.go\<close>): server, client and peer picker; a node of a cluster answers what the
    source has, whichever node owns a key; all nodes agree on the owner; the one encoding error of
    the client (a space becomes a plus sign).
  \<^item> \<open>GeeMain\<close> (\<^verbatim>\<open>main/main.go\<close>): the example cluster, and what its API answers.

  \<^bold>\<open>geerpc.\<close>
  \<^item> \<open>Codec\<close> (\<^verbatim>\<open>codec/codec.go\<close>, \<^verbatim>\<open>codec/god.go\<close>): a connection as a sequence of gob values; the locale
    \<open>rpc_codec\<close> states what both sides rely on.
  \<^item> \<open>Service\<close> (\<^verbatim>\<open>service.go\<close>): the methods that reflection offers and the values of a call.
  \<^item> \<open>RpcServer\<close> (\<^verbatim>\<open>server.go\<close>): requests, and the goroutines of one connection: what is read is answered
    exactly once (\<open>serve_inv\<close>), a connection with a timeout always ends, an unknown service ends
    the connection for the requests after it.
  \<^item> \<open>RpcFront\<close> (the rest of \<^verbatim>\<open>server.go\<close>, \<^verbatim>\<open>debug.go\<close>): accepting, HTTP, and the debug page.
  \<^item> \<open>RpcShared\<close> (\<^verbatim>\<open>server.go\<close>): a server with all its connections, which share the table of services:
    every request is answered exactly once, and the debug page counts the calls of all connections.
  \<^item> \<open>RpcClient\<close> (\<^verbatim>\<open>client.go\<close>): the client's goroutines against any network: every call is
    completed once; \<open>Call\<close> returns only when its context ends.
  \<^item> \<open>FooService\<close> and \<open>RpcLink\<close>: the service of \<^verbatim>\<open>main/main.go\<close>, and the composition of a client
    and a server over a connection that may break: a call that completes without an error has the
    value that the method computed from the caller's arguments.
  \<^item> \<open>RpcLive\<close>: the same composition without new calls comes to an end, and then every call is
    complete; its invariant \<open>flow_inv\<close> follows each sequence number from the client through the
    server and back. \<open>live_step\<close> leaves out the steps that somebody decides on: new calls, \<open>Close\<close>,
    the breaking of the connection, and read errors without a reason.
  \<^item> \<open>Registry\<close> (\<^verbatim>\<open>registry/registry.go\<close>), \<open>Discovery\<close> (\<^verbatim>\<open>xclient/discovery.go\<close>, \<^verbatim>\<open>discovery_gee.go\<close>, with the
    locale \<open>discovery\<close>), \<open>XClient\<close> (\<^verbatim>\<open>xclient/xclient.go\<close>): the registry lists the servers that
    announced themselves recently, a discovery reads that list, selections are fair, and a call
    through all of them reaches a live server.
  \<^item> \<open>RpcMain\<close> (\<^verbatim>\<open>main/main.go\<close>): the example program; its clients find the announced servers
    through the registry, its \<open>call\<close> never ends and its \<open>broadcast\<close> would crash.

  \<^bold>\<open>myzinx.\<close>
  \<^item> \<open>DataPack\<close> (\<^verbatim>\<open>znet/message.go\<close>, \<^verbatim>\<open>datapack.go\<close>): frames over a stream in chunks, with the locale
    \<open>data_pack\<close>: a message in chunks of its own is read back, and bytes that arrive with the end of
    a message are lost.
  \<^item> \<open>MsgHandler\<close> (\<^verbatim>\<open>utils/globalobj.go\<close>, \<^verbatim>\<open>request.go\<close>, \<^verbatim>\<open>router.go\<close>, \<^verbatim>\<open>msghandler.go\<close>): routes and the
    worker pool, with \<open>SendMsgToTaskQueue\<close> as one step: its queues are first in, first out.
  \<^item> \<open>ZConnection\<close> (\<^verbatim>\<open>connection.go\<close>, \<^verbatim>\<open>server.go\<close>): the operations of a connection one at a time.
  \<^item> \<open>ZGoroutines\<close> (\<^verbatim>\<open>connection.go\<close>): reader, writer, \<open>Start\<close> and senders together: frames go out
    whole and in order, a connection ends when its peer hangs up, and a sender can wait for ever.
  \<^item> \<open>ZStop\<close> (\<^verbatim>\<open>connection.go\<close>): \<open>Stop\<close> statement by statement, by the reader and handlers at the same time:
    one call alone is the \<open>Stop\<close> of \<open>ZGoroutines\<close>, and two that overlap crash the process.
  \<^item> \<open>ZPipeline\<close> (\<^verbatim>\<open>connection.go\<close>, \<^verbatim>\<open>msghandler.go\<close>, \<^verbatim>\<open>server.go\<close>): the whole server, with all connections, the
    slots and channels of the task queue and the workers; \<open>SendMsgToTaskQueue\<close>, which takes no lock,
    is split at each access of \<open>TaskQueue\<close>. A handler is a function of its request that says which
    messages it sends on the connection of the request, one after the other. With no more connections
    than workers each connection has a pipeline of its own (\<open>view\<close>, \<open>p_step\<close>), which keeps \<open>pipe_inv\<close>.
  \<^item> \<open>ZAnswers\<close>: on such a server every connection gets the answers to its messages, whole and in
    order, and all of them; with more connections than workers the missing lock loses the order.
  \<^item> \<open>ZMain\<close> (\<^verbatim>\<open>main/Server/Server.go\<close>, \<^verbatim>\<open>main/Client/Client.go\<close>): a session of the two example programs.

  \<^bold>\<open>Bounds and fuel.\<close> The client's sequence numbers are 64-bit words that start at 1, so its
  properties hold while fewer than \<open>2^64 - 1\<close> calls have been made; after that numbers repeat. A
  \<open>bufio.Reader\<close> has its default buffer of 4096 bytes. Loops are recursions with termination
  proofs (\<open>search_loop\<close>, \<open>fill\<close>, \<open>StartReader\<close>) or \<open>partial_function\<close>; an endless loop (the
  example client of myzinx, the accept loops) runs over a given number of rounds or a given
  sequence of results, for every such number or sequence. The claims that runs end are
  well-foundedness of the step relation together with a characterization of the states
  in which nothing more can happen.

  \<^bold>\<open>Not modelled.\<close> Listening sockets, flag parsing, sleeping and printing; the generated
  registration code of \<^verbatim>\<open>geecachepb.pb.go\<close>; test code; the interfaces of \<^verbatim>\<open>ziface\<close> beyond
  \<open>IRouter\<close>, whose methods are those of the types of \<^verbatim>\<open>znet\<close>; the address accessors of a connection;
  \<open>XDial\<close>, which the repository does not define. \<open>Stop\<close> of a zinx connection is a
  single step except in \<open>ZStop\<close>, and so is the reading of \<open>isClosed\<close>. \<open>done()\<close> of a client's call sends on a
  channel that has room: those that \<open>Call\<close> and \<open>Go\<close> make have it, and a channel that the caller of \<open>Go\<close>
  passes has it while no more calls share it than it holds (\<open>done_has_room\<close>); one that is too small
  for its calls, on which the receiver would wait, is left out.
\<close>

end
